(* ===== verification/Prelude.thy ===== *)
theory Prelude
  imports
    Main
    "HOL-Library.Word"
    "HOL-Library.Char_ord"
    "HOL-Library.List_Lexorder"
    "HOL-Library.AList"
    "HOL-Library.Sublist"
begin

text \<open>
  Shared vocabulary of the development: the machine types of the Go sources, byte strings,
  the standard-library encoders the sources call (big-endian integers, decimal integers) and
  the generic lemmas on lists, options and words the components rely on.

  A Go \<^verbatim>\<open>[]byte\<close> and a Go \<^verbatim>\<open>string\<close> are both sequences of bytes; a HOL \<^typ>\<open>char\<close> is one
  byte, so both are \<^typ>\<open>string\<close> here and the conversions \<^verbatim>\<open>string(b)\<close>, \<^verbatim>\<open>[]byte(s)\<close> are the
  identity. The order on \<^typ>\<open>string\<close> is the lexicographic order of the byte values, which is
  Go's string comparison and \<^verbatim>\<open>bytes.Compare\<close>.
\<close>

section \<open>Types\<close>

type_synonym bytes = string
type_synonym u8 = "8 word"
type_synonym u16 = "16 word"
type_synonym u32 = "32 word"
type_synonym u64 = "64 word"

named_theorems codec \<open>equations of the byte encoders\<close>
named_theorems step_defs \<open>definitions unfolded by the invariant proofs\<close>

section \<open>Big-endian integers (encoding/binary)\<close>

text \<open>\<open>put_be k v\<close> writes the low \<open>k\<close> bytes of \<open>v\<close>, most significant first.\<close>

fun put_be :: "nat \<Rightarrow> nat \<Rightarrow> bytes" where
  "put_be 0 v = []"
| "put_be (Suc k) v = put_be k (v div 256) @ [char_of v]"

definition get_be :: "bytes \<Rightarrow> nat" where
  "get_be bs = foldl (\<lambda>acc c. acc * 256 + of_char c) 0 bs"

definition put_u64 :: "u64 \<Rightarrow> bytes" where
  "put_u64 w = put_be 8 (unat w)"

definition put_u32 :: "u32 \<Rightarrow> bytes" where
  "put_u32 w = put_be 4 (unat w)"

definition put_u16 :: "u16 \<Rightarrow> bytes" where
  "put_u16 w = put_be 2 (unat w)"

definition get_u64 :: "bytes \<Rightarrow> u64" where
  "get_u64 bs = of_nat (get_be bs)"

definition get_u32 :: "bytes \<Rightarrow> u32" where
  "get_u32 bs = of_nat (get_be bs)"

definition get_u16 :: "bytes \<Rightarrow> u16" where
  "get_u16 bs = of_nat (get_be bs)"

section \<open>Decimal integers (strconv.FormatUint, base 10)\<close>

fun format_uint :: "nat \<Rightarrow> string" where
  "format_uint n =
     (if n < 10 then [char_of (48 + n)]
      else format_uint (n div 10) @ [char_of (48 + n mod 10)])"

declare format_uint.simps [simp del]

definition is_digit :: "char \<Rightarrow> bool" where
  "is_digit c \<longleftrightarrow> 48 \<le> (of_char c :: nat) \<and> (of_char c :: nat) < 58"

section \<open>Lemmas\<close>

lemma length_put_be [simp]: "length (put_be k v) = k"
  by (induction k v rule: put_be.induct) simp_all

lemma get_be_Nil [simp]: "get_be [] = 0"
  by (simp add: get_be_def)

lemma get_be_snoc [simp]: "get_be (bs @ [c]) = get_be bs * 256 + of_char c"
  by (simp add: get_be_def)

lemma get_put_be [codec]: "v < 256 ^ k \<Longrightarrow> get_be (put_be k v) = v"
proof (induction k v rule: put_be.induct)
  case (1 v)
  then show ?case by simp
next
  case (2 k v)
  then have "v div 256 < 256 ^ k"
    by (simp add: less_mult_imp_div_less mult.commute)
  with 2 show ?case by simp
qed

lemma of_char_less_256: "(of_char c :: nat) < 256"
  by (metis of_char_mod_256 mod_less_divisor zero_less_numeral)

lemma get_be_less: "get_be bs < 256 ^ length bs"
proof (induction bs rule: rev_induct)
  case Nil
  then show ?case by simp
next
  case (snoc c bs)
  have "of_char c < (256::nat)" by (rule of_char_less_256)
  moreover have "get_be bs * 256 + 256 \<le> 256 ^ length bs * 256"
    using snoc by (metis Suc_leI add.commute mult_Suc mult_le_mono1)
  ultimately show ?case
    unfolding get_be_snoc length_append_singleton power_Suc by linarith
qed

lemma put_get_be [codec]: "put_be (length bs) (get_be bs) = bs"
proof (induction bs rule: rev_induct)
  case Nil
  then show ?case by simp
next
  case (snoc c bs)
  have "(get_be bs * 256 + of_char c) div 256 = get_be bs" by simp
  moreover have "char_of (get_be bs * 256 + of_char c) = c"
    using char_of_mod_256 [of "get_be bs * 256 + of_char c"]
    by (metis mod_mult_self3 of_char_mod_256 char_of_char)
  ultimately show ?case using snoc by simp
qed

lemma put_be_inject: "v < 256 ^ k \<Longrightarrow> w < 256 ^ k \<Longrightarrow> put_be k v = put_be k w \<Longrightarrow> v = w"
  by (metis get_put_be)

lemma length_put_u64 [simp]: "length (put_u64 w) = 8"
  by (simp add: put_u64_def)

lemma length_put_u32 [simp]: "length (put_u32 w) = 4"
  by (simp add: put_u32_def)

lemma length_put_u16 [simp]: "length (put_u16 w) = 2"
  by (simp add: put_u16_def)

lemma get_put_u64 [simp]: "get_u64 (put_u64 w) = w"
proof -
  have "unat w < 256 ^ 8" using unsigned_less [of w, where ?'a = nat] by simp
  then show ?thesis by (simp add: get_u64_def put_u64_def get_put_be)
qed

lemma get_put_u32 [simp]: "get_u32 (put_u32 w) = w"
proof -
  have "unat w < 256 ^ 4" using unsigned_less [of w, where ?'a = nat] by simp
  then show ?thesis by (simp add: get_u32_def put_u32_def get_put_be)
qed

lemma get_put_u16 [simp]: "get_u16 (put_u16 w) = w"
proof -
  have "unat w < 256 ^ 2" using unsigned_less [of w, where ?'a = nat] by simp
  then show ?thesis by (simp add: get_u16_def put_u16_def get_put_be)
qed

lemma put_get_u64: "length bs = 8 \<Longrightarrow> put_u64 (get_u64 bs) = bs"
  using get_be_less [of bs] put_get_be [of bs]
  by (simp add: put_u64_def get_u64_def unat_of_nat)

lemma put_get_u16: "length bs = 2 \<Longrightarrow> put_u16 (get_u16 bs) = bs"
  using get_be_less [of bs] put_get_be [of bs]
  by (simp add: put_u16_def get_u16_def unat_of_nat)

text \<open>A decimal rendering determines its number, so renderings of distinct numbers differ.\<close>

definition parse_dec :: "string \<Rightarrow> nat" where
  "parse_dec s = foldl (\<lambda>acc c. acc * 10 + (of_char c - 48)) 0 s"

lemma parse_format_uint: "parse_dec (format_uint n) = n"
proof (induction n rule: format_uint.induct)
  case (1 n)
  show ?case
  proof (cases "n < 10")
    case True
    then show ?thesis by (subst format_uint.simps) (simp add: parse_dec_def)
  next
    case False
    with 1 have IH: "parse_dec (format_uint (n div 10)) = n div 10" by simp
    have d: "of_char (char_of (48 + n mod 10)) - 48 = (n mod 10 :: nat)" by simp
    from False IH d show ?thesis
      by (subst format_uint.simps) (simp add: parse_dec_def)
  qed
qed

lemma format_uint_inject [simp]: "format_uint a = format_uint b \<longleftrightarrow> a = b"
  by (metis parse_format_uint)

lemma map_of_alist_update [simp]: "map_of (AList.update k v al) = (map_of al)(k \<mapsto> v)"
  by (rule update_conv')

lemma map_of_alist_delete [simp]: "map_of (AList.delete k al) = (map_of al)(k := None)"
  by (rule delete_conv')

lemma format_uint_digits: "list_all is_digit (format_uint n)"
proof (induction n rule: format_uint.induct)
  case (1 n)
  then show ?case by (subst format_uint.simps) (simp add: is_digit_def [of "char_of _"])
qed

lemma format_uint_not_Nil [simp]: "format_uint n \<noteq> []"
  by (subst format_uint.simps) simp

section \<open>Lists\<close>

lemma le_length_takeWhile: "n \<le> length (takeWhile P xs) \<longleftrightarrow> n \<le> length xs \<and> (\<forall>k<n. P (xs ! k))"
proof (induction xs arbitrary: n)
  case (Cons x xs)
  then show ?case by (cases n) (auto simp: less_Suc_eq_0_disj)
qed auto

lemma set_alist_update: "set (AList.update k v xs) \<subseteq> insert (k, v) (set xs)"
  by (induction xs) auto

lemma set_alist_delete: "set (AList.delete k xs) = {p \<in> set xs. fst p \<noteq> k}"
  by (auto simp: AList.delete_eq)

section \<open>Words\<close>

lemma unat_exp: "k < LENGTH('a) \<Longrightarrow> unat (2 ^ k :: 'a::len word) = 2 ^ k"
proof -
  assume "k < LENGTH('a)"
  then have "(2::nat) ^ k < 2 ^ LENGTH('a)" by simp
  then have "unat (of_nat (2 ^ k) :: 'a word) = 2 ^ k" by (rule of_nat_inverse [OF refl])
  then show ?thesis by simp
qed

lemma uint_exp: "k < LENGTH('a) \<Longrightarrow> uint (2 ^ k :: 'a::len word) = 2 ^ k"
  by (simp add: uint_nat unat_exp)

lemma unat_ucast_up: "LENGTH('a) \<le> LENGTH('b) \<Longrightarrow> unat (ucast (w :: 'a::len word) :: 'b::len word) = unat w"
proof -
  assume "LENGTH('a) \<le> LENGTH('b)"
  then have "(2::nat) ^ LENGTH('a) \<le> 2 ^ LENGTH('b)" by (intro power_increasing) auto
  with unsigned_less [of w, where ?'a = nat] have "unat w < 2 ^ LENGTH('b)" by linarith
  then show ?thesis by (simp add: unsigned_ucast_eq take_bit_nat_eq_self)
qed

lemma u64_succ_less: "(e :: u64) \<noteq> - 1 \<Longrightarrow> e < e + 1"
proof -
  assume "e \<noteq> - 1"
  then have "unat e \<noteq> unat (- 1 :: u64)" by (simp add: word_unat_eq_iff)
  then have "unat e \<noteq> 2 ^ 64 - 1" by (simp add: unsigned_minus_1_eq_mask mask_eq_exp_minus_1)
  moreover have "unat e < 2 ^ 64" using unsigned_less [of e] by simp
  ultimately have "unat e + 1 < 2 ^ 64" by simp
  then show ?thesis by (simp add: word_less_nat_alt unat_word_ariths)
qed

end
