(* ===== verification/Units.thy ===== *)
theory Units
  imports Prelude "HOL-Library.Product_Lexorder"
begin

text \<open>
  The storage-unit domain (\<^verbatim>\<open>src/pkg/storageunit\<close>: \<^verbatim>\<open>unit.go\<close>, \<^verbatim>\<open>unitmap.go\<close>, \<^verbatim>\<open>doubling.go\<close>,
  \<^verbatim>\<open>genunit.go\<close>, \<^verbatim>\<open>replica.go\<close>, \<^verbatim>\<open>mountref.go\<close>): unit counts, the map from a shard hash to its
  unit, the doubling split, and the identities a mount is keyed by, with their total order.
  A Go \<^verbatim>\<open>int\<close> is a mathematical integer here: the only arithmetic on one, twice or half a
  32-bit count, stays far inside the 64-bit range.
\<close>

unbundle bit_operations_syntax

section \<open>Unit counts (unit.go)\<close>

type_synonym UnitID = u32

datatype UnitCount = UnitCount (uc_n: u32)

datatype unit_error =
    BelowMinimum int
  | ExceedsMaximum int
  | NotPowerOfTwo int
  | UnitOutOfRange UnitID UnitCount
  | CannotHalve UnitCount

definition MinUnitCount :: int where
  "MinUnitCount = 1"

definition MaxUnitCount :: int where
  "MaxUnitCount = 2 ^ 30"

text \<open>\<^verbatim>\<open>math/bits\<close>: the number of one bits and of trailing zero bits of a 32-bit word.\<close>

definition OnesCount32 :: "u32 \<Rightarrow> nat" where
  "OnesCount32 w = length (filter (bit w) [0..<32])"

definition TrailingZeros32 :: "u32 \<Rightarrow> nat" where
  "TrailingZeros32 w = length (takeWhile (\<lambda>i. \<not> bit w i) [0..<32])"

definition NewUnitCount :: "int \<Rightarrow> unit_error + UnitCount" where
  "NewUnitCount n =
     (if n < MinUnitCount then Inl (BelowMinimum n)
      else if n > MaxUnitCount then Inl (ExceedsMaximum n)
      else if OnesCount32 (word_of_int n) \<noteq> 1 then Inl (NotPowerOfTwo n)
      else Inr (UnitCount (word_of_int n)))"

text \<open>\<^verbatim>\<open>MustUnitCount\<close> panics where \<^verbatim>\<open>NewUnitCount\<close> errors: \<^const>\<open>None\<close> is the panic.\<close>

definition MustUnitCount :: "int \<Rightarrow> UnitCount option" where
  "MustUnitCount n = (case NewUnitCount n of Inl _ \<Rightarrow> None | Inr c \<Rightarrow> Some c)"

definition unit_mask :: "UnitCount \<Rightarrow> u64" where
  "unit_mask c = ucast (uc_n c) - 1"

definition IsZero :: "UnitCount \<Rightarrow> bool" where
  "IsZero c \<longleftrightarrow> uc_n c = 0"

definition Contains :: "UnitCount \<Rightarrow> UnitID \<Rightarrow> bool" where
  "Contains c u \<longleftrightarrow> u < uc_n c"

definition IDs :: "UnitCount \<Rightarrow> UnitID list" where
  "IDs c = map of_nat [0..<unat (uc_n c)]"

definition Double :: "UnitCount \<Rightarrow> unit_error + UnitCount" where
  "Double c = NewUnitCount (uint (uc_n c) * 2)"

definition Halve :: "UnitCount \<Rightarrow> unit_error + UnitCount" where
  "Halve c =
     (if uint (uc_n c) \<le> MinUnitCount then Inl (CannotHalve c)
      else NewUnitCount (uint (uc_n c) div 2))"

section \<open>From a shard hash to a unit (unitmap.go)\<close>

type_synonym ShardHash = u64

text \<open>xxhash is a third-party package: \<open>xxhash_Sum64\<close> is a parameter of what calls it.\<close>

definition HashShardKey :: "(bytes \<Rightarrow> u64) \<Rightarrow> bytes \<Rightarrow> ShardHash" where
  "HashShardKey xxhash_Sum64 shardKey = xxhash_Sum64 shardKey"

definition UnitForHash :: "ShardHash \<Rightarrow> UnitCount \<Rightarrow> UnitID" where
  "UnitForHash h c = ucast (h AND unit_mask c)"

definition UnitForShardKey :: "(bytes \<Rightarrow> u64) \<Rightarrow> bytes \<Rightarrow> UnitCount \<Rightarrow> UnitID" where
  "UnitForShardKey xxhash_Sum64 shardKey c = UnitForHash (HashShardKey xxhash_Sum64 shardKey) c"

section \<open>The doubling split (doubling.go)\<close>

definition splitBitIndex :: "UnitCount \<Rightarrow> nat" where
  "splitBitIndex c = TrailingZeros32 (uc_n c)"

definition ChildUnit :: "ShardHash \<Rightarrow> UnitCount \<Rightarrow> unit_error + UnitID" where
  "ChildUnit h old =
     (case Double old of
        Inl e \<Rightarrow> Inl e
      | Inr _ \<Rightarrow>
          (let parent = UnitForHash h old;
               b = drop_bit (splitBitIndex old) h AND 1
           in Inr (parent + ucast b * uc_n old)))"

definition ChildUnits :: "UnitID \<Rightarrow> UnitCount \<Rightarrow> unit_error + UnitID \<times> UnitID" where
  "ChildUnits k old =
     (if \<not> Contains old k then Inl (UnitOutOfRange k old)
      else case Double old of
        Inl e \<Rightarrow> Inl e
      | Inr _ \<Rightarrow> Inr (k, k + uc_n old))"

definition ParentUnit :: "UnitID \<Rightarrow> UnitCount \<Rightarrow> unit_error + UnitID" where
  "ParentUnit c cur =
     (if \<not> Contains cur c then Inl (UnitOutOfRange c cur)
      else if uint (uc_n cur) \<le> MinUnitCount then Inl (CannotHalve cur)
      else Inr (c mod (uc_n cur div 2)))"

section \<open>Storage identities (genunit.go, replica.go, mountref.go)\<close>

type_synonym Generation = u64
type_synonym NodeID = string

datatype GenUnit = GenUnit (gu_Gen: Generation) (gu_ID: UnitID)

definition NewGenUnit :: "Generation \<Rightarrow> UnitID \<Rightarrow> GenUnit" where
  "NewGenUnit g i = GenUnit g i"

definition GenUnit_String :: "GenUnit \<Rightarrow> string" where
  "GenUnit_String gu =
     ''g'' @ format_uint (unat (gu_Gen gu)) @ ''/u'' @ format_uint (unat (gu_ID gu))"

datatype ReplicaUnit = ReplicaUnit (ru_Unit: GenUnit) (ru_Replica: u8)

definition NewReplicaUnit :: "GenUnit \<Rightarrow> u8 \<Rightarrow> ReplicaUnit" where
  "NewReplicaUnit gu r = ReplicaUnit gu r"

definition ReplicaUnit_String :: "ReplicaUnit \<Rightarrow> string" where
  "ReplicaUnit_String ru =
     GenUnit_String (ru_Unit ru) @ ''/r'' @ format_uint (unat (ru_Replica ru))"

datatype OwnedReplica = OwnedReplica (or_Unit: UnitID) (or_Replica: u8)

text \<open>The first index of a value in a list, as the inner \<^verbatim>\<open>for pos, node := range set\<close> finds it.\<close>

fun first_index :: "'a \<Rightarrow> 'a list \<Rightarrow> nat option" where
  "first_index x [] = None"
| "first_index x (y # ys) = (if y = x then Some 0 else map_option Suc (first_index x ys))"

text \<open>
  \<^verbatim>\<open>OwnedReplicaUnits\<close>: the replica lookup is the caller's (the ring in production), and may be
  nil. The position is converted to \<^verbatim>\<open>uint8\<close>, so it wraps beyond 255.
\<close>

definition OwnedReplicaUnits ::
    "NodeID \<Rightarrow> UnitCount \<Rightarrow> (UnitID \<Rightarrow> NodeID list) option \<Rightarrow> OwnedReplica list" where
  "OwnedReplicaUnits self c replicas =
     (case replicas of
        None \<Rightarrow> []
      | Some ReplicasOf \<Rightarrow>
          if IsZero c then []
          else concat (map (\<lambda>i. let u = of_nat i in
                 case first_index self (ReplicasOf u) of
                   None \<Rightarrow> []
                 | Some pos \<Rightarrow> [OwnedReplica u (of_nat pos)]) [0..<unat (uc_n c)]))"

datatype MountRef = MountRef (mr_ru: ReplicaUnit) (mr_replicated: bool)

definition SoleMount :: "GenUnit \<Rightarrow> MountRef" where
  "SoleMount gu = MountRef (NewReplicaUnit gu 0) False"

definition ReplicaMount :: "ReplicaUnit \<Rightarrow> MountRef" where
  "ReplicaMount ru = MountRef ru True"

definition mr_Unit :: "MountRef \<Rightarrow> GenUnit" where
  "mr_Unit m = ru_Unit (mr_ru m)"

definition mr_Replica :: "MountRef \<Rightarrow> u8" where
  "mr_Replica m = ru_Replica (mr_ru m)"

definition MountRef_String :: "MountRef \<Rightarrow> string" where
  "MountRef_String m =
     (if mr_replicated m then ''replica '' @ ReplicaUnit_String (mr_ru m)
      else ''unit '' @ GenUnit_String (ru_Unit (mr_ru m)))"

definition cmpUint64 :: "u64 \<Rightarrow> u64 \<Rightarrow> int" where
  "cmpUint64 a b = (if a < b then -1 else if a > b then 1 else 0)"

definition CompareMountRefs :: "MountRef \<Rightarrow> MountRef \<Rightarrow> int" where
  "CompareMountRefs a b =
     (if gu_Gen (mr_Unit a) \<noteq> gu_Gen (mr_Unit b)
        then cmpUint64 (gu_Gen (mr_Unit a)) (gu_Gen (mr_Unit b))
      else if gu_ID (mr_Unit a) \<noteq> gu_ID (mr_Unit b)
        then cmpUint64 (ucast (gu_ID (mr_Unit a))) (ucast (gu_ID (mr_Unit b)))
      else if mr_Replica a \<noteq> mr_Replica b
        then cmpUint64 (ucast (mr_Replica a)) (ucast (mr_Replica b))
      else if mr_replicated a \<noteq> mr_replicated b
        then (if \<not> mr_replicated a then -1 else 1)
      else 0)"

text \<open>The counts \<^verbatim>\<open>NewUnitCount\<close> admits, and the refs the two constructors build.\<close>

definition unit_count_ok :: "UnitCount \<Rightarrow> bool" where
  "unit_count_ok c \<longleftrightarrow> (\<exists>k\<le>30. uc_n c = 2 ^ k)"

definition mount_ref_ok :: "MountRef \<Rightarrow> bool" where
  "mount_ref_ok m \<longleftrightarrow> (mr_replicated m \<or> mr_Replica m = 0)"

text \<open>Reading aids of the proofs: the replicas the scan emits for the unit of one index, and the
  tuple whose lexicographic order \<^verbatim>\<open>CompareMountRefs\<close> realises.\<close>

definition owned_at :: "NodeID \<Rightarrow> (UnitID \<Rightarrow> NodeID list) \<Rightarrow> nat \<Rightarrow> OwnedReplica list" where
  "owned_at self R i =
     (case first_index self (R (of_nat i)) of None \<Rightarrow> []
      | Some pos \<Rightarrow> [OwnedReplica (of_nat i) (of_nat pos)])"

definition mr_key :: "MountRef \<Rightarrow> u64 \<times> u32 \<times> u8 \<times> bool" where
  "mr_key m = (gu_Gen (mr_Unit m), gu_ID (mr_Unit m), mr_Replica m, mr_replicated m)"

section \<open>Unit counts are powers of two\<close>

lemma OnesCount32_exp: "k < 32 \<Longrightarrow> OnesCount32 (2 ^ k) = 1"
proof -
  assume k: "k < 32"
  have "filter (bit (2 ^ k :: u32)) [0..<32] = filter (\<lambda>i. i = k) [0..<32]"
    by (rule filter_cong) (auto simp: bit_exp_iff)
  also have "length \<dots> = card {i \<in> set [0..<32]. i = k}"
    by (subst distinct_length_filter) (auto intro: arg_cong [where f = card])
  also have "{i \<in> set [0..<32]. i = k} = {k}"
    using k by auto
  finally show ?thesis by (simp add: OnesCount32_def)
qed

lemma OnesCount32_1_iff: "OnesCount32 w = 1 \<longleftrightarrow> (\<exists>k<32. w = 2 ^ k)"
proof
  assume "OnesCount32 w = 1"
  then have "card (set (filter (bit w) [0..<32])) = 1"
    by (subst distinct_card) (simp_all add: OnesCount32_def)
  then obtain k where k: "{i. i < 32 \<and> bit w i} = {k}"
    by (auto simp: card_1_singleton_iff)
  have "bit w i \<longleftrightarrow> i = k" if "i < 32" for i
    using k that by blast
  moreover have "k < 32" using k by blast
  ultimately have "w = 2 ^ k"
    by (intro bit_word_eqI) (auto simp: bit_exp_iff)
  with \<open>k < 32\<close> show "\<exists>k<32. w = 2 ^ k" by blast
qed (auto simp: OnesCount32_exp)

lemma TrailingZeros32_exp: "k < 32 \<Longrightarrow> TrailingZeros32 (2 ^ k) = k"
proof -
  assume k: "k < 32"
  have "takeWhile (\<lambda>i. \<not> bit (2 ^ k :: u32) i) [0..<32] = takeWhile (\<lambda>i. i \<noteq> k) [0..<32]"
    by (rule takeWhile_cong) (auto simp: bit_exp_iff)
  moreover have "[0..<32] = [0..<k] @ k # [Suc k..<32]"
    using k by (metis le0 le_add_same_cancel1 less_or_eq_imp_le upt_add_eq_append upt_conv_Cons le_iff_add)
  moreover have "takeWhile (\<lambda>i. i \<noteq> k) ([0..<k] @ k # [Suc k..<32]) = [0..<k]"
    by (subst takeWhile_append2) auto
  ultimately show ?thesis by (simp add: TrailingZeros32_def)
qed

lemma unit_count_okE:
  assumes "unit_count_ok c"
  obtains k where "k \<le> 30" "uc_n c = 2 ^ k" "unat (uc_n c) = 2 ^ k" "uint (uc_n c) = 2 ^ k"
  using assms by (auto simp: unit_count_ok_def unat_exp uint_exp)

lemma NewUnitCount_exp: "k \<le> 30 \<Longrightarrow> NewUnitCount (2 ^ k) = Inr (UnitCount (2 ^ k))"
  using power_increasing [of k 30 "2::int"]
  by (simp add: NewUnitCount_def MinUnitCount_def MaxUnitCount_def OnesCount32_exp not_less)

lemma NewUnitCount_iff:
  "NewUnitCount n = Inr c \<longleftrightarrow> (\<exists>k\<le>30. n = 2 ^ k \<and> c = UnitCount (2 ^ k))"
proof
  assume r: "NewUnitCount n = Inr c"
  then have n: "1 \<le> n" "n \<le> 2 ^ 30" "OnesCount32 (word_of_int n) = 1" "c = UnitCount (word_of_int n)"
    by (auto simp: NewUnitCount_def MinUnitCount_def MaxUnitCount_def split: if_splits)
  then obtain k where k: "k < 32" "(word_of_int n :: u32) = 2 ^ k"
    using OnesCount32_1_iff by blast
  have "n = uint (word_of_int n :: u32)" using n by (simp add: uint_word_of_int)
  then have n': "n = 2 ^ k" using k by (simp add: uint_exp)
  with n(2) have "(2::int) ^ k \<le> 2 ^ 30" by (simp only:)
  then have "k \<le> 30" by (rule power_le_imp_le_exp [rotated]) simp
  with n' n(4) show "\<exists>k\<le>30. n = 2 ^ k \<and> c = UnitCount (2 ^ k)" by auto
qed (auto simp: NewUnitCount_exp)

lemma NewUnitCount_ok: "NewUnitCount n = Inr c \<Longrightarrow> unit_count_ok c"
  by (auto simp: NewUnitCount_iff unit_count_ok_def)

lemma Double_exp: "k < 30 \<Longrightarrow> Double (UnitCount (2 ^ k)) = Inr (UnitCount (2 ^ Suc k))"
  using NewUnitCount_exp [of "Suc k"] by (simp add: Double_def uint_exp mult.commute)

lemma Double_max: "Double (UnitCount (2 ^ 30)) = Inl (ExceedsMaximum (2 ^ 31))"
  by (simp add: Double_def NewUnitCount_def MinUnitCount_def MaxUnitCount_def)

lemma Double_Inr_iff:
  assumes "unit_count_ok c"
  shows "Double c = Inr c' \<longleftrightarrow> (\<exists>k<30. c = UnitCount (2 ^ k) \<and> c' = UnitCount (2 ^ Suc k))"
proof -
  obtain k where k: "k \<le> 30" "c = UnitCount (2 ^ k)"
    using assms by (metis UnitCount.collapse unit_count_ok_def)
  show ?thesis
  proof (cases "k = 30")
    case True
    have "(2 ^ 30 :: u32) \<noteq> 2 ^ j" if "j < 30" for j
    proof
      assume "(2 ^ 30 :: u32) = 2 ^ j"
      then have "(2::nat) ^ 30 = 2 ^ j"
        using that unat_exp [of 30, where 'a = 32] unat_exp [of j, where 'a = 32] by simp
      then have "30 = j" by (simp only: power_inject_exp)
      with that show False by simp
    qed
    with True k show ?thesis using Double_max by auto
  next
    case False
    then have "k < 30" using k by simp
    then have D: "Double c = Inr (UnitCount (2 ^ Suc k))" using k Double_exp by simp
    show ?thesis
    proof
      assume "Double c = Inr c'"
      with D \<open>k < 30\<close> k show "\<exists>k<30. c = UnitCount (2 ^ k) \<and> c' = UnitCount (2 ^ Suc k)" by auto
    next
      assume "\<exists>k<30. c = UnitCount (2 ^ k) \<and> c' = UnitCount (2 ^ Suc k)"
      then show "Double c = Inr c'" by (auto simp: Double_exp simp del: power_Suc)
    qed
  qed
qed

lemma unit_mask_exp: "k \<le> 30 \<Longrightarrow> unit_mask (UnitCount (2 ^ k)) = mask k"
proof -
  assume k: "k \<le> 30"
  then have "unat (ucast (2 ^ k :: u32) :: u64) = unat (2 ^ k :: u64)"
    by (simp add: unat_exp unsigned_ucast_eq take_bit_nat_eq_self)
  then have "(ucast (2 ^ k :: u32) :: u64) = 2 ^ k" by (simp only: word_unat_eq_iff)
  then show ?thesis by (simp add: unit_mask_def mask_eq_exp_minus_1)
qed

lemma unat_UnitForHash_exp:
  assumes "k \<le> 30"
  shows "unat (UnitForHash h (UnitCount (2 ^ k))) = unat h mod 2 ^ k"
proof -
  have "unat (UnitForHash h (UnitCount (2 ^ k))) = take_bit 32 (take_bit k (unat h))"
    using assms
    by (simp only: UnitForHash_def unit_mask_exp take_bit_eq_mask [symmetric] unsigned_ucast_eq
        unsigned_take_bit_eq) simp
  also have "\<dots> = take_bit k (unat h)"
    using assms by (simp only: take_bit_take_bit min.absorb2 [of k 32])
  finally show ?thesis by (simp only: take_bit_eq_mod)
qed

lemma UnitForHash_mod:
  "unit_count_ok c \<Longrightarrow> unat (UnitForHash h c) = unat h mod unat (uc_n c)"
  by (cases c) (auto simp: unit_count_ok_def unat_UnitForHash_exp unat_exp)

lemma UnitForHash_Contains: "unit_count_ok c \<Longrightarrow> Contains c (UnitForHash h c)"
  by (cases c) (auto simp: unit_count_ok_def Contains_def word_less_nat_alt unat_UnitForHash_exp unat_exp)

lemma nat_split_bit: "(m::nat) mod 2 ^ Suc k = m mod 2 ^ k + 2 ^ k * (m div 2 ^ k mod 2)"
  by (simp only: power_Suc2 mod_mult2_eq add.commute)

lemma unat_split_bit: "unat ((drop_bit k h AND 1) :: u64) = unat h div 2 ^ k mod 2"
  by (simp add: and_one_eq unat_mod unat_drop_bit_eq drop_bit_eq_div [where 'a = nat])

lemma ChildUnit_exp:
  assumes k: "k < 30"
  shows "ChildUnit h (UnitCount (2 ^ k)) = Inr (UnitForHash h (UnitCount (2 ^ Suc k)))"
proof -
  let ?b = "(drop_bit k h AND 1) :: u64"
  let ?p = "UnitForHash h (UnitCount (2 ^ k))"
  have b: "unat (ucast ?b :: u32) = unat h div 2 ^ k mod 2"
    using unat_split_bit [of k h] by (simp add: unsigned_ucast_eq take_bit_nat_eq_self)
  have lt: "unat h mod 2 ^ k + unat h div 2 ^ k mod 2 * 2 ^ k < 2 ^ 32"
  proof -
    have "unat h mod 2 ^ Suc k < 2 ^ Suc k" by simp
    also have "(2::nat) ^ Suc k \<le> 2 ^ 32" using k by (intro power_increasing) auto
    finally show ?thesis by (simp only: nat_split_bit mult.commute)
  qed
  have "unat (?p + ucast ?b * 2 ^ k) = unat h mod 2 ^ k + unat h div 2 ^ k mod 2 * 2 ^ k"
    using k lt by (simp add: unat_word_ariths b unat_exp unat_UnitForHash_exp)
  also have "\<dots> = unat (UnitForHash h (UnitCount (2 ^ Suc k)))"
    using k by (simp only: unat_UnitForHash_exp nat_split_bit mult.commute)
  finally have "?p + ucast ?b * 2 ^ k = UnitForHash h (UnitCount (2 ^ Suc k))"
    by (simp only: word_unat_eq_iff)
  with k show ?thesis
    by (simp add: ChildUnit_def Double_exp splitBitIndex_def TrailingZeros32_exp Let_def del: power_Suc)
qed


lemma unit_count_ok_expE:
  assumes "unit_count_ok c"
  obtains k where "k \<le> 30" "c = UnitCount (2 ^ k)"
  using assms by (metis UnitCount.collapse unit_count_ok_def)

lemma ChildUnit_direct:
  assumes "unit_count_ok c" and "Double c = Inr c2"
  shows "ChildUnit h c = Inr (UnitForHash h c2)"
  using assms by (auto simp: Double_Inr_iff ChildUnit_exp simp del: power_Suc)

lemma unat_high_child:
  assumes "k < 30" and "unat u < 2 ^ k"
  shows "unat (u + 2 ^ k :: u32) = unat u + 2 ^ k"
proof -
  have "(2::nat) ^ k + 2 ^ k \<le> 2 ^ 31"
    using power_increasing [of "Suc k" 31 "2::nat"] assms(1) by simp
  with assms(2) have "unat u + 2 ^ k < 2 ^ 32" by simp
  with assms(1) show ?thesis by (simp add: unat_word_ariths unat_exp)
qed

lemma mod_double_cases:
  "(m::nat) mod 2 ^ k = u \<longleftrightarrow> m mod 2 ^ Suc k = u \<and> u < 2 ^ k \<or> m mod 2 ^ Suc k = u + 2 ^ k \<and> u < 2 ^ k"
proof -
  define x where "x = m mod 2 ^ k"
  have eq: "m mod 2 ^ Suc k = x + 2 ^ k * (m div 2 ^ k mod 2)"
    unfolding x_def by (rule nat_split_bit)
  have lt: "x < 2 ^ k" by (simp add: x_def)
  consider "m div 2 ^ k mod 2 = 0" | "m div 2 ^ k mod 2 = 1" by linarith
  then show ?thesis
    by cases (use eq lt in \<open>auto simp flip: x_def\<close>)
qed

lemma ChildUnits_bisect:
  assumes ok: "unit_count_ok c" and ch: "ChildUnits k c = Inr (lo, hi)" and d: "Double c = Inr c2"
  shows "(UnitForHash h c = k \<longleftrightarrow> UnitForHash h c2 = lo \<or> UnitForHash h c2 = hi)
    \<and> lo \<noteq> hi \<and> ParentUnit lo c2 = Inr k \<and> ParentUnit hi c2 = Inr k"
proof -
  from ok d obtain j where j: "j < 30" "c = UnitCount (2 ^ j)" "c2 = UnitCount (2 ^ Suc j)"
    by (auto simp: Double_Inr_iff)
  from ch have k: "k < 2 ^ j" and lohi: "lo = k" "hi = k + 2 ^ j"
    using j by (auto simp: ChildUnits_def Contains_def split: if_splits sum.splits)
  have uk: "unat k < 2 ^ j" using k j(1) by (simp add: word_less_nat_alt unat_exp)
  have uhi: "unat (k + 2 ^ j) = unat k + 2 ^ j" using j(1) uk by (rule unat_high_child)
  have "UnitForHash h c = k \<longleftrightarrow> unat h mod 2 ^ j = unat k"
    using j by (simp only: word_unat_eq_iff unat_UnitForHash_exp less_imp_le)
  also have "\<dots> \<longleftrightarrow> unat h mod 2 ^ Suc j = unat k \<or> unat h mod 2 ^ Suc j = unat k + 2 ^ j"
    using uk mod_double_cases [of "unat h" j "unat k"] by auto
  also have "\<dots> \<longleftrightarrow> UnitForHash h c2 = lo \<or> UnitForHash h c2 = hi"
    using j unfolding lohi by (simp only: word_unat_eq_iff unat_UnitForHash_exp uhi Suc_leI)
  finally have split: "UnitForHash h c = k \<longleftrightarrow> UnitForHash h c2 = lo \<or> UnitForHash h c2 = hi" .
  have n2: "unat (uc_n c2) = 2 ^ Suc j" "uint (uc_n c2) = 2 ^ Suc j"
    using j by (simp_all only: UnitCount.sel) (simp_all add: unat_exp uint_exp del: power_Suc)
  have half: "unat (uc_n c2 div 2) = 2 ^ j" by (simp add: unat_div n2)
  have "Contains c2 lo" "Contains c2 hi"
    using uk n2 unfolding Contains_def word_less_nat_alt lohi uhi by simp_all
  moreover have "\<not> uint (uc_n c2) \<le> MinUnitCount"
    unfolding n2 MinUnitCount_def not_le by (rule one_less_power) simp_all
  moreover have "k mod (uc_n c2 div 2) = k" "(k + 2 ^ j) mod (uc_n c2 div 2) = k"
    using uk by (simp_all add: word_unat_eq_iff unat_mod half uhi)
  ultimately have "ParentUnit lo c2 = Inr k" "ParentUnit hi c2 = Inr k"
    unfolding ParentUnit_def lohi by simp_all
  moreover have "lo \<noteq> hi" using uhi unfolding lohi by (metis add_0_right add_left_cancel power_not_zero zero_neq_numeral)
  ultimately show ?thesis using split by blast
qed

section \<open>The replicas a node owns\<close>

lemma first_index_Some_iff:
  "first_index x ys = Some i \<longleftrightarrow> i < length ys \<and> ys ! i = x \<and> (\<forall>j<i. ys ! j \<noteq> x)"
proof (induction ys arbitrary: i)
  case Nil
  then show ?case by simp
next
  case (Cons y ys)
  show ?case
    by (cases i) (auto simp: Cons less_Suc_eq_0_disj)
qed

lemma first_index_None_iff: "first_index x ys = None \<longleftrightarrow> x \<notin> set ys"
  by (induction ys) auto

lemma OwnedReplicaUnits_owned_at:
  "OwnedReplicaUnits self c (Some R) = concat (map (owned_at self R) [0..<unat (uc_n c)])"
  by (simp add: OwnedReplicaUnits_def owned_at_def [abs_def] Let_def IsZero_def)

lemma set_owned_at: "OwnedReplica u p \<in> set (owned_at self R i) \<longleftrightarrow>
    u = of_nat i \<and> (\<exists>j. first_index self (R u) = Some j \<and> p = of_nat j)"
  by (cases "first_index self (R (of_nat i))") (auto simp: owned_at_def)

lemma owned_at_sound: "r \<in> set (owned_at self R i) \<Longrightarrow> or_Unit r = of_nat i"
  by (auto simp: owned_at_def split: option.splits)

lemma OwnedReplicaUnits_sorted:
  "sorted_wrt (<) (map or_Unit (OwnedReplicaUnits self c (Some R)))"
proof -
  have "sorted_wrt (<) (map or_Unit (concat (map (owned_at self R) [0..<m]))) 
        \<and> (\<forall>r\<in>set (concat (map (owned_at self R) [0..<m])). unat (or_Unit r) < m)"
    if "m \<le> unat (uc_n c)" for m
    using that
  proof (induction m)
    case 0
    then show ?case by simp
  next
    case (Suc m)
    have m: "m < 2 ^ 32" using Suc.prems unsigned_less [of "uc_n c", where ?'a = nat] by simp
    then have um: "unat (of_nat m :: u32) = m" by (intro of_nat_inverse [OF refl]) simp
    from Suc have IH: "sorted_wrt (<) (map or_Unit (concat (map (owned_at self R) [0..<m])))"
      "\<forall>r\<in>set (concat (map (owned_at self R) [0..<m])). unat (or_Unit r) < m" by simp_all
    define xs ys where "xs = concat (map (owned_at self R) [0..<m])" and "ys = owned_at self R m"
    have "\<forall>r\<in>set ys. unat (or_Unit r) = m" using owned_at_sound um unfolding ys_def by metis
    moreover have "sorted_wrt (<) (map or_Unit ys)"
      by (simp add: ys_def owned_at_def split: option.splits)
    ultimately have "sorted_wrt (<) (map or_Unit (xs @ ys)) \<and> (\<forall>r\<in>set (xs @ ys). unat (or_Unit r) < Suc m)"
      using IH [folded xs_def] by (auto simp: sorted_wrt_append word_less_nat_alt less_Suc_eq)
    then show ?case by (simp add: xs_def ys_def)
  qed
  then show ?thesis by (simp add: OwnedReplicaUnits_owned_at)
qed

lemma OwnedReplicaUnits_exact:
  assumes small: "\<And>u. length (R u) \<le> 256"
  shows "OwnedReplica u p \<in> set (OwnedReplicaUnits self c (Some R)) \<longleftrightarrow>
    Contains c u \<and> unat p < length (R u) \<and> R u ! unat p = self \<and> (\<forall>j<unat p. R u ! j \<noteq> self)"
proof -
  have pos: "p = of_nat i \<longleftrightarrow> unat p = i" if "i < length (R u)" for i
  proof -
    have "i < 2 ^ LENGTH(8)" using that small [of u] by simp
    then show ?thesis using of_nat_inverse [OF refl, of i, where 'a = 8] by auto
  qed
  have "OwnedReplica u p \<in> set (OwnedReplicaUnits self c (Some R)) \<longleftrightarrow>
      (\<exists>i<unat (uc_n c). u = of_nat i \<and> (\<exists>j. first_index self (R u) = Some j \<and> p = of_nat j))"
    by (auto simp: OwnedReplicaUnits_owned_at set_owned_at)
  also have "\<dots> \<longleftrightarrow> Contains c u \<and> (\<exists>j. first_index self (R u) = Some j \<and> p = of_nat j)"
  proof -
    have "(\<exists>i<unat (uc_n c). u = of_nat i) \<longleftrightarrow> Contains c u"
    proof
      assume "\<exists>i<unat (uc_n c). u = of_nat i"
      then obtain i where i: "i < unat (uc_n c)" "u = of_nat i" by blast
      have "i < 2 ^ LENGTH(32)" using i(1) unsigned_less [of "uc_n c", where ?'a = nat] by linarith
      then show "Contains c u"
        using i of_nat_inverse [OF refl, of i, where 'a = 32] by (simp add: Contains_def word_less_nat_alt)
    next
      assume "Contains c u"
      then show "\<exists>i<unat (uc_n c). u = of_nat i"
        by (intro exI [of _ "unat u"]) (simp add: Contains_def word_less_nat_alt)
    qed
    then show ?thesis by blast
  qed
  also have "(\<exists>j. first_index self (R u) = Some j \<and> p = of_nat j) \<longleftrightarrow>
      unat p < length (R u) \<and> R u ! unat p = self \<and> (\<forall>j<unat p. R u ! j \<noteq> self)"
    unfolding first_index_Some_iff using pos by (metis (no_types))
  finally show ?thesis .
qed

section \<open>The order on mount refs\<close>

lemma mr_key_inject [simp]: "mr_key a = mr_key b \<longleftrightarrow> a = b"
  by (auto simp: mr_key_def mr_Unit_def mr_Replica_def intro!: MountRef.expand ReplicaUnit.expand GenUnit.expand)

lemma ucast_less_u32: "(ucast (a :: u32) :: u64) < ucast b \<longleftrightarrow> a < b"
  by (simp add: word_less_nat_alt unat_ucast_up)

lemma ucast_less_u8: "(ucast (a :: u8) :: u64) < ucast b \<longleftrightarrow> a < b"
  by (simp add: word_less_nat_alt unat_ucast_up)

lemma CompareMountRefs_key:
  "CompareMountRefs a b = (if mr_key a < mr_key b then -1 else if mr_key b < mr_key a then 1 else 0)"
proof -
  note defs = CompareMountRefs_def cmpUint64_def mr_key_def ucast_less_u32 ucast_less_u8
  let ?f = "\<lambda>m. gu_Gen (mr_Unit m)" and ?g = "\<lambda>m. gu_ID (mr_Unit m)"
  consider "?f a < ?f b" | "?f b < ?f a"
    | "?f a = ?f b" "?g a < ?g b" | "?f a = ?f b" "?g b < ?g a"
    | "?f a = ?f b" "?g a = ?g b" "mr_Replica a < mr_Replica b"
    | "?f a = ?f b" "?g a = ?g b" "mr_Replica b < mr_Replica a"
    | "?f a = ?f b" "?g a = ?g b" "mr_Replica a = mr_Replica b"
    using linorder_less_linear by metis
  then show ?thesis
    by cases (auto simp: defs)
qed

instantiation MountRef :: linorder
begin

definition less_eq_MountRef :: "MountRef \<Rightarrow> MountRef \<Rightarrow> bool" where
  "less_eq_MountRef a b \<longleftrightarrow> CompareMountRefs a b \<le> 0"

definition less_MountRef :: "MountRef \<Rightarrow> MountRef \<Rightarrow> bool" where
  "less_MountRef a b \<longleftrightarrow> CompareMountRefs a b < 0"

instance
proof
  fix x y z :: MountRef
  have le: "a \<le> b \<longleftrightarrow> mr_key a \<le> mr_key b" for a b :: MountRef
    by (auto simp: less_eq_MountRef_def CompareMountRefs_key)
  have lt: "a < b \<longleftrightarrow> mr_key a < mr_key b" for a b :: MountRef
    by (auto simp: less_MountRef_def CompareMountRefs_key)
  show "x < y \<longleftrightarrow> x \<le> y \<and> \<not> y \<le> x" by (simp add: le lt less_le_not_le)
  show "x \<le> x" by (simp add: le)
  show "x \<le> z" if "x \<le> y" "y \<le> z" using that by (auto simp: le)
  show "x = y" if "x \<le> y" "y \<le> x" using that by (auto simp: le)
  show "x \<le> y \<or> y \<le> x" by (simp add: le linear)
qed

end

section \<open>Injectivity of the printed identities\<close>

lemma digits_split:
  assumes "list_all is_digit xs" "list_all is_digit xs'" "\<not> is_digit c" 
    and "xs @ c # ys = xs' @ c # ys'"
  shows "xs = xs' \<and> ys = ys'"
proof -
  have "takeWhile is_digit (xs @ c # ys) = xs" "takeWhile is_digit (xs' @ c # ys') = xs'"
    using assms(1-3) by (simp_all add: takeWhile_append list_all_iff)
  with assms(4) have "xs = xs'" by simp
  with assms(4) show ?thesis by simp
qed

lemma slash_not_digit: "\<not> is_digit CHR ''/''"
  by (simp add: is_digit_def)

lemma format_uint_slash:
  "format_uint m @ CHR ''/'' # ys = format_uint m' @ CHR ''/'' # ys' \<longleftrightarrow> m = m' \<and> ys = ys'"
  using digits_split [OF format_uint_digits format_uint_digits slash_not_digit, of m ys m' ys']
  by auto

lemma GenUnit_String_inject [simp]: "GenUnit_String a = GenUnit_String b \<longleftrightarrow> a = b"
  by (cases a; cases b) (simp add: GenUnit_String_def format_uint_slash word_unat_eq_iff)

lemma ReplicaUnit_String_inject [simp]: "ReplicaUnit_String a = ReplicaUnit_String b \<longleftrightarrow> a = b"
  by (cases a; cases b; cases "ru_Unit a"; cases "ru_Unit b")
    (simp add: ReplicaUnit_String_def GenUnit_String_def format_uint_slash word_unat_eq_iff)

lemma MountRef_String_inject:
  "mount_ref_ok a \<Longrightarrow> mount_ref_ok b \<Longrightarrow> MountRef_String a = MountRef_String b \<Longrightarrow> a = b"
  by (intro MountRef.expand)
    (auto simp: MountRef_String_def mount_ref_ok_def mr_Replica_def split: if_splits intro: ReplicaUnit.expand)

section \<open>Properties\<close>

lemma Halve_exp: "k < 30 \<Longrightarrow> Halve (UnitCount (2 ^ Suc k)) = Inr (UnitCount (2 ^ k))"
proof -
  assume k: "k < 30"
  have u: "uint (2 ^ Suc k :: u32) = 2 ^ Suc k" using k by (intro uint_exp) simp
  have "\<not> (2::int) ^ Suc k \<le> 1" unfolding not_le by (rule one_less_power) simp_all
  moreover have "(2::int) ^ Suc k div 2 = 2 ^ k" by simp
  ultimately show ?thesis
    using k NewUnitCount_exp [of k]
    by (simp only: Halve_def UnitCount.sel u MinUnitCount_def if_False less_imp_le)
qed

lemma Halve_Inr_iff:
  assumes "unit_count_ok c"
  shows "Halve c = Inr c' \<longleftrightarrow> (\<exists>k<30. c = UnitCount (2 ^ Suc k) \<and> c' = UnitCount (2 ^ k))"
proof
  assume h: "Halve c = Inr c'"
  obtain k where k: "k \<le> 30" "c = UnitCount (2 ^ k)" using assms by (rule unit_count_ok_expE)
  with h have "k \<noteq> 0" by (cases k) (simp_all add: Halve_def MinUnitCount_def)
  then obtain j where j: "k = Suc j" using not0_implies_Suc by blast
  with k have "j < 30" by simp
  with h k j have "c' = UnitCount (2 ^ j)" using Halve_exp [of j] by simp
  with \<open>j < 30\<close> k j show "\<exists>k<30. c = UnitCount (2 ^ Suc k) \<and> c' = UnitCount (2 ^ k)" by blast
qed (auto simp: Halve_exp simp del: power_Suc)

lemma Double_Inl_iff: "unit_count_ok c \<Longrightarrow> (\<exists>x. Double c = Inl x) \<longleftrightarrow> uc_n c = 2 ^ 30"
proof -
  assume ok: "unit_count_ok c"
  then obtain k where k: "k \<le> 30" "c = UnitCount (2 ^ k)" by (rule unit_count_ok_expE)
  show ?thesis
  proof (cases "k = 30")
    case False
    then have "k < 30" using k by simp
    then have "(2::nat) ^ k < 2 ^ 30" by (rule power_strict_increasing) simp
    moreover have "unat (2 ^ k :: u32) = 2 ^ k" "unat (2 ^ 30 :: u32) = 2 ^ 30"
      using \<open>k < 30\<close> by (intro unat_exp; simp)+
    ultimately have "(2 ^ k :: u32) \<noteq> 2 ^ 30"
      by (metis nat_less_le)
    with k \<open>k < 30\<close> show ?thesis by (simp add: Double_exp del: power_Suc)
  qed (use k Double_max in auto)
qed

lemma Halve_Inl_iff: "unit_count_ok c \<Longrightarrow> (\<exists>x. Halve c = Inl x) \<longleftrightarrow> uc_n c = 1"
proof -
  assume ok: "unit_count_ok c"
  then obtain k where k: "k \<le> 30" "c = UnitCount (2 ^ k)" by (rule unit_count_ok_expE)
  show ?thesis
  proof (cases k)
    case 0
    with k show ?thesis by (simp add: Halve_def MinUnitCount_def)
  next
    case (Suc j)
    have "unat (2 ^ k :: u32) = 2 ^ k" using k by (intro unat_exp) simp
    moreover have "(2::nat) ^ k \<noteq> 1" using Suc by simp
    ultimately have "(2 ^ k :: u32) \<noteq> 1" by (metis unsigned_1)
    with k Suc show ?thesis by (simp add: Halve_exp del: power_Suc)
  qed
qed

text \<open>The unit counts are exactly the powers of two from 1 to 2^30. On them \<^verbatim>\<open>Double\<close> and
  \<^verbatim>\<open>Halve\<close> are inverse to each other and stay among the admitted counts; a doubling is refused
  only at 2^30 and a halving only at 1.\<close>

theorem unit_count_double_halve:
  "(NewUnitCount n = Inr d \<longleftrightarrow> (\<exists>k\<le>30. n = 2 ^ k \<and> d = UnitCount (2 ^ k))) \<and>
   (unit_count_ok c \<longrightarrow> unit_count_ok c' \<longrightarrow> (Double c = Inr c' \<longleftrightarrow> Halve c' = Inr c)) \<and>
   (unit_count_ok c \<longrightarrow> Double c = Inr e \<or> Halve c = Inr e \<longrightarrow> unit_count_ok e) \<and>
   (unit_count_ok c \<longrightarrow> ((\<exists>x. Double c = Inl x) \<longleftrightarrow> uc_n c = 2 ^ 30)) \<and>
   (unit_count_ok c \<longrightarrow> ((\<exists>x. Halve c = Inl x) \<longleftrightarrow> uc_n c = 1))"
proof (intro conjI impI)
  show "NewUnitCount n = Inr d \<longleftrightarrow> (\<exists>k\<le>30. n = 2 ^ k \<and> d = UnitCount (2 ^ k))"
    by (rule NewUnitCount_iff)
  assume ok: "unit_count_ok c"
  then obtain k where k: "k \<le> 30" "c = UnitCount (2 ^ k)" by (rule unit_count_ok_expE)
  show "Double c = Inr c' \<longleftrightarrow> Halve c' = Inr c" if "unit_count_ok c'"
    using that ok by (auto simp: Double_Inr_iff Halve_Inr_iff simp del: power_Suc)
  show "unit_count_ok e" if "Double c = Inr e \<or> Halve c = Inr e"
    using that ok by (auto simp: Double_Inr_iff Halve_Inr_iff unit_count_ok_def simp del: power_Suc
        intro: Suc_leI less_imp_le)
  show "(\<exists>x. Double c = Inl x) \<longleftrightarrow> uc_n c = 2 ^ 30"
    by (rule Double_Inl_iff [OF ok])
  show "(\<exists>x. Halve c = Inl x) \<longleftrightarrow> uc_n c = 1"
    by (rule Halve_Inl_iff [OF ok])
qed

text \<open>C24: A doubling splits every unit locally and without copying across units. Unit \<open>k\<close> of \<open>c\<close>
  has two distinct children, both with parent \<open>k\<close>; a hash belongs to \<open>k\<close> under \<open>c\<close> exactly when
  it belongs to one of those children under the doubled count, and the bit test of
  \<^verbatim>\<open>ChildUnit\<close> picks the same child as the direct map of the doubled count.\<close>

theorem unit_split_is_local:
  assumes "unit_count_ok c" and "Double c = Inr c2" and "Contains c k"
  shows "\<exists>lo hi. ChildUnits k c = Inr (lo, hi) \<and> lo \<noteq> hi \<and>
    ParentUnit lo c2 = Inr k \<and> ParentUnit hi c2 = Inr k \<and>
    (\<forall>h. (UnitForHash h c = k \<longleftrightarrow> UnitForHash h c2 = lo \<or> UnitForHash h c2 = hi) \<and>
         ChildUnit h c = Inr (UnitForHash h c2))"
proof -
  have ch: "ChildUnits k c = Inr (k, k + uc_n c)"
    using assms(2,3) by (simp add: ChildUnits_def)
  from ChildUnits_bisect [OF assms(1) ch assms(2)] ChildUnit_direct [OF assms(1,2)] ch
  show ?thesis by blast
qed

theorem unit_split_is_local_witness:
  "\<exists>lo hi. ChildUnits 3 (UnitCount 4) = Inr (lo, hi) \<and> ParentUnit hi (UnitCount 8) = Inr 3"
proof -
  have "unit_count_ok (UnitCount 4)"
    unfolding unit_count_ok_def by (rule exI [of _ 2]) simp
  moreover have "Double (UnitCount 4) = Inr (UnitCount 8)"
    using Double_exp [of 2] by simp
  moreover have "Contains (UnitCount 4) 3"
    by (simp add: Contains_def)
  ultimately show ?thesis
    using unit_split_is_local by blast
qed

text \<open>A node's owned replicas are exactly its positions in the units' replica sets: an entry
  \<open>(u, p)\<close> is listed iff \<open>u\<close> is a unit of the count and \<open>p\<close> is the first position of the node in
  the replica set of \<open>u\<close>. The list is strictly ascending in the unit, so no unit is listed twice.
  (Replica positions are bytes: the sets have at most 256 members.)\<close>

theorem owned_replicas_exact:
  assumes "\<And>u. length (R u) \<le> 256"
  shows "(OwnedReplica u p \<in> set (OwnedReplicaUnits self c (Some R)) \<longleftrightarrow>
      Contains c u \<and> unat p < length (R u) \<and> R u ! unat p = self \<and> (\<forall>j<unat p. R u ! j \<noteq> self)) \<and>
    sorted_wrt (<) (map or_Unit (OwnedReplicaUnits self c (Some R)))"
  by (intro conjI OwnedReplicaUnits_sorted OwnedReplicaUnits_exact assms)

text \<open>\<^verbatim>\<open>CompareMountRefs\<close> is a total order on mount refs (antisymmetric, transitive, zero only
  on equal refs), and the printed form of a ref identifies it: two refs built by the constructors
  print alike only when they are the same ref.\<close>

theorem mount_ref_order_and_identity:
  "CompareMountRefs a b = - CompareMountRefs b a \<and>
   (CompareMountRefs a b = 0 \<longleftrightarrow> a = b) \<and>
   (CompareMountRefs a b \<le> 0 \<longrightarrow> CompareMountRefs b c \<le> 0 \<longrightarrow> CompareMountRefs a c \<le> 0) \<and>
   (mount_ref_ok a \<longrightarrow> mount_ref_ok b \<longrightarrow> MountRef_String a = MountRef_String b \<longrightarrow> a = b)"
proof (intro conjI impI)
  show "CompareMountRefs a b = - CompareMountRefs b a"
    by (auto simp: CompareMountRefs_key)
  show "CompareMountRefs a b = 0 \<longleftrightarrow> a = b"
    using mr_key_inject [of a b] by (auto simp: CompareMountRefs_key)
  show "CompareMountRefs a c \<le> 0" if "CompareMountRefs a b \<le> 0" "CompareMountRefs b c \<le> 0"
    using that by (auto simp: CompareMountRefs_key split: if_splits)
  show "a = b" if "mount_ref_ok a" "mount_ref_ok b" "MountRef_String a = MountRef_String b"
    using that by (rule MountRef_String_inject)
qed

end
