(* ===== verification/Handoff.thy ===== *)
theory Handoff
  imports Units
begin

text \<open>
  The pure ownership-transition state machine of one replica position
  (\<^verbatim>\<open>src/pkg/storageunit/handoff.go\<close>): the four in-flight phases, the three legal edges and the
  release predicate. The steady states have no phase: the zero value of \<^verbatim>\<open>HandoffPhase\<close>, which the
  enum reserves, is \<open>PhaseZero\<close> here.
\<close>

type_synonym Epoch = u64

datatype HandoffPhase = PhaseZero | PhaseAcquiring | PhaseReady | PhaseDraining | PhaseReleasing

definition HandoffPhase_String :: "HandoffPhase \<Rightarrow> string" where
  "HandoffPhase_String p =
     (case p of PhaseAcquiring \<Rightarrow> ''Acquiring'' | PhaseReady \<Rightarrow> ''Ready''
      | PhaseDraining \<Rightarrow> ''Draining'' | PhaseReleasing \<Rightarrow> ''Releasing''
      | PhaseZero \<Rightarrow> ''HandoffPhase(0)'')"

definition IsGainer :: "HandoffPhase \<Rightarrow> bool" where
  "IsGainer p \<longleftrightarrow> p = PhaseAcquiring \<or> p = PhaseReady"

definition IsLoser :: "HandoffPhase \<Rightarrow> bool" where
  "IsLoser p \<longleftrightarrow> p = PhaseDraining \<or> p = PhaseReleasing"

datatype HandoffState = HandoffState (hs_Phase: HandoffPhase) (hs_OpenEpoch: Epoch)

text \<open>\<^verbatim>\<open>errIllegalEdge\<close>: the edge attempted and the phase it was attempted from. The Go functions
  return the unchanged \<^verbatim>\<open>from\<close> beside the error; no caller reads it.\<close>

datatype handoff_error = IllegalEdge string HandoffPhase

definition NextOnReady :: "HandoffState \<Rightarrow> Epoch \<Rightarrow> handoff_error + HandoffState" where
  "NextOnReady from openEpoch =
     (if hs_Phase from \<noteq> PhaseAcquiring
      then Inl (IllegalEdge ''OnReady (Acquiring->Ready)'' (hs_Phase from))
      else Inr (HandoffState PhaseReady openEpoch))"

definition NextOnDrain :: "HandoffState \<Rightarrow> handoff_error + HandoffState" where
  "NextOnDrain from =
     (if hs_Phase from \<noteq> PhaseZero
      then Inl (IllegalEdge ''OnDrain (Owned->Draining)'' (hs_Phase from))
      else Inr (HandoffState PhaseDraining 0))"

definition NextOnRelease :: "HandoffState \<Rightarrow> handoff_error + HandoffState" where
  "NextOnRelease from =
     (if hs_Phase from \<noteq> PhaseDraining
      then Inl (IllegalEdge ''OnRelease (Draining->Releasing)'' (hs_Phase from))
      else Inr (HandoffState PhaseReleasing (hs_OpenEpoch from)))"

definition Releasable :: "HandoffState \<Rightarrow> bool \<Rightarrow> bool" where
  "Releasable s ready \<longleftrightarrow> hs_Phase s = PhaseDraining \<and> ready"

section \<open>The edges as a step relation\<close>

text \<open>One legal edge, taken by any of the three operations.\<close>

inductive handoff_edge :: "HandoffState \<Rightarrow> HandoffState \<Rightarrow> bool" where
  on_ready: "NextOnReady s e = Inr t \<Longrightarrow> handoff_edge s t"
| on_drain: "NextOnDrain s = Inr t \<Longrightarrow> handoff_edge s t"
| on_release: "NextOnRelease s = Inr t \<Longrightarrow> handoff_edge s t"

inductive_cases handoff_edgeE: "handoff_edge s t"

text \<open>How many edges a position has left.\<close>

definition edges_left :: "HandoffState \<Rightarrow> nat" where
  "edges_left s =
     (case hs_Phase s of PhaseZero \<Rightarrow> 2 | PhaseAcquiring \<Rightarrow> 1 | PhaseReady \<Rightarrow> 0
      | PhaseDraining \<Rightarrow> 1 | PhaseReleasing \<Rightarrow> 0)"

lemmas next_defs = NextOnReady_def NextOnDrain_def NextOnRelease_def

lemma handoff_edge_cases:
  "handoff_edge s t \<Longrightarrow>
     hs_Phase s = PhaseAcquiring \<and> hs_Phase t = PhaseReady \<or>
     hs_Phase s = PhaseZero \<and> hs_Phase t = PhaseDraining \<or>
     hs_Phase s = PhaseDraining \<and> hs_Phase t = PhaseReleasing \<and> hs_OpenEpoch t = hs_OpenEpoch s"
  by (erule handoff_edgeE) (auto simp: next_defs split: if_splits)

lemma handoff_edge_decreases: "handoff_edge s t \<Longrightarrow> edges_left t < edges_left s"
  by (drule handoff_edge_cases) (auto simp: edges_left_def)

lemma handoff_run_cases:
  "handoff_edge\<^sup>*\<^sup>* s t \<Longrightarrow>
     s = t \<or> IsGainer (hs_Phase s) \<and> hs_Phase t = PhaseReady \<or>
     hs_Phase s \<in> {PhaseZero, PhaseDraining} \<and> IsLoser (hs_Phase t)"
  by (induction rule: rtranclp_induct)
    (auto dest!: handoff_edge_cases simp: IsGainer_def IsLoser_def)

text \<open>The two sides of a hand-off never mix and every run of the machine ends. Starting on the
  gainer side a position only ever becomes Ready; starting from steady ownership or on the loser
  side it only ever becomes Draining or Releasing; and every edge strictly lowers the number of
  edges left, so no phase is entered twice. A position is releasable exactly in Draining with the
  readiness proof, which is exactly when the Releasing edge is legal.\<close>

theorem handoff_sides_and_progress:
  "(handoff_edge\<^sup>*\<^sup>* s t \<longrightarrow> s \<noteq> t \<longrightarrow>
      (if IsGainer (hs_Phase s) then hs_Phase t = PhaseReady else IsLoser (hs_Phase t))) \<and>
   (handoff_edge s u \<longrightarrow> edges_left u < edges_left s) \<and>
   (Releasable s ready \<longleftrightarrow> ready \<and> (\<exists>v. NextOnRelease s = Inr v \<and> hs_OpenEpoch v = hs_OpenEpoch s))"
  using handoff_run_cases [of s t] handoff_edge_decreases [of s u]
  by (auto simp: IsGainer_def IsLoser_def Releasable_def NextOnRelease_def)

end
