(* ===== verification/Mount_Table.thy ===== *)
theory Mount_Table
  imports Handoff "HOL-Library.Multiset" "HOL-Library.Product_Lexorder"
begin

text \<open>
  The mount table of a node (\<^verbatim>\<open>src/pkg/cluster/mounttable.go\<close>): which replica positions are open here,
  at which epoch, in which hand-off phase. Every method takes the table's private mutex for its whole
  body, so every method is one definition on the record. The I/O the two serving transitions start
  after the unlock (publish the serving marker, start the tombstone purge, notify the application) is
  returned as a list of effects for the caller to run.

  Go maps are association lists with distinct keys; \<open>iter\<close> is the arbitrary order in which the runtime
  ranges over a map. A \<^verbatim>\<open>sync.Map\<close> that is only loaded, stored and deleted is a HOL map.
\<close>

section \<open>Orders and sorting (multibackend.go)\<close>

definition genUnitLess :: "GenUnit \<Rightarrow> GenUnit \<Rightarrow> bool" where
  "genUnitLess a b = (if gu_Gen a \<noteq> gu_Gen b then gu_Gen a < gu_Gen b else gu_ID a < gu_ID b)"

definition replicaUnitLess :: "ReplicaUnit \<Rightarrow> ReplicaUnit \<Rightarrow> bool" where
  "replicaUnitLess a b =
     (if ru_Unit a \<noteq> ru_Unit b then genUnitLess (ru_Unit a) (ru_Unit b) else ru_Replica a < ru_Replica b)"

text \<open>The inner loop of the insertion sorts, from index \<open>j\<close> down.\<close>

fun sift :: "('a \<Rightarrow> 'a \<Rightarrow> bool) \<Rightarrow> nat \<Rightarrow> 'a list \<Rightarrow> 'a list" where
  "sift lt 0 r = r"
| "sift lt (Suc j) r =
     (if lt (r ! Suc j) (r ! j) then sift lt j (r[j := r ! Suc j, Suc j := r ! j]) else r)"

definition sortGenUnits :: "GenUnit list \<Rightarrow> GenUnit list" where
  "sortGenUnits g = fold (sift genUnitLess) [1..<length g] g"

definition sortReplicaUnits :: "ReplicaUnit list \<Rightarrow> ReplicaUnit list" where
  "sortReplicaUnits r = fold (sift replicaUnitLess) [1..<length r] r"

definition replica0 :: "GenUnit \<Rightarrow> ReplicaUnit" where
  "replica0 gu = NewReplicaUnit gu 0"

section \<open>The table\<close>

text \<open>A \<^verbatim>\<open>backend.Backend\<close> interface value as the table holds it: nil, a backend as a factory returned it, or
  that backend inside the fence-self-healing decorator of its position. The parameter \<open>'b\<close> is the
  identity of an opened backend, so that equality of handles is the pointer equality of the source.\<close>

datatype 'b handle = NilBackend | Raw 'b | Healing ReplicaUnit 'b

definition newFencedSelfHealing :: "ReplicaUnit \<Rightarrow> 'b handle \<Rightarrow> 'b handle" where
  "newFencedSelfHealing ru inner =
     (case inner of NilBackend \<Rightarrow> NilBackend | Healing _ _ \<Rightarrow> inner | Raw b \<Rightarrow> Healing ru b)"

datatype effect = Publish ReplicaUnit Epoch string | Purge ReplicaUnit | NotifyMounted ReplicaUnit

record 'b mountTable =
  mt_mounts :: "(ReplicaUnit \<times> 'b handle) list"
  mt_phases :: "(ReplicaUnit \<times> HandoffState) list"
  mt_inFlight :: "ReplicaUnit list"
  mt_openSem :: "(nat \<times> nat) option"
  mt_openEpochs :: "ReplicaUnit \<rightharpoonup> Epoch"
  mt_acquireErr :: "ReplicaUnit \<rightharpoonup> string"
  mt_permits :: "(ReplicaUnit \<times> int) list"
  mt_wrap :: bool
  mt_publish :: bool
  mt_purge :: bool
  mt_notifyMounted :: bool
  mt_closed :: bool

text \<open>\<^verbatim>\<open>init\<close>, with the callbacks of a cluster, whose \<^verbatim>\<open>OnUnitMounted\<close> is set or not; and the zero value.\<close>

definition table_zero :: "'b mountTable" where
  "table_zero = \<lparr>mt_mounts = [], mt_phases = [], mt_inFlight = [], mt_openSem = None, mt_openEpochs = Map.empty,
     mt_acquireErr = Map.empty, mt_permits = [], mt_wrap = False, mt_publish = False, mt_purge = False,
     mt_notifyMounted = False, mt_closed = False\<rparr>"

definition table_init :: "'b mountTable \<Rightarrow> 'b mountTable" where
  "table_init t = t\<lparr>mt_mounts := [], mt_phases := [], mt_inFlight := [], mt_wrap := True, mt_publish := True,
     mt_purge := True, mt_notifyMounted := True\<rparr>"

definition publishServing :: "ReplicaUnit \<Rightarrow> Epoch \<Rightarrow> string \<Rightarrow> 'b mountTable \<Rightarrow> effect list" where
  "publishServing ru epoch site t = (if mt_publish t then [Publish ru epoch site] else [])"

definition decorate :: "ReplicaUnit \<Rightarrow> 'b handle \<Rightarrow> 'b mountTable \<Rightarrow> 'b handle" where
  "decorate ru b t = (if mt_wrap t then newFencedSelfHealing ru b else b)"

subsection \<open>Resolution\<close>

definition backendFor :: "ReplicaUnit \<Rightarrow> 'b mountTable \<Rightarrow> 'b handle option" where
  "backendFor ru t = map_of (mt_mounts t) ru"

definition lowest_step :: "GenUnit \<Rightarrow> ReplicaUnit \<Rightarrow> ReplicaUnit option \<Rightarrow> ReplicaUnit option" where
  "lowest_step gu cand got =
     (if ru_Unit cand \<noteq> gu then got
      else case got of
             None \<Rightarrow> Some cand
           | Some g \<Rightarrow> if ru_Replica cand < ru_Replica g then Some cand else got)"

definition lowestLocked ::
    "(ReplicaUnit list \<Rightarrow> ReplicaUnit list) \<Rightarrow> GenUnit \<Rightarrow> 'b mountTable \<Rightarrow> ReplicaUnit option" where
  "lowestLocked iter gu t = fold (lowest_step gu) (iter (map fst (mt_mounts t))) None"

definition lowestForUnit ::
    "(ReplicaUnit list \<Rightarrow> ReplicaUnit list) \<Rightarrow> GenUnit \<Rightarrow> 'b mountTable \<Rightarrow> ('b handle \<times> ReplicaUnit) option" where
  "lowestForUnit iter gu t =
     (case lowestLocked iter gu t of
        None \<Rightarrow> None
      | Some ru \<Rightarrow> map_option (\<lambda>b. (b, ru)) (backendFor ru t))"

definition backendForOrLowest ::
    "(ReplicaUnit list \<Rightarrow> ReplicaUnit list) \<Rightarrow> ReplicaUnit \<Rightarrow> 'b mountTable \<Rightarrow> ('b handle \<times> ReplicaUnit) option" where
  "backendForOrLowest iter ru t =
     (case backendFor ru t of
        Some b \<Rightarrow> Some (b, ru)
      | None \<Rightarrow> lowestForUnit iter (ru_Unit ru) t)"

definition anyForUnit ::
    "(ReplicaUnit list \<Rightarrow> ReplicaUnit list) \<Rightarrow> GenUnit \<Rightarrow> 'b mountTable \<Rightarrow> 'b handle option" where
  "anyForUnit iter gu t =
     (case filter (\<lambda>ru. ru_Unit ru = gu) (iter (map fst (mt_mounts t))) of
        [] \<Rightarrow> None
      | ru # _ \<Rightarrow> backendFor ru t)"

subsection \<open>Queries\<close>

definition allMounted :: "ReplicaUnit list \<Rightarrow> 'b mountTable \<Rightarrow> bool" where
  "allMounted rus t = list_all (\<lambda>ru. backendFor ru t \<noteq> None) rus"

definition mountedList :: "(ReplicaUnit list \<Rightarrow> ReplicaUnit list) \<Rightarrow> 'b mountTable \<Rightarrow> ReplicaUnit list" where
  "mountedList iter t = iter (map fst (mt_mounts t))"

definition mountedAtGen ::
    "(ReplicaUnit list \<Rightarrow> ReplicaUnit list) \<Rightarrow> Generation \<Rightarrow> 'b mountTable \<Rightarrow> ReplicaUnit list" where
  "mountedAtGen iter gen t = filter (\<lambda>ru. gu_Gen (ru_Unit ru) = gen) (iter (map fst (mt_mounts t)))"

definition mountedCount :: "'b mountTable \<Rightarrow> nat" where
  "mountedCount t = length (mt_mounts t)"

definition mountedPairs ::
    "(ReplicaUnit list \<Rightarrow> ReplicaUnit list) \<Rightarrow> 'b mountTable \<Rightarrow> (ReplicaUnit \<times> 'b handle) list" where
  "mountedPairs iter t =
     map (\<lambda>ru. (ru, the (backendFor ru t))) (sortReplicaUnits (iter (map fst (mt_mounts t))))"

subsection \<open>Phases\<close>

text \<open>\<^verbatim>\<open>phaseOf\<close>: the zero state when there is no entry.\<close>

definition zero_HandoffState :: HandoffState where
  "zero_HandoffState = HandoffState PhaseZero 0"

definition phaseOf :: "ReplicaUnit \<Rightarrow> 'b mountTable \<Rightarrow> HandoffState" where
  "phaseOf ru t = (case map_of (mt_phases t) ru of None \<Rightarrow> zero_HandoffState | Some st \<Rightarrow> st)"

definition hasLoserPhase :: "'b mountTable \<Rightarrow> bool" where
  "hasLoserPhase t = list_ex (\<lambda>(ru, st). IsLoser (hs_Phase st)) (mt_phases t)"

definition drainingPositions :: "(ReplicaUnit list \<Rightarrow> ReplicaUnit list) \<Rightarrow> 'b mountTable \<Rightarrow> ReplicaUnit list" where
  "drainingPositions iter t =
     filter (\<lambda>ru. hs_Phase (phaseOf ru t) = PhaseDraining) (iter (map fst (mt_phases t)))"

definition setPhase :: "ReplicaUnit \<Rightarrow> HandoffState \<Rightarrow> 'b mountTable \<Rightarrow> 'b mountTable" where
  "setPhase ru st t = t\<lparr>mt_phases := AList.update ru st (mt_phases t)\<rparr>"

definition dropPhase :: "ReplicaUnit \<Rightarrow> 'b mountTable \<Rightarrow> 'b mountTable" where
  "dropPhase ru t = t\<lparr>mt_phases := AList.delete ru (mt_phases t)\<rparr>"

definition armDrain :: "ReplicaUnit \<Rightarrow> Epoch \<Rightarrow> 'b mountTable \<Rightarrow> 'b handle option \<times> 'b mountTable" where
  "armDrain ru opn t =
     (case backendFor ru t of
        None \<Rightarrow> (None, t)
      | Some b \<Rightarrow>
          if hs_Phase (phaseOf ru t) \<noteq> PhaseZero then (None, t)
          else case NextOnDrain zero_HandoffState of
                 Inl _ \<Rightarrow> (None, t)
               | Inr nxt \<Rightarrow> (Some b, setPhase ru (HandoffState (hs_Phase nxt) opn) t))"

definition reclaimDrain :: "ReplicaUnit \<Rightarrow> 'b mountTable \<Rightarrow> 'b mountTable" where
  "reclaimDrain ru t =
     (if backendFor ru t = None then t
      else case map_of (mt_phases t) ru of
             None \<Rightarrow> t
           | Some cur \<Rightarrow> if IsLoser (hs_Phase cur) then dropPhase ru t else t)"

definition dropStuckGainerPhase :: "ReplicaUnit \<Rightarrow> 'b mountTable \<Rightarrow> bool \<times> 'b mountTable" where
  "dropStuckGainerPhase ru t =
     (if ru \<in> set (mt_inFlight t) then (False, t)
      else case map_of (mt_phases t) ru of
             None \<Rightarrow> (False, t)
           | Some st \<Rightarrow>
               if \<not> IsGainer (hs_Phase st) then (False, t)
               else if backendFor ru t = None then (False, t)
               else (True, dropPhase ru t))"

definition openEpochOf :: "ReplicaUnit \<Rightarrow> 'b mountTable \<Rightarrow> Epoch option" where
  "openEpochOf ru t = mt_openEpochs t ru"

definition serving_hooks :: "ReplicaUnit \<Rightarrow> 'b mountTable \<Rightarrow> effect list" where
  "serving_hooks ru t =
     (if mt_purge t then [Purge ru] else []) @ (if mt_notifyMounted t then [NotifyMounted ru] else [])"

definition finishStuckGainer :: "ReplicaUnit \<Rightarrow> 'b mountTable \<Rightarrow> bool \<times> effect list \<times> 'b mountTable" where
  "finishStuckGainer ru t =
     (case dropStuckGainerPhase ru t of
        (False, t) \<Rightarrow> (False, [], t)
      | (True, t) \<Rightarrow>
          (let epoch = (case openEpochOf ru t of None \<Rightarrow> 0 | Some e \<Rightarrow> e)
           in (True, publishServing ru epoch ''overlap-rearm'' t @ serving_hooks ru t, t)))"

definition clearOrphanedDrain :: "ReplicaUnit \<Rightarrow> 'b mountTable \<Rightarrow> bool \<times> 'b mountTable" where
  "clearOrphanedDrain ru t =
     (case map_of (mt_phases t) ru of
        None \<Rightarrow> (False, t)
      | Some cur \<Rightarrow>
          if hs_Phase cur \<noteq> PhaseDraining then (False, t)
          else if backendFor ru t \<noteq> None then (False, t)
          else (True, dropPhase ru t))"

subsection \<open>The serving transition\<close>

datatype mountOutcome = MountSuperseded | MountBlockedByDrain | MountedPhaseResolved | MountedReady

definition outcome_mounted :: "mountOutcome \<Rightarrow> bool" where
  "outcome_mounted out \<longleftrightarrow> out = MountedPhaseResolved \<or> out = MountedReady"

definition recordOpenEpoch :: "ReplicaUnit \<Rightarrow> Epoch \<Rightarrow> 'b mountTable \<Rightarrow> 'b mountTable" where
  "recordOpenEpoch ru e t = t\<lparr>mt_openEpochs := (mt_openEpochs t)(ru \<mapsto> e)\<rparr>"

definition forgetOpenEpoch :: "ReplicaUnit \<Rightarrow> 'b mountTable \<Rightarrow> 'b mountTable" where
  "forgetOpenEpoch ru t = t\<lparr>mt_openEpochs := (mt_openEpochs t)(ru := None)\<rparr>"

definition recordAcquireErr :: "ReplicaUnit \<Rightarrow> string \<Rightarrow> 'b mountTable \<Rightarrow> 'b mountTable" where
  "recordAcquireErr ru msg t = t\<lparr>mt_acquireErr := (mt_acquireErr t)(ru \<mapsto> msg)\<rparr>"

definition clearAcquireErr :: "ReplicaUnit \<Rightarrow> 'b mountTable \<Rightarrow> 'b mountTable" where
  "clearAcquireErr ru t = t\<lparr>mt_acquireErr := (mt_acquireErr t)(ru := None)\<rparr>"

definition acquireErrOf :: "ReplicaUnit \<Rightarrow> 'b mountTable \<Rightarrow> string option" where
  "acquireErrOf ru t = mt_acquireErr t ru"

definition mountLocked :: "ReplicaUnit \<Rightarrow> 'b handle \<Rightarrow> 'b mountTable \<Rightarrow> 'b mountTable" where
  "mountLocked ru b t =
     (let t = clearAcquireErr ru t in t\<lparr>mt_mounts := AList.update ru (decorate ru b t) (mt_mounts t)\<rparr>)"

definition installServing :: "ReplicaUnit \<Rightarrow> 'b handle \<Rightarrow> Epoch \<Rightarrow> 'b mountTable \<Rightarrow> mountOutcome \<times> 'b mountTable" where
  "installServing ru b opened t =
     (if mt_closed t then (MountSuperseded, t)
      else
        (let cur = phaseOf ru t
         in if IsLoser (hs_Phase cur) then (MountBlockedByDrain, t)
            else
              (let out = (if hs_Phase cur \<noteq> PhaseAcquiring then MountedPhaseResolved
                          else case NextOnReady cur opened of
                                 Inl _ \<Rightarrow> MountedPhaseResolved
                               | Inr _ \<Rightarrow> MountedReady)
               in (out, dropPhase ru (mountLocked ru b (recordOpenEpoch ru opened t))))))"

definition mountServing ::
    "ReplicaUnit \<Rightarrow> 'b handle \<Rightarrow> Epoch \<Rightarrow> string \<Rightarrow> 'b mountTable \<Rightarrow> mountOutcome \<times> effect list \<times> 'b mountTable" where
  "mountServing ru b opened site t =
     (case installServing ru b opened t of
        (out, t) \<Rightarrow>
          if \<not> outcome_mounted out then (out, [], t)
          else (out, publishServing ru opened site t @ serving_hooks ru t, t))"

definition releaseDrained :: "ReplicaUnit \<Rightarrow> 'b mountTable \<Rightarrow> 'b handle option \<times> 'b mountTable" where
  "releaseDrained ru t =
     (case map_of (mt_phases t) ru of
        None \<Rightarrow> (None, t)
      | Some cur \<Rightarrow>
          if hs_Phase cur \<noteq> PhaseDraining then (None, t)
          else case backendFor ru t of
                 None \<Rightarrow> (None, dropPhase ru t)
               | Some b \<Rightarrow>
                   if b = NilBackend then (None, dropPhase ru t)
                   else case NextOnRelease cur of
                          Inl _ \<Rightarrow> (None, t)
                        | Inr _ \<Rightarrow>
                            (Some b, dropPhase ru (forgetOpenEpoch ru
                               (t\<lparr>mt_mounts := AList.delete ru (mt_mounts t)\<rparr>))))"

subsection \<open>Acquires in flight, and the other mutations\<close>

definition startAcquire :: "ReplicaUnit \<Rightarrow> 'b mountTable \<Rightarrow> bool \<times> 'b mountTable" where
  "startAcquire ru t =
     (if mt_closed t then (False, t)
      else if ru \<in> set (mt_inFlight t) then (False, t)
      else (True, t\<lparr>mt_inFlight := ru # mt_inFlight t\<rparr>))"

definition finishAcquire :: "ReplicaUnit \<Rightarrow> 'b mountTable \<Rightarrow> 'b mountTable" where
  "finishAcquire ru t = t\<lparr>mt_inFlight := removeAll ru (mt_inFlight t)\<rparr>"

definition acquireInFlight :: "ReplicaUnit \<Rightarrow> 'b mountTable \<Rightarrow> bool" where
  "acquireInFlight ru t \<longleftrightarrow> ru \<in> set (mt_inFlight t)"

definition table_mount :: "ReplicaUnit \<Rightarrow> 'b handle \<Rightarrow> 'b mountTable \<Rightarrow> 'b mountTable" where
  "table_mount ru b t = mountLocked ru b t"

definition mountPair ::
    "ReplicaUnit \<Rightarrow> 'b handle \<Rightarrow> ReplicaUnit \<Rightarrow> 'b handle \<Rightarrow> 'b mountTable \<Rightarrow> 'b mountTable" where
  "mountPair ruA bA ruB bB t = mountLocked ruB bB (mountLocked ruA bA t)"

definition mountUnlessClosed :: "ReplicaUnit \<Rightarrow> 'b handle \<Rightarrow> 'b mountTable \<Rightarrow> bool \<times> 'b mountTable" where
  "mountUnlessClosed ru b t = (if mt_closed t then (False, t) else (True, mountLocked ru b t))"

definition unmount :: "ReplicaUnit \<Rightarrow> 'b mountTable \<Rightarrow> 'b mountTable" where
  "unmount ru t = t\<lparr>mt_mounts := AList.delete ru (mt_mounts t)\<rparr>"

definition evictIfSame :: "ReplicaUnit \<Rightarrow> 'b handle \<Rightarrow> 'b mountTable \<Rightarrow> bool \<times> 'b mountTable" where
  "evictIfSame ru failed t =
     (if (case map_of (mt_phases t) ru of None \<Rightarrow> False | Some st \<Rightarrow> IsLoser (hs_Phase st)) then (False, t)
      else if backendFor ru t = Some failed then (True, forgetOpenEpoch ru (unmount ru t))
      else (False, t))"

definition takeAll :: "(ReplicaUnit list \<Rightarrow> ReplicaUnit list) \<Rightarrow> 'b mountTable \<Rightarrow> ReplicaUnit list \<times> 'b mountTable" where
  "takeAll iter t = (iter (map fst (mt_mounts t)), t\<lparr>mt_mounts := []\<rparr>)"

subsection \<open>Open permits\<close>

text \<open>\<^verbatim>\<open>openPermit\<close>: the gate is created on first use. \<open>None\<close> is a caller that blocks on the full channel; the
  release function takes one element back out.\<close>

definition openPermit :: "nat \<Rightarrow> 'b mountTable \<Rightarrow> 'b mountTable option" where
  "openPermit sz t =
     (let (cap, taken) = (case mt_openSem t of None \<Rightarrow> (sz, 0) | Some s \<Rightarrow> s)
      in if taken < cap then Some (t\<lparr>mt_openSem := Some (cap, taken + 1)\<rparr>) else None)"

definition releasePermit :: "'b mountTable \<Rightarrow> 'b mountTable option" where
  "releasePermit t =
     (case mt_openSem t of
        Some (cap, Suc taken) \<Rightarrow> Some (t\<lparr>mt_openSem := Some (cap, taken)\<rparr>)
      | _ \<Rightarrow> None)"

definition holdPermit :: "ReplicaUnit \<Rightarrow> int \<Rightarrow> 'b mountTable \<Rightarrow> 'b mountTable" where
  "holdPermit ru now t = t\<lparr>mt_permits := AList.update ru now (mt_permits t)\<rparr>"

definition dropPermit :: "ReplicaUnit \<Rightarrow> 'b mountTable \<Rightarrow> 'b mountTable" where
  "dropPermit ru t = t\<lparr>mt_permits := AList.delete ru (mt_permits t)\<rparr>"

definition permitSummary :: "'b mountTable \<Rightarrow> nat \<times> (ReplicaUnit \<times> int) option" where
  "permitSummary t =
     fold (\<lambda>(ru, ts) (holders, oldest).
             (holders + 1,
              case oldest of
                None \<Rightarrow> Some (ru, ts)
              | Some (_, since) \<Rightarrow> if ts < since then Some (ru, ts) else oldest))
       (mt_permits t) (0, None)"

subsection \<open>Reporting\<close>

record mountCounts =
  mc_Mounted :: nat
  mc_Pending :: nat
  mc_Failed :: nat
  mc_FirstError :: string

text \<open>One round of the loop of \<^verbatim>\<open>readiness\<close>; the second component is \<^verbatim>\<open>firstFailed\<close>.\<close>

definition readiness_one :: "'b mountTable \<Rightarrow> ReplicaUnit \<Rightarrow> mountCounts \<times> string \<Rightarrow> mountCounts \<times> string" where
  "readiness_one t ru s =
     (let (counts, firstFailed) = s
      in if backendFor ru t \<noteq> None then (counts\<lparr>mc_Mounted := mc_Mounted counts + 1\<rparr>, firstFailed)
         else
           (let counts = counts\<lparr>mc_Pending := mc_Pending counts + 1\<rparr>
            in case acquireErrOf ru t of
                 None \<Rightarrow> (counts, firstFailed)
               | Some msg \<Rightarrow>
                   (let counts = counts\<lparr>mc_Failed := mc_Failed counts + 1\<rparr>;
                        key = ReplicaUnit_String ru
                    in if firstFailed = [] \<or> key < firstFailed
                       then (counts\<lparr>mc_FirstError := msg\<rparr>, key)
                       else (counts, firstFailed))))"

definition readiness :: "ReplicaUnit list \<Rightarrow> 'b mountTable \<Rightarrow> mountCounts" where
  "readiness desired t =
     fst (fold (readiness_one t) desired (\<lparr>mc_Mounted = 0, mc_Pending = 0, mc_Failed = 0, mc_FirstError = []\<rparr>, []))"

definition queueStats :: "'b mountTable \<Rightarrow> nat \<times> nat \<times> nat" where
  "queueStats t =
     (length (mt_mounts t), length (filter (\<lambda>(ru, st). IsGainer (hs_Phase st)) (mt_phases t)), length (mt_inFlight t))"

section \<open>Sorting and resolution do not depend on the map order\<close>

definition ru_key :: "ReplicaUnit \<Rightarrow> u64 \<times> u32 \<times> u8" where
  "ru_key ru = (gu_Gen (ru_Unit ru), gu_ID (ru_Unit ru), ru_Replica ru)"

definition ins_by :: "('a \<Rightarrow> 'k::linorder) \<Rightarrow> 'a \<Rightarrow> 'a list \<Rightarrow> 'a list" where
  "ins_by f x xs = takeWhile (\<lambda>y. f y \<le> f x) xs @ x # dropWhile (\<lambda>y. f y \<le> f x) xs"

lemma sift_ins_by:
  "i < length r \<Longrightarrow> sorted (map f (take i r)) \<Longrightarrow>
     sift (\<lambda>a b. f a < f b) i r = ins_by f (r ! i) (take i r) @ drop (Suc i) r"
proof (induction i arbitrary: r)
  case 0
  then show ?case by (simp add: ins_by_def Cons_nth_drop_Suc)
next
  case (Suc j)
  have t: "take (Suc j) r = take j r @ [r ! j]" using Suc.prems by (simp add: take_Suc_conv_app_nth)
  have so: "sorted (map f (take j r))" and le: "\<forall>y\<in>set (take j r). f y \<le> f (r ! j)"
    using Suc.prems(2) by (auto simp: t sorted_append)
  show ?case
  proof (cases "f (r ! Suc j) < f (r ! j)")
    case True
    let ?r = "r[j := r ! Suc j, Suc j := r ! j]"
    have "drop (Suc j) ?r = r ! j # drop (Suc (Suc j)) r" and "take j ?r = take j r" and "?r ! j = r ! Suc j"
      using Suc.prems(1) by (simp_all add: drop_update_swap flip: Cons_nth_drop_Suc)
    moreover have "ins_by f x (ys @ [y]) = ins_by f x ys @ [y]" if "f x < f y" for x y ys
      using that by (induction ys) (auto simp: ins_by_def)
    ultimately show ?thesis using Suc.IH [of ?r] Suc.prems(1) so True by (simp add: t)
  next
    case False
    then have "\<forall>y\<in>set (take (Suc j) r). f y \<le> f (r ! Suc j)" using le by (auto simp: t intro: order_trans)
    then have "ins_by f (r ! Suc j) (take (Suc j) r) = take (Suc j) r @ [r ! Suc j]" by (simp add: ins_by_def)
    with False show ?thesis using Suc.prems(1) by (simp add: Cons_nth_drop_Suc)
  qed
qed

lemma ins_by_sorted: "sorted (map f xs) \<Longrightarrow> sorted (map f (ins_by f x xs))"
  by (induction xs) (auto simp: ins_by_def intro: order_trans dest: set_takeWhileD set_dropWhileD)

lemma ins_by_mset [simp]: "mset (ins_by f x xs) = add_mset x (mset xs)"
  by (simp add: ins_by_def) (metis mset_append takeWhile_dropWhile_id)

lemma insertion_sort_step:
  assumes "i < length r" "sorted (map f (take i r))"
  shows "mset (sift (\<lambda>a b. f a < f b) i r) = mset r \<and> length (sift (\<lambda>a b. f a < f b) i r) = length r \<and>
     sorted (map f (take (Suc i) (sift (\<lambda>a b. f a < f b) i r)))"
proof -
  have m: "mset (sift (\<lambda>a b. f a < f b) i r) = mset r"
    using assms by (subst (2) id_take_nth_drop [OF assms(1)]) (simp add: sift_ins_by)
  have "length (ins_by f (r ! i) (take i r)) = Suc i"
    using assms(1) mset_eq_length [of "ins_by f (r ! i) (take i r)" "r ! i # take i r"] by simp
  then have "sorted (map f (take (Suc i) (sift (\<lambda>a b. f a < f b) i r)))"
    using assms by (simp add: sift_ins_by ins_by_sorted)
  with m mset_eq_length [OF m] show ?thesis by simp
qed

lemma insertion_sort:
  "mset (fold (sift (\<lambda>a b. f a < f b)) [1..<length r] r) = mset r \<and>
   sorted (map f (fold (sift (\<lambda>a b. f a < f b)) [1..<length r] r))"
proof -
  have "mset (fold (sift (\<lambda>a b. f a < f b)) [1..<Suc n] r) = mset r \<and>
      length (fold (sift (\<lambda>a b. f a < f b)) [1..<Suc n] r) = length r \<and>
      sorted (map f (take (Suc n) (fold (sift (\<lambda>a b. f a < f b)) [1..<Suc n] r)))" if "n < length r" for n
    using that
  proof (induction n)
    case 0
    then show ?case by (cases r) auto
  next
    case (Suc n)
    then show ?case
      using insertion_sort_step [of "Suc n" "fold (sift (\<lambda>a b. f a < f b)) [1..<Suc n] r" f] by simp
  qed
  from this [of "length r - 1"] show ?thesis by (cases r) (auto simp: Suc_diff_le)
qed

lemma ru_key_inject [simp]: "ru_key a = ru_key b \<longleftrightarrow> a = b"
  by (auto simp: ru_key_def intro!: ReplicaUnit.expand GenUnit.expand)

lemma replicaUnitLess_key: "replicaUnitLess a b \<longleftrightarrow> ru_key a < ru_key b"
  by (cases a; cases b; cases "ru_Unit a"; cases "ru_Unit b") (auto simp: replicaUnitLess_def genUnitLess_def ru_key_def)

lemma sortReplicaUnits_sort: "mset (sortReplicaUnits r) = mset r \<and> sorted (map ru_key (sortReplicaUnits r))"
  unfolding sortReplicaUnits_def replicaUnitLess_key [abs_def] by (rule insertion_sort)

lemma sortReplicaUnits_cong: "mset r = mset r' \<Longrightarrow> sortReplicaUnits r = sortReplicaUnits r'"
proof -
  assume "mset r = mset r'"
  then have "mset (map ru_key (sortReplicaUnits r)) = mset (map ru_key (sortReplicaUnits r'))"
    using sortReplicaUnits_sort [of r] sortReplicaUnits_sort [of r'] by simp
  then have "map ru_key (sortReplicaUnits r) = map ru_key (sortReplicaUnits r')"
    using sortReplicaUnits_sort by (metis properties_for_sort)
  then show ?thesis by (simp add: inj_def list.inj_map_strong)
qed

definition ru_iter :: "(ReplicaUnit list \<Rightarrow> ReplicaUnit list) \<Rightarrow> bool" where
  "ru_iter iter \<longleftrightarrow> (\<forall>xs. mset (iter xs) = mset xs)"

lemma ru_iter_set: "ru_iter iter \<Longrightarrow> set (iter xs) = set xs"
  by (metis ru_iter_def set_mset_mset)

text \<open>\<open>ru\<close> is the position of unit \<open>gu\<close> with the lowest index among \<open>S\<close>.\<close>

definition lowest_of :: "GenUnit \<Rightarrow> ReplicaUnit set \<Rightarrow> ReplicaUnit \<Rightarrow> bool" where
  "lowest_of gu S ru \<longleftrightarrow> ru \<in> S \<and> ru_Unit ru = gu \<and> (\<forall>c\<in>S. ru_Unit c = gu \<longrightarrow> ru_Replica ru \<le> ru_Replica c)"

lemma lowest_of_unique: "lowest_of gu S a \<Longrightarrow> lowest_of gu S b \<Longrightarrow> a = b"
  by (auto simp: lowest_of_def intro!: ReplicaUnit.expand antisym)

lemma lowest_fold:
  assumes "\<forall>g. got = Some g \<longrightarrow> lowest_of gu S g" and "got = None \<longrightarrow> (\<forall>c\<in>S. ru_Unit c \<noteq> gu)"
  shows "case fold (lowest_step gu) xs got of
            None \<Rightarrow> \<forall>c\<in>S \<union> set xs. ru_Unit c \<noteq> gu
          | Some ru \<Rightarrow> lowest_of gu (S \<union> set xs) ru"
  using assms
proof (induction xs arbitrary: got S)
  case Nil
  then show ?case by (simp split: option.split)
next
  case (Cons x xs)
  have "\<forall>g. lowest_step gu x got = Some g \<longrightarrow> lowest_of gu (insert x S) g"
    using Cons.prems by (cases got) (auto simp: lowest_step_def lowest_of_def)
  moreover have "lowest_step gu x got = None \<longrightarrow> (\<forall>c\<in>insert x S. ru_Unit c \<noteq> gu)"
    using Cons.prems(2) by (cases got) (auto simp: lowest_step_def)
  moreover have "S \<union> set (x # xs) = insert x S \<union> set xs" by simp
  ultimately show ?case using Cons.IH [of "lowest_step gu x got" "insert x S"] by (simp only: fold_Cons o_apply)
qed

lemma lowestLocked_spec:
  assumes "ru_iter iter"
  shows "case lowestLocked iter gu t of
           None \<Rightarrow> \<forall>c\<in>fst ` set (mt_mounts t). ru_Unit c \<noteq> gu
         | Some ru \<Rightarrow> lowest_of gu (fst ` set (mt_mounts t)) ru"
  using lowest_fold [of None gu "{}" "iter (map fst (mt_mounts t))"]
  unfolding lowestLocked_def ru_iter_set [OF assms] set_map Un_empty_left by simp

lemma lowestLocked_cong:
  assumes "ru_iter i1" "ru_iter i2"
  shows "lowestLocked i1 gu t = lowestLocked i2 gu t"
  using lowestLocked_spec [OF assms(1), where gu = gu and t = t] lowestLocked_spec [OF assms(2), where gu = gu and t = t]
proof (cases "lowestLocked i1 gu t"; cases "lowestLocked i2 gu t")
  fix a b
  assume "lowestLocked i1 gu t = Some a" "lowestLocked i2 gu t = Some b"
    "case lowestLocked i1 gu t of None \<Rightarrow> \<forall>c\<in>fst ` set (mt_mounts t). ru_Unit c \<noteq> gu
       | Some ru \<Rightarrow> lowest_of gu (fst ` set (mt_mounts t)) ru"
    "case lowestLocked i2 gu t of None \<Rightarrow> \<forall>c\<in>fst ` set (mt_mounts t). ru_Unit c \<noteq> gu
       | Some ru \<Rightarrow> lowest_of gu (fst ` set (mt_mounts t)) ru"
  then show ?thesis by (simp add: lowest_of_unique)
qed (auto simp: lowest_of_def)

section \<open>Well-formedness and the steps of a node\<close>

text \<open>The type invariant of an initialised table: maps have distinct keys, every mounted handle is inside the
  decorator of its own position, and the only phases ever stored are Acquiring and Draining (Ready and
  Releasing are passed through inside one method).\<close>

definition table_ok :: "'b mountTable \<Rightarrow> bool" where
  "table_ok t \<longleftrightarrow> distinct (map fst (mt_mounts t)) \<and> distinct (map fst (mt_phases t)) \<and> distinct (mt_inFlight t) \<and>
     mt_wrap t \<and> mt_publish t \<and>
     (\<forall>ru h. backendFor ru t = Some h \<longrightarrow> (\<exists>b. h = Healing ru b)) \<and>
     (\<forall>ru st. map_of (mt_phases t) ru = Some st \<longrightarrow> hs_Phase st = PhaseAcquiring \<or> hs_Phase st = PhaseDraining)"

text \<open>What a step did: to a drain, and which I/O it started.\<close>

datatype table_event = Armed ReplicaUnit | Released ReplicaUnit | Reclaimed ReplicaUnit | Dropped ReplicaUnit | Effect effect

text \<open>The operations a node with the replica layout performs, each with the guard its callers establish under the
  reconcile mutex: \<^verbatim>\<open>beginAcquire\<close> is reached only for a position in no loser phase, and a clean-cut
  release only for one in no phase. A freshly opened backend is a raw handle.\<close>

inductive table_step :: "'b mountTable \<Rightarrow> table_event list \<Rightarrow> 'b mountTable \<Rightarrow> bool" where
  begin_acquire: "\<not> IsLoser (hs_Phase (phaseOf ru t)) \<Longrightarrow>
    table_step t [] (setPhase ru (HandoffState PhaseAcquiring 0) t)"
| arm: "armDrain ru e t = (r, t') \<Longrightarrow> table_step t (if r = None then [] else [Armed ru]) t'"
| reclaim: "reclaimDrain ru t = t' \<Longrightarrow>
    table_step t (if IsLoser (hs_Phase (phaseOf ru t)) \<and> \<not> IsLoser (hs_Phase (phaseOf ru t')) then [Reclaimed ru] else []) t'"
| finish_stuck: "finishStuckGainer ru t = (r, effs, t') \<Longrightarrow> table_step t (map Effect effs) t'"
| clear_orphan: "clearOrphanedDrain ru t = (r, t') \<Longrightarrow> table_step t (if r then [Dropped ru] else []) t'"
| serve: "mountServing ru (Raw b) e site t = (out, effs, t') \<Longrightarrow> table_step t (map Effect effs) t'"
| release: "releaseDrained ru t = (r, t') \<Longrightarrow>
    table_step t (if r \<noteq> None then [Released ru]
                  else if IsLoser (hs_Phase (phaseOf ru t)) \<and> \<not> IsLoser (hs_Phase (phaseOf ru t')) then [Dropped ru] else []) t'"
| start: "startAcquire ru t = (r, t') \<Longrightarrow> table_step t [] t'"
| finish: "table_step t [] (finishAcquire ru t)"
| clean_cut: "hs_Phase (phaseOf ru t) = PhaseZero \<Longrightarrow> table_step t [] (forgetOpenEpoch ru (unmount ru t))"
| evict: "evictIfSame ru h t = (r, t') \<Longrightarrow> table_step t [] t'"
| note_error: "table_step t [] (recordAcquireErr ru msg t)"
| clear_error: "table_step t [] (clearAcquireErr ru t)"
| shut: "table_step t [] (t\<lparr>mt_closed := True\<rparr>)"
| take_all: "mt_closed t \<Longrightarrow> takeAll iter t = (rus, t') \<Longrightarrow> table_step t [] t'"

inductive_cases table_stepE: "table_step t evs t'"

inductive table_run :: "'b mountTable \<Rightarrow> table_event list \<Rightarrow> 'b mountTable \<Rightarrow> bool" where
  run_nil: "table_run t [] t"
| run_snoc: "table_run t evs t' \<Longrightarrow> table_step t' evs' t'' \<Longrightarrow> table_run t (evs @ evs') t''"

section \<open>The primitive updates, field by field\<close>

definition phase_entry :: "ReplicaUnit \<Rightarrow> 'b mountTable \<Rightarrow> HandoffState option" where
  "phase_entry ru t = map_of (mt_phases t) ru"

lemma phaseOf_entry: "phaseOf ru t = (case phase_entry ru t of None \<Rightarrow> zero_HandoffState | Some st \<Rightarrow> st)"
  by (simp add: phaseOf_def phase_entry_def)

lemma map_of_phases: "map_of (mt_phases t) ru = phase_entry ru t"
  by (simp add: phase_entry_def)

lemma table_views [simp]:
  "backendFor ru (setPhase r st t) = backendFor ru t"
  "backendFor ru (dropPhase r t) = backendFor ru t"
  "backendFor ru (recordOpenEpoch r e t) = backendFor ru t"
  "backendFor ru (forgetOpenEpoch r t) = backendFor ru t"
  "backendFor ru (clearAcquireErr r t) = backendFor ru t"
  "backendFor ru (recordAcquireErr r msg t) = backendFor ru t"
  "backendFor ru (mountLocked r b t) = (if ru = r then Some (decorate r b t) else backendFor ru t)"
  "backendFor ru (unmount r t) = (if ru = r then None else backendFor ru t)"
  "backendFor ru (finishAcquire r t) = backendFor ru t"
  "phase_entry ru (setPhase r st t) = (if ru = r then Some st else phase_entry ru t)"
  "phase_entry ru (dropPhase r t) = (if ru = r then None else phase_entry ru t)"
  "phase_entry ru (recordOpenEpoch r e t) = phase_entry ru t"
  "phase_entry ru (forgetOpenEpoch r t) = phase_entry ru t"
  "phase_entry ru (clearAcquireErr r t) = phase_entry ru t"
  "phase_entry ru (recordAcquireErr r msg t) = phase_entry ru t"
  "phase_entry ru (mountLocked r b t) = phase_entry ru t"
  "phase_entry ru (unmount r t) = phase_entry ru t"
  "phase_entry ru (finishAcquire r t) = phase_entry ru t"
  "decorate r b (recordOpenEpoch r' e t) = decorate r b t"
  by (auto simp: backendFor_def phase_entry_def setPhase_def dropPhase_def recordOpenEpoch_def forgetOpenEpoch_def
      clearAcquireErr_def recordAcquireErr_def mountLocked_def unmount_def finishAcquire_def decorate_def
      update_conv' delete_conv' Let_def)

lemma epoch_views [simp]:
  "mt_openEpochs (setPhase r st t) = mt_openEpochs t"
  "mt_openEpochs (dropPhase r t) = mt_openEpochs t"
  "mt_openEpochs (recordOpenEpoch r e t) = (mt_openEpochs t)(r \<mapsto> e)"
  "mt_openEpochs (forgetOpenEpoch r t) = (mt_openEpochs t)(r := None)"
  "mt_openEpochs (clearAcquireErr r t) = mt_openEpochs t"
  "mt_openEpochs (recordAcquireErr r msg t) = mt_openEpochs t"
  "mt_openEpochs (mountLocked r b t) = mt_openEpochs t"
  "mt_openEpochs (unmount r t) = mt_openEpochs t"
  "mt_openEpochs (finishAcquire r t) = mt_openEpochs t"
  by (simp_all add: setPhase_def dropPhase_def recordOpenEpoch_def forgetOpenEpoch_def clearAcquireErr_def
      recordAcquireErr_def mountLocked_def unmount_def finishAcquire_def Let_def)

lemma distinct_alist_update [simp]: "distinct (map fst xs) \<Longrightarrow> distinct (map fst (AList.update k v xs))"
  by (simp add: distinct_update)

lemma ok_updates [intro]:
  "table_ok t \<Longrightarrow> hs_Phase st = PhaseAcquiring \<or> hs_Phase st = PhaseDraining \<Longrightarrow> table_ok (setPhase ru st t)"
  "table_ok t \<Longrightarrow> table_ok (dropPhase ru t)"
  "table_ok t \<Longrightarrow> table_ok (recordOpenEpoch ru e t)"
  "table_ok t \<Longrightarrow> table_ok (forgetOpenEpoch ru t)"
  "table_ok t \<Longrightarrow> table_ok (clearAcquireErr ru t)"
  "table_ok t \<Longrightarrow> table_ok (recordAcquireErr ru msg t)"
  "table_ok t \<Longrightarrow> table_ok (mountLocked ru (Raw b) t)"
  "table_ok t \<Longrightarrow> table_ok (unmount ru t)"
  "table_ok t \<Longrightarrow> table_ok (finishAcquire ru t)"
  unfolding table_ok_def map_of_phases
  by (auto simp: decorate_def newFencedSelfHealing_def split: if_splits)
    (auto simp: setPhase_def dropPhase_def recordOpenEpoch_def forgetOpenEpoch_def clearAcquireErr_def
      recordAcquireErr_def mountLocked_def unmount_def finishAcquire_def distinct_delete distinct_removeAll Let_def)

text \<open>Whether a position is in a loser phase, as a number.\<close>

definition draining :: "ReplicaUnit \<Rightarrow> 'b mountTable \<Rightarrow> nat" where
  "draining ru t = (case phase_entry ru t of None \<Rightarrow> 0 | Some st \<Rightarrow> if IsLoser (hs_Phase st) then 1 else 0)"

lemma draining_updates [simp]:
  "draining ru (setPhase r st t) = (if ru = r then (if IsLoser (hs_Phase st) then 1 else 0) else draining ru t)"
  "draining ru (dropPhase r t) = (if ru = r then 0 else draining ru t)"
  "draining ru (recordOpenEpoch r e t) = draining ru t"
  "draining ru (forgetOpenEpoch r t) = draining ru t"
  "draining ru (clearAcquireErr r t) = draining ru t"
  "draining ru (recordAcquireErr r msg t) = draining ru t"
  "draining ru (mountLocked r b t) = draining ru t"
  "draining ru (unmount r t) = draining ru t"
  "draining ru (finishAcquire r t) = draining ru t"
  by (simp_all add: draining_def)

lemma field_updates:
  "table_ok t \<Longrightarrow> table_ok (t\<lparr>mt_mounts := []\<rparr>)"
  "table_ok t \<Longrightarrow> table_ok (t\<lparr>mt_closed := c\<rparr>)"
  "table_ok t \<Longrightarrow> ru \<notin> set (mt_inFlight t) \<Longrightarrow> table_ok (t\<lparr>mt_inFlight := ru # mt_inFlight t\<rparr>)"
  "draining r (t\<lparr>mt_mounts := ms\<rparr>) = draining r t"
  "draining r (t\<lparr>mt_closed := c\<rparr>) = draining r t"
  "draining r (t\<lparr>mt_inFlight := fl\<rparr>) = draining r t"
  by (simp_all add: table_ok_def backendFor_def draining_def phase_entry_def)

lemma loser_draining: "IsLoser (hs_Phase (phaseOf ru t)) \<longleftrightarrow> draining ru t = 1"
  by (auto simp: draining_def phaseOf_entry zero_HandoffState_def IsLoser_def split: option.splits)

lemma draining_phase: "table_ok t \<Longrightarrow> phase_entry ru t = Some st \<Longrightarrow> (hs_Phase st = PhaseDraining) = (draining ru t = 1)"
  by (fastforce simp: table_ok_def draining_def IsLoser_def map_of_phases)

text \<open>Each operation by cases: what it returns and which update it is.\<close>

lemma armDrain_cases:
  "armDrain ru e t = (r, t') \<Longrightarrow>
     r = None \<and> t' = t \<or>
     (\<exists>h. r = Some h \<and> backendFor ru t = Some h \<and> hs_Phase (phaseOf ru t) = PhaseZero \<and>
          t' = setPhase ru (HandoffState PhaseDraining e) t)"
  by (auto simp: armDrain_def NextOnDrain_def zero_HandoffState_def split: option.splits if_splits)

lemma reclaimDrain_cases:
  "reclaimDrain ru t = t \<and> (draining ru t = 0 \<or> backendFor ru t = None) \<or>
   reclaimDrain ru t = dropPhase ru t \<and> draining ru t = 1 \<and> backendFor ru t \<noteq> None"
  by (auto simp: reclaimDrain_def draining_def map_of_phases split: option.splits if_splits)

lemma dropStuckGainerPhase_cases:
  "dropStuckGainerPhase ru t = (r, t') \<Longrightarrow>
     \<not> r \<and> t' = t \<or>
     r \<and> t' = dropPhase ru t \<and> ru \<notin> set (mt_inFlight t) \<and> backendFor ru t \<noteq> None \<and>
       (\<exists>st. phase_entry ru t = Some st \<and> IsGainer (hs_Phase st))"
  by (auto simp: dropStuckGainerPhase_def map_of_phases split: option.splits if_splits)

lemma clearOrphanedDrain_cases:
  "clearOrphanedDrain ru t = (r, t') \<Longrightarrow>
     \<not> r \<and> t' = t \<or>
     r \<and> t' = dropPhase ru t \<and> backendFor ru t = None \<and> draining ru t = 1"
  by (auto simp: clearOrphanedDrain_def map_of_phases draining_def IsLoser_def split: option.splits if_splits)

lemma installServing_cases:
  "installServing ru b e t = (out, t') \<Longrightarrow>
     out = MountSuperseded \<and> t' = t \<and> mt_closed t \<or>
     out = MountBlockedByDrain \<and> t' = t \<and> \<not> mt_closed t \<and> draining ru t = 1 \<or>
     out = (if hs_Phase (phaseOf ru t) = PhaseAcquiring then MountedReady else MountedPhaseResolved) \<and>
       \<not> mt_closed t \<and> draining ru t = 0 \<and> t' = dropPhase ru (mountLocked ru b (recordOpenEpoch ru e t))"
proof -
  assume a: "installServing ru b e t = (out, t')"
  have "draining ru t \<noteq> 1 \<Longrightarrow> draining ru t = 0" by (auto simp: draining_def split: option.splits if_splits)
  with a show ?thesis
    by (auto simp: installServing_def Let_def NextOnReady_def loser_draining split: if_splits)
qed

lemma releaseDrained_cases:
  "releaseDrained ru t = (r, t') \<Longrightarrow>
     r = None \<and> t' = t \<and> (\<forall>st. phase_entry ru t = Some st \<longrightarrow> hs_Phase st \<noteq> PhaseDraining) \<or>
     r = None \<and> t' = dropPhase ru t \<and> draining ru t = 1 \<and> (backendFor ru t = None \<or> backendFor ru t = Some NilBackend) \<or>
     (\<exists>h st. r = Some h \<and> backendFor ru t = Some h \<and> h \<noteq> NilBackend \<and> draining ru t = 1 \<and>
       t' = dropPhase ru (forgetOpenEpoch ru (unmount ru t)))"
  by (auto simp: releaseDrained_def map_of_phases NextOnRelease_def unmount_def draining_def IsLoser_def
      split: option.splits if_splits)

lemma evictIfSame_cases:
  "evictIfSame ru h t = (r, t') \<Longrightarrow>
     \<not> r \<and> t' = t \<or>
     r \<and> draining ru t = 0 \<and> backendFor ru t = Some h \<and> t' = forgetOpenEpoch ru (unmount ru t)"
  by (auto simp: evictIfSame_def map_of_phases draining_def split: option.splits if_splits)


lemma count_Effect [simp]: "(\<And>f. e \<noteq> Effect f) \<Longrightarrow> count_list (map Effect effs) e = 0"
  by (induction effs) auto

lemma table_step_sound:
  assumes "table_step t evs t'" "table_ok t"
  shows "table_ok t' \<and>
    count_list evs (Armed ru) + draining ru t =
      count_list evs (Released ru) + count_list evs (Reclaimed ru) + count_list evs (Dropped ru) + draining ru t'"
  using assms
proof cases
  case (begin_acquire r)
  with assms(2) show ?thesis
    by (auto simp: loser_draining draining_def IsLoser_def phaseOf_entry split: option.splits if_splits)
next
  case (arm r e h)
  from armDrain_cases [OF arm(2)] show ?thesis
  proof (elim disjE exE conjE)
    fix b assume "h = Some b" "hs_Phase (phaseOf r t) = PhaseZero" "t' = setPhase r (HandoffState PhaseDraining e) t"
    then show ?thesis using assms(2) arm(1) by (auto simp: draining_def phaseOf_entry IsLoser_def split: option.splits)
  qed (use assms(2) arm(1) in auto)
next
  case (reclaim r)
  with assms(2) reclaimDrain_cases [of r t] show ?thesis by (auto simp: loser_draining)
next
  case (finish_stuck r b effs)
  then obtain b' where "dropStuckGainerPhase r t = (b', t')"
    by (auto simp: finishStuckGainer_def Let_def split: prod.splits bool.splits)
  from dropStuckGainerPhase_cases [OF this] show ?thesis
    using assms(2) finish_stuck(1) by (auto simp: draining_def IsGainer_def IsLoser_def)
next
  case (clear_orphan r b)
  with assms(2) clearOrphanedDrain_cases [OF clear_orphan(2)] show ?thesis by auto
next
  case (serve r b e site out effs)
  then obtain out' where "installServing r (Raw b) e t = (out', t')"
    by (auto simp: mountServing_def split: prod.splits if_splits)
  from installServing_cases [OF this] show ?thesis using assms(2) serve(1) by auto
next
  case (release r h)
  from releaseDrained_cases [OF release(2)] show ?thesis using assms(2) release(1) by (auto simp: loser_draining)
next
  case (evict r h b)
  with assms(2) evictIfSame_cases [OF evict(2)] show ?thesis by auto
next
  case (take_all iter rus)
  with assms(2) show ?thesis by (auto simp: takeAll_def field_updates)
next
  case (start r b)
  with assms(2) show ?thesis by (auto simp: startAcquire_def field_updates split: if_splits)
next
  case shut
  with assms(2) show ?thesis by (simp add: field_updates)
qed (use assms(2) in auto)


text \<open>A mounted position of the replica layout has its open epoch on record.\<close>

definition epochs_ok :: "'b mountTable \<Rightarrow> bool" where
  "epochs_ok t \<longleftrightarrow> (\<forall>ru. backendFor ru t \<noteq> None \<longrightarrow> mt_openEpochs t ru \<noteq> None)"

lemma table_step_epochs:
  assumes "table_step t evs t'" "epochs_ok t"
  shows "epochs_ok t'"
  using assms
proof cases
  case (arm r e h)
  with assms(2) armDrain_cases [OF arm(2)] show ?thesis by (auto simp: epochs_ok_def)
next
  case (reclaim r)
  with assms(2) reclaimDrain_cases [of r t] show ?thesis by (auto simp: epochs_ok_def)
next
  case (finish_stuck r b effs)
  then obtain b' where "dropStuckGainerPhase r t = (b', t')"
    by (auto simp: finishStuckGainer_def Let_def split: prod.splits bool.splits)
  with assms(2) dropStuckGainerPhase_cases [OF this] show ?thesis by (auto simp: epochs_ok_def)
next
  case (clear_orphan r b)
  with assms(2) clearOrphanedDrain_cases [OF clear_orphan(2)] show ?thesis by (auto simp: epochs_ok_def)
next
  case (serve r b e site out effs)
  then obtain out' where "installServing r (Raw b) e t = (out', t')"
    by (auto simp: mountServing_def split: prod.splits if_splits)
  with assms(2) installServing_cases [OF this] show ?thesis by (auto simp: epochs_ok_def)
next
  case (release r h)
  with assms(2) releaseDrained_cases [OF release(2)] show ?thesis by (auto simp: epochs_ok_def)
next
  case (evict r h b)
  with assms(2) evictIfSame_cases [OF evict(2)] show ?thesis by (auto simp: epochs_ok_def)
next
  case (take_all iter rus)
  with assms(2) show ?thesis by (auto simp: takeAll_def epochs_ok_def backendFor_def)
next
  case (start r b)
  with assms(2) show ?thesis by (auto simp: startAcquire_def epochs_ok_def backendFor_def split: if_splits)
next
  case shut
  with assms(2) show ?thesis by (simp add: epochs_ok_def backendFor_def)
qed (use assms(2) in \<open>auto simp: epochs_ok_def\<close>)

lemma table_run_inv:
  assumes "table_run t evs t'" "table_ok t" "epochs_ok t"
  shows "table_ok t' \<and> epochs_ok t' \<and>
    count_list evs (Armed ru) + draining ru t =
      count_list evs (Released ru) + count_list evs (Reclaimed ru) + count_list evs (Dropped ru) + draining ru t'"
  using assms
proof induction
  case (run_snoc t evs t' evs' t'')
  with table_step_sound [OF run_snoc(2), of ru] table_step_epochs [OF run_snoc(2)] show ?case by simp
qed simp

lemma init_ok: "table_ok (table_init table_zero)" "epochs_ok (table_init table_zero)"
  by (simp_all add: table_ok_def epochs_ok_def table_init_def table_zero_def backendFor_def)

text \<open>While a position drains, only its release or the shutdown takes the mount away.\<close>

lemma step_protects:
  assumes "table_step t evs t'" "table_ok t" "draining ru t = 1" "backendFor ru t = Some h"
  shows "backendFor ru t' = Some h \<and> (draining ru t' = 1 \<or> Reclaimed ru \<in> set evs) \<or>
     Released ru \<in> set evs \<or> mt_closed t \<and> mt_mounts t' = []"
  using assms(1)
proof cases
  case (begin_acquire r)
  with assms(3,4) show ?thesis by (auto simp: loser_draining split: if_splits)
next
  case (arm r e b)
  with assms(3,4) armDrain_cases [OF arm(2)] show ?thesis by (auto simp: IsLoser_def split: if_splits)
next
  case (reclaim r)
  with assms(3,4) reclaimDrain_cases [of r t] show ?thesis by (auto simp: loser_draining split: if_splits)
next
  case (finish_stuck r b effs)
  then obtain b' where "dropStuckGainerPhase r t = (b', t')"
    by (auto simp: finishStuckGainer_def Let_def split: prod.splits bool.splits)
  with assms(3,4) dropStuckGainerPhase_cases [OF this] show ?thesis by (auto simp: draining_def IsGainer_def IsLoser_def split: if_splits)
next
  case (clear_orphan r b)
  with assms(3,4) clearOrphanedDrain_cases [OF clear_orphan(2)] show ?thesis by (auto split: if_splits)
next
  case (serve r b e site out effs)
  then obtain out' where "installServing r (Raw b) e t = (out', t')"
    by (auto simp: mountServing_def split: prod.splits if_splits)
  with assms(3,4) installServing_cases [OF this] show ?thesis by (auto split: if_splits)
next
  case (release r b)
  have "h \<noteq> NilBackend" using assms(2,4) by (auto simp: table_ok_def)
  with assms(3,4) release(1) releaseDrained_cases [OF release(2)] show ?thesis by (auto simp: loser_draining split: if_splits)
next
  case (clean_cut r)
  moreover have "ru \<noteq> r" using clean_cut assms(3) loser_draining [of ru t] by (auto simp: IsLoser_def)
  ultimately show ?thesis using assms(3,4) by simp
next
  case (evict r b c)
  with assms(3,4) evictIfSame_cases [OF evict(2)] show ?thesis by (auto split: if_splits)
next
  case (take_all iter rus)
  then show ?thesis by (auto simp: takeAll_def)
next
  case (start r b)
  with assms(3,4) show ?thesis by (auto simp: startAcquire_def field_updates backendFor_def split: if_splits)
next
  case shut
  with assms(3,4) show ?thesis by (simp add: field_updates backendFor_def)
qed (use assms(3,4) in auto)

text \<open>Locally serving: mounted with no hand-off in flight.\<close>

definition serving :: "ReplicaUnit \<Rightarrow> 'b mountTable \<Rightarrow> bool" where
  "serving ru t \<longleftrightarrow> backendFor ru t \<noteq> None \<and> phase_entry ru t = None"

lemma effects_publish:
  "mt_publish t \<Longrightarrow> Publish ru e site \<in> set (publishServing r e' site' t @ serving_hooks r t) \<longleftrightarrow>
     ru = r \<and> e = e' \<and> site = site'"
  by (auto simp: publishServing_def serving_hooks_def)

text \<open>A serving transition of \<open>r\<close> to \<open>t'\<close> that published exactly its open epoch.\<close>

definition served_by :: "ReplicaUnit \<Rightarrow> 'b mountTable \<Rightarrow> 'b mountTable \<Rightarrow> effect list \<Rightarrow> bool" where
  "served_by r t t' effs \<longleftrightarrow> serving r t' \<and>
     (\<exists>e site. mt_openEpochs t' r = Some e \<and>
        (\<forall>ru e' site'. Publish ru e' site' \<in> set effs \<longleftrightarrow> ru = r \<and> e' = e \<and> site' = site)) \<and>
     (\<forall>ru. ru \<noteq> r \<longrightarrow> backendFor ru t' = backendFor ru t \<and> phase_entry ru t' = phase_entry ru t)"

lemma serve_publishes:
  assumes "mountServing r (Raw b) e site t = (out, effs, t')" "table_ok t"
  shows "effs = [] \<and> t' = t \<or>
     served_by r t t' effs \<and> mt_openEpochs t' r = Some e"
proof -
  obtain out' t'' where i: "installServing r (Raw b) e t = (out', t'')" by fastforce
  show ?thesis
  proof (cases "outcome_mounted out'")
    case False
    with i assms(1) installServing_cases [OF i] show ?thesis
      by (auto simp: mountServing_def outcome_mounted_def split: if_splits)
  next
    case True
    with i assms(1) have "t'' = t'" "effs = publishServing r e site t' @ serving_hooks r t'" by (auto simp: mountServing_def)
    moreover have "table_ok t'" using installServing_cases [OF i] assms(2) \<open>t'' = t'\<close> by auto
    then have "mt_publish t'" by (simp add: table_ok_def)
    ultimately show ?thesis using True installServing_cases [OF i]
      by (auto simp: outcome_mounted_def serving_def served_by_def effects_publish simp del: set_append)
  qed
qed

lemma stuck_publishes:
  assumes "finishStuckGainer r t = (b, effs, t')" "table_ok t" "epochs_ok t"
  shows "effs = [] \<and> t' = t \<or>
     served_by r t t' effs"
proof -
  obtain b' t'' where d: "dropStuckGainerPhase r t = (b', t'')" by fastforce
  show ?thesis
  proof (cases b')
    case False
    with d assms(1) dropStuckGainerPhase_cases [OF d] show ?thesis by (auto simp: finishStuckGainer_def)
  next
    case True
    with dropStuckGainerPhase_cases [OF d] have t: "t'' = dropPhase r t" "backendFor r t \<noteq> None" by auto
    with assms(3) obtain e where e: "mt_openEpochs t r = Some e" by (auto simp: epochs_ok_def)
    have "table_ok t''" using t assms(2) by auto
    then have "mt_publish t''" by (simp add: table_ok_def)
    with d True assms(1) t e show ?thesis
      by (auto simp: finishStuckGainer_def openEpochOf_def serving_def served_by_def effects_publish Let_def
          simp del: set_append)
  qed
qed

lemma step_publishes:
  assumes "table_step t evs t'" "table_ok t" "epochs_ok t"
  shows "(serving ru t' \<and> \<not> serving ru t \<longrightarrow> Reclaimed ru \<in> set evs \<or>
       (\<exists>e site. mt_openEpochs t' ru = Some e \<and> Effect (Publish ru e site) \<in> set evs)) \<and>
     (\<forall>e site. Effect (Publish ru e site) \<in> set evs \<longrightarrow> serving ru t' \<and> mt_openEpochs t' ru = Some e)"
  using assms(1)
proof cases
  case (begin_acquire r)
  then show ?thesis by (auto simp: serving_def split: if_splits)
next
  case (arm r e b)
  with armDrain_cases [OF arm(2)] show ?thesis by (auto simp: serving_def split: if_splits)
next
  case (reclaim r)
  with reclaimDrain_cases [of r t] show ?thesis by (auto simp: serving_def loser_draining split: if_splits)
next
  case (finish_stuck r b effs)
  from stuck_publishes [OF finish_stuck(2) assms(2,3)] show ?thesis
    unfolding finish_stuck(1) by (cases "ru = r") (auto simp: served_by_def serving_def image_iff)
next
  case (clear_orphan r b)
  with clearOrphanedDrain_cases [OF clear_orphan(2)] show ?thesis by (auto simp: serving_def split: if_splits)
next
  case (serve r b e site out effs)
  from serve_publishes [OF serve(2) assms(2)] show ?thesis
    unfolding serve(1) by (cases "ru = r") (auto simp: served_by_def serving_def image_iff)
next
  case (release r b)
  with releaseDrained_cases [OF release(2)] assms(2) show ?thesis
    by (auto simp: serving_def table_ok_def split: if_splits)
next
  case (evict r b c)
  with evictIfSame_cases [OF evict(2)] show ?thesis by (auto simp: serving_def split: if_splits)
next
  case (take_all iter rus)
  then show ?thesis by (auto simp: takeAll_def serving_def backendFor_def)
next
  case (start r b)
  then show ?thesis by (auto simp: startAcquire_def serving_def backendFor_def phase_entry_def split: if_splits)
next
  case shut
  then show ?thesis by (auto simp: serving_def backendFor_def phase_entry_def)
qed (auto simp: serving_def split: if_splits)

section \<open>Readiness\<close>

definition failed_at :: "'b mountTable \<Rightarrow> ReplicaUnit \<Rightarrow> bool" where
  "failed_at t ru \<longleftrightarrow> backendFor ru t = None \<and> acquireErrOf ru t \<noteq> None"

text \<open>What \<^verbatim>\<open>readiness\<close> returns, and \<^verbatim>\<open>firstFailed\<close>, over any prefix of the desired positions.\<close>

definition tally :: "'b mountTable \<Rightarrow> ReplicaUnit list \<Rightarrow> mountCounts \<times> string \<Rightarrow> bool" where
  "tally t rus s \<longleftrightarrow>
     mc_Mounted (fst s) = length (filter (\<lambda>ru. backendFor ru t \<noteq> None) rus) \<and>
     mc_Pending (fst s) = length (filter (\<lambda>ru. backendFor ru t = None) rus) \<and>
     mc_Failed (fst s) = length (filter (failed_at t) rus) \<and>
     (filter (failed_at t) rus = [] \<longrightarrow> mc_FirstError (fst s) = [] \<and> snd s = []) \<and>
     (\<forall>ru\<in>set rus. failed_at t ru \<longrightarrow>
        (\<exists>r\<in>set rus. failed_at t r \<and> snd s = ReplicaUnit_String r \<and> acquireErrOf r t = Some (mc_FirstError (fst s)) \<and>
           ReplicaUnit_String r \<le> ReplicaUnit_String ru))"

lemma ReplicaUnit_String_not_Nil [simp]: "ReplicaUnit_String ru \<noteq> []"
  by (simp add: ReplicaUnit_String_def GenUnit_String_def)

lemma tally_step: "tally t rus s \<Longrightarrow> tally t (rus @ [ru]) (readiness_one t ru s)"
proof -
  assume a: "tally t rus s"
  obtain c f where s: "s = (c, f)" by fastforce
  show ?thesis
  proof (cases "failed_at t ru")
    case False
    with a show ?thesis
      by (cases "backendFor ru t"; cases "acquireErrOf ru t")
        (auto simp: s tally_def readiness_one_def failed_at_def Let_def)
  next
    case True
    then obtain msg where m: "backendFor ru t = None" "acquireErrOf ru t = Some msg" by (auto simp: failed_at_def)
    show ?thesis
    proof (cases "filter (failed_at t) rus = []")
      case True
      with a m show ?thesis by (auto simp: s tally_def readiness_one_def failed_at_def Let_def filter_empty_conv)
    next
      case False
      then obtain r0 where "r0 \<in> set rus" "failed_at t r0" by (auto simp: filter_empty_conv)
      with a obtain r where r: "r \<in> set rus" "failed_at t r" "f = ReplicaUnit_String r" "acquireErrOf r t = Some (mc_FirstError c)"
        by (auto simp: s tally_def)
      from a r have le: "\<forall>x\<in>set rus. failed_at t x \<longrightarrow> f \<le> ReplicaUnit_String x" by (auto simp: s tally_def)
      have c: "mc_Mounted c = length (filter (\<lambda>ru. backendFor ru t \<noteq> None) rus)"
        "mc_Pending c = length (filter (\<lambda>ru. backendFor ru t = None) rus)"
        "mc_Failed c = length (filter (failed_at t) rus)" using a by (simp_all add: s tally_def)
      have ne: "f \<noteq> []" using r(3) by simp
      show ?thesis
      proof (cases "ReplicaUnit_String ru < f")
        case True
        then have "readiness_one t ru s =
            (c\<lparr>mc_Pending := mc_Pending c + 1, mc_Failed := mc_Failed c + 1, mc_FirstError := msg\<rparr>, ReplicaUnit_String ru)"
          using m by (simp add: s readiness_one_def Let_def)
        with True c le m \<open>failed_at t ru\<close> show ?thesis
          by (auto simp: tally_def intro!: bexI [of _ ru] dest: order_less_le_trans)
      next
        case False
        then have "readiness_one t ru s = (c\<lparr>mc_Pending := mc_Pending c + 1, mc_Failed := mc_Failed c + 1\<rparr>, f)"
          using m ne by (simp add: s readiness_one_def Let_def)
        with False c le m r \<open>failed_at t ru\<close> show ?thesis
          by (auto simp: tally_def not_less intro!: bexI [of _ r])
      qed
    qed
  qed
qed

lemma readiness_tally:
  "tally t rus (fold (readiness_one t) rus (\<lparr>mc_Mounted = 0, mc_Pending = 0, mc_Failed = 0, mc_FirstError = []\<rparr>, []))"
proof (induction rus rule: rev_induct)
  case Nil
  then show ?case by (simp add: tally_def)
next
  case (snoc ru rus)
  then show ?case using tally_step by simp
qed

lemma tally_perm:
  assumes "tally t rus s" "tally t rus' s'" "mset rus = mset rus'"
  shows "fst s = fst s'"
proof -
  have l: "length (filter P rus) = length (filter P rus')" for P
    using assms(3) by (metis mset_filter size_mset)
  have st: "set rus = set rus'" using assms(3) by (metis set_mset_mset)
  have "mc_FirstError (fst s) = mc_FirstError (fst s')"
  proof (cases "filter (failed_at t) rus = []")
    case True
    then have "filter (failed_at t) rus' = []" using l [of "failed_at t"] by simp
    with True assms(1,2) show ?thesis by (simp add: tally_def)
  next
    case False
    then obtain x where x: "x \<in> set rus" "failed_at t x" by (auto simp: filter_empty_conv)
    with assms(1) obtain a where a: "a \<in> set rus" "failed_at t a" "snd s = ReplicaUnit_String a"
        "acquireErrOf a t = Some (mc_FirstError (fst s))" by (auto simp: tally_def)
    from x st assms(2) obtain b where b: "b \<in> set rus'" "failed_at t b" "snd s' = ReplicaUnit_String b"
        "acquireErrOf b t = Some (mc_FirstError (fst s'))" by (auto simp: tally_def)
    have "ReplicaUnit_String a \<le> ReplicaUnit_String b" using assms(1) a(3) b(1,2) st unfolding tally_def by metis
    moreover have "ReplicaUnit_String b \<le> ReplicaUnit_String a" using assms(2) b(3) a(1,2) st unfolding tally_def by metis
    ultimately have "a = b" by simp
    with a(4) b(4) show ?thesis by simp
  qed
  then show ?thesis
    using assms(1,2) l by (intro mountCounts.equality) (simp_all add: tally_def)
qed

section \<open>Properties\<close>

text \<open>C13: A drain ends exactly once. In every run of a node, for every position, the number of times the drain
  was armed is the number of times it was released, reclaimed or dropped, plus one while the position
  is draining, however many pollers call the release. A release that succeeds hands out the mounted
  backend, leaves neither mount nor phase nor recorded epoch, and a second release right after it
  hands out nothing.\<close>

theorem drain_exactly_once:
  fixes t :: "'b mountTable"
  assumes "table_run (table_init table_zero) evs t"
  shows "count_list evs (Armed ru) =
      count_list evs (Released ru) + count_list evs (Reclaimed ru) + count_list evs (Dropped ru) + draining ru t \<and>
    (\<forall>h t'. releaseDrained ru t = (Some h, t') \<longrightarrow>
       backendFor ru t = Some h \<and> draining ru t = 1 \<and>
       backendFor ru t' = None \<and> phaseOf ru t' = zero_HandoffState \<and> openEpochOf ru t' = None \<and>
       releaseDrained ru t' = (None, t'))"
proof (intro conjI allI impI)
  have "draining ru (table_init table_zero :: 'b mountTable) = 0" by (simp add: draining_def phase_entry_def table_init_def)
  then show "count_list evs (Armed ru) =
      count_list evs (Released ru) + count_list evs (Reclaimed ru) + count_list evs (Dropped ru) + draining ru t"
    using table_run_inv [OF assms init_ok, of ru] by simp
qed (use releaseDrained_cases in \<open>fastforce simp: phaseOf_entry openEpochOf_def releaseDrained_def map_of_phases\<close>)+

definition demo_ru :: ReplicaUnit where
  "demo_ru = ReplicaUnit (GenUnit 0 3) 1"

text \<open>A run: acquire, serve at epoch 4, drain, release.\<close>

definition demo_served :: "nat mountTable" where
  "demo_served = snd (snd (mountServing demo_ru (Raw 7) 4 ''boot'' (table_init table_zero)))"

definition demo_drained :: "nat mountTable" where
  "demo_drained = snd (armDrain demo_ru 4 demo_served)"

lemma demo_served_fields:
  "backendFor demo_ru demo_served = Some (Healing demo_ru 7)" "phase_entry demo_ru demo_served = None"
  "mt_openEpochs demo_served demo_ru = Some 4" "\<not> mt_closed demo_served"
  by (simp_all add: demo_served_def mountServing_def installServing_def table_init_def table_zero_def phaseOf_def
      zero_HandoffState_def IsLoser_def Let_def outcome_mounted_def demo_ru_def decorate_def newFencedSelfHealing_def
      backendFor_def phase_entry_def dropPhase_def mountLocked_def recordOpenEpoch_def clearAcquireErr_def)

lemma demo_armed: "armDrain demo_ru 4 demo_served = (Some (Healing demo_ru 7), demo_drained)"
  using demo_served_fields by (simp add: demo_drained_def armDrain_def phaseOf_entry NextOnDrain_def zero_HandoffState_def)

lemma demo_drained_fields:
  "backendFor demo_ru demo_drained = Some (Healing demo_ru 7)" "draining demo_ru demo_drained = 1"
  "phase_entry demo_ru demo_drained = Some (HandoffState PhaseDraining 4)"
proof -
  have d: "demo_drained = setPhase demo_ru (HandoffState PhaseDraining 4) demo_served"
    using armDrain_cases [OF demo_armed] by simp
  show "backendFor demo_ru demo_drained = Some (Healing demo_ru 7)" "draining demo_ru demo_drained = 1"
    "phase_entry demo_ru demo_drained = Some (HandoffState PhaseDraining 4)"
    unfolding d using demo_served_fields by (simp_all add: IsLoser_def)
qed

lemma demo_run: "table_run (table_init table_zero) [Effect (Publish demo_ru 4 ''boot''), Effect (Purge demo_ru),
    Effect (NotifyMounted demo_ru), Armed demo_ru] demo_drained"
proof -
  have "mountServing demo_ru (Raw 7) 4 ''boot'' (table_init table_zero) =
      (MountedPhaseResolved, [Publish demo_ru 4 ''boot'', Purge demo_ru, NotifyMounted demo_ru], demo_served)"
    by (simp add: demo_served_def mountServing_def installServing_def table_init_def table_zero_def phaseOf_def
      zero_HandoffState_def IsLoser_def Let_def outcome_mounted_def publishServing_def serving_hooks_def
      dropPhase_def mountLocked_def recordOpenEpoch_def clearAcquireErr_def)
  from run_snoc [OF run_snoc [OF run_nil table_step.serve [OF this]] table_step.arm [OF demo_armed]]
  show ?thesis by simp
qed

theorem drain_exactly_once_witness:
  "draining demo_ru demo_drained = 1 \<and> releaseDrained demo_ru (snd (releaseDrained demo_ru demo_drained)) =
     (None, snd (releaseDrained demo_ru demo_drained))"
proof -
  obtain t' where "releaseDrained demo_ru demo_drained = (Some (Healing demo_ru 7), t')"
    using demo_drained_fields by (simp add: releaseDrained_def map_of_phases NextOnRelease_def)
  with drain_exactly_once [OF demo_run, of demo_ru] demo_drained_fields(2) show ?thesis by auto
qed





text \<open>The readiness tally is exact and deterministic: every desired position counts as mounted or as pending
  and never as both, failures are a part of the pending ones, the error is empty without a failure, and
  neither the counts nor the reported error depend on the order of the desired positions.\<close>

theorem readiness_exact:
  "mc_Mounted (readiness desired t) + mc_Pending (readiness desired t) = length desired \<and>
   mc_Mounted (readiness desired t) = length (filter (\<lambda>ru. backendFor ru t \<noteq> None) desired) \<and>
   mc_Failed (readiness desired t) \<le> mc_Pending (readiness desired t) \<and>
   (mc_Failed (readiness desired t) = 0 \<longrightarrow> mc_FirstError (readiness desired t) = []) \<and>
   (mset desired = mset desired' \<longrightarrow> readiness desired t = readiness desired' t)"
proof -
  have ty: "tally t desired (fold (readiness_one t) desired (\<lparr>mc_Mounted = 0, mc_Pending = 0, mc_Failed = 0, mc_FirstError = []\<rparr>, []))"
    by (rule readiness_tally)
  have "length (filter (failed_at t) desired) \<le> length (filter (\<lambda>ru. backendFor ru t = None) desired)"
    by (induction desired) (auto simp: failed_at_def)
  moreover have "length (filter (\<lambda>ru. backendFor ru t \<noteq> None) desired) + length (filter (\<lambda>ru. backendFor ru t = None) desired) = length desired"
    using sum_length_filter_compl [of "\<lambda>ru. backendFor ru t \<noteq> None" desired] by simp
  moreover have "mset desired = mset desired' \<longrightarrow> readiness desired t = readiness desired' t"
    using tally_perm [OF ty readiness_tally [of t desired']] by (simp add: readiness_def)
  ultimately show ?thesis using ty by (auto simp: readiness_def tally_def)
qed

text \<open>Resolution and listings are deterministic although the runtime ranges over the mount map in arbitrary
  order. For every order: the lowest mounted position of a unit is found iff one is mounted and is the
  one with the least index; it does not depend on the order; and the listing of mounts is strictly
  ascending by (generation, unit, position), complete, and independent of the order.\<close>

theorem resolution_deterministic:
  assumes "table_ok t" "ru_iter i1" "ru_iter i2"
  shows "lowestForUnit i1 gu t = lowestForUnit i2 gu t \<and> mountedPairs i1 t = mountedPairs i2 t \<and>
    (\<forall>b ru. lowestForUnit i1 gu t = Some (b, ru) \<longrightarrow>
       backendFor ru t = Some b \<and> lowest_of gu (dom (\<lambda>ru. backendFor ru t)) ru) \<and>
    (lowestForUnit i1 gu t = None \<longleftrightarrow> (\<forall>ru. ru_Unit ru = gu \<longrightarrow> backendFor ru t = None)) \<and>
    sorted_wrt replicaUnitLess (map fst (mountedPairs i1 t)) \<and> set (mountedPairs i1 t) = set (mt_mounts t)"
proof -
  have d: "distinct (map fst (mt_mounts t))" using assms(1) by (simp add: table_ok_def)
  have dom: "fst ` set (mt_mounts t) = dom (\<lambda>ru. backendFor ru t)"
    by (simp add: backendFor_def dom_map_of_conv_image_fst)
  have l: "lowestForUnit i1 gu t = lowestForUnit i2 gu t"
    by (simp add: lowestForUnit_def lowestLocked_cong [OF assms(2,3)])
  have p: "mountedPairs i1 t = mountedPairs i2 t"
    using sortReplicaUnits_cong [of "i1 (map fst (mt_mounts t))" "i2 (map fst (mt_mounts t))"] assms(2,3)
    by (simp add: mountedPairs_def ru_iter_def)
  have sp: "case lowestLocked i1 gu t of None \<Rightarrow> \<forall>c\<in>dom (\<lambda>ru. backendFor ru t). ru_Unit c \<noteq> gu
      | Some ru \<Rightarrow> lowest_of gu (dom (\<lambda>ru. backendFor ru t)) ru"
    using lowestLocked_spec [OF assms(2), where gu = gu and t = t] unfolding dom .
  have low: "(\<forall>b ru. lowestForUnit i1 gu t = Some (b, ru) \<longrightarrow>
       backendFor ru t = Some b \<and> lowest_of gu (dom (\<lambda>ru. backendFor ru t)) ru) \<and>
      (lowestForUnit i1 gu t = None \<longleftrightarrow> (\<forall>ru. ru_Unit ru = gu \<longrightarrow> backendFor ru t = None))"
    using sp by (cases "lowestLocked i1 gu t") (auto simp: lowestForUnit_def lowest_of_def dom_def)
  let ?s = "sortReplicaUnits (i1 (map fst (mt_mounts t)))"
  have m: "mset ?s = mset (map fst (mt_mounts t))" using sortReplicaUnits_sort assms(2) by (metis ru_iter_def)
  then have "distinct ?s" using d by (metis mset_eq_imp_distinct_iff)
  then have "sorted_wrt (<) (map ru_key ?s)"
    using sortReplicaUnits_sort [of "i1 (map fst (mt_mounts t))"] by (simp add: strict_sorted_iff distinct_map inj_on_def)
  then have "sorted_wrt replicaUnitLess ?s" by (simp add: sorted_wrt_map replicaUnitLess_key [abs_def])
  then have so: "sorted_wrt replicaUnitLess (map fst (mountedPairs i1 t))" by (simp add: mountedPairs_def o_def)
  have "set ?s = fst ` set (mt_mounts t)" using m by (metis list.set_map set_mset_mset)
  then have "set (mountedPairs i1 t) = set (mt_mounts t)"
    using d by (force simp: mountedPairs_def backendFor_def)
  with l p low so show ?thesis by blast
qed

end
