(* ===== verification/Memory_Backend.thy ===== *)
theory Memory_Backend
  imports Prelude "HOL-Library.Multiset"
begin

text \<open>
  The storage port (\<^verbatim>\<open>src/pkg/backend/backend.go\<close>) and the in-process backend
  (\<^verbatim>\<open>src/pkg/backend/memory/memory.go\<close>). The Go interfaces \<^verbatim>\<open>Backend\<close> and \<^verbatim>\<open>Transaction\<close> are the dictionary
  \<open>backend_ops\<close>; the locale \<open>kv_backend\<close> states the contract its clients rely on, and the memory backend
  is proved to keep it. Maps that are ranged over are association lists with distinct keys.
\<close>

section \<open>The port\<close>

datatype backend_error = ErrNotFound | ErrClosed | ErrFenced | ErrCASConflict | ErrCrossShard | BackendIO string

type_synonym kv_list = "(bytes \<times> bytes) list"

text \<open>Every operation takes the state of the store beside the transaction it works on.\<close>

record ('b, 't) backend_ops =
  bo_Put :: "bytes \<Rightarrow> bytes \<Rightarrow> 'b \<Rightarrow> backend_error option \<times> 'b"
  bo_Get :: "bytes \<Rightarrow> 'b \<Rightarrow> backend_error + bytes"
  bo_Delete :: "bytes \<Rightarrow> 'b \<Rightarrow> backend_error option \<times> 'b"
  bo_ScanPrefix :: "bytes \<Rightarrow> 'b \<Rightarrow> backend_error + kv_list"
  bo_Begin :: "'b \<Rightarrow> backend_error + 't"
  bo_TxGet :: "bytes \<Rightarrow> 't \<Rightarrow> 'b \<Rightarrow> backend_error + bytes"
  bo_TxPut :: "bytes \<Rightarrow> bytes \<Rightarrow> 't \<Rightarrow> backend_error option \<times> 't"
  bo_TxDelete :: "bytes \<Rightarrow> 't \<Rightarrow> backend_error option \<times> 't"
  bo_TxScanPrefix :: "bytes \<Rightarrow> 't \<Rightarrow> 'b \<Rightarrow> backend_error + kv_list"
  bo_TxCommit :: "'t \<Rightarrow> 'b \<Rightarrow> backend_error option \<times> 'b"

section \<open>The memory backend\<close>

record Memory =
  me_data :: kv_list
  me_closed :: bool

definition Memory_New :: Memory where
  "Memory_New = \<lparr>me_data = [], me_closed = False\<rparr>"

definition Memory_Put :: "bytes \<Rightarrow> bytes \<Rightarrow> Memory \<Rightarrow> backend_error option \<times> Memory" where
  "Memory_Put key val m =
     (if me_closed m then (Some ErrClosed, m)
      else (None, m\<lparr>me_data := AList.update key val (me_data m)\<rparr>))"

definition Memory_Get :: "bytes \<Rightarrow> Memory \<Rightarrow> backend_error + bytes" where
  "Memory_Get key m =
     (if me_closed m then Inl ErrClosed
      else case map_of (me_data m) key of None \<Rightarrow> Inl ErrNotFound | Some v \<Rightarrow> Inr v)"

definition Memory_Delete :: "bytes \<Rightarrow> Memory \<Rightarrow> backend_error option \<times> Memory" where
  "Memory_Delete key m =
     (if me_closed m then (Some ErrClosed, m)
      else (None, m\<lparr>me_data := AList.delete key (me_data m)\<rparr>))"

definition HasPrefix :: "bytes \<Rightarrow> bytes \<Rightarrow> bool" where
  "HasPrefix b pre \<longleftrightarrow> take (length pre) b = pre"

definition Memory_ScanPrefix :: "bytes \<Rightarrow> Memory \<Rightarrow> backend_error + kv_list" where
  "Memory_ScanPrefix pre m =
     (if me_closed m then Inl ErrClosed
      else Inr (sort_key fst (filter (\<lambda>(k, v). HasPrefix k pre) (me_data m))))"

definition Memory_Close :: "Memory \<Rightarrow> Memory" where
  "Memory_Close m = (if me_closed m then m else m\<lparr>me_closed := True, me_data := []\<rparr>)"

text \<open>The iterator over a scan: \<^const>\<open>None\<close> is the end.\<close>

record kv_iterator =
  it_pairs :: kv_list
  it_pos :: nat

definition iterator_Next :: "kv_iterator \<Rightarrow> (bytes \<times> bytes) option \<times> kv_iterator" where
  "iterator_Next it =
     (if it_pos it \<ge> length (it_pairs it) then (None, it)
      else (Some (it_pairs it ! it_pos it), it\<lparr>it_pos := it_pos it + 1\<rparr>))"

section \<open>Its transactions\<close>

record mem_tx =
  tx_writes :: kv_list
  tx_deletes :: "bytes list"
  tx_done :: bool

definition Memory_Begin :: "Memory \<Rightarrow> backend_error + mem_tx" where
  "Memory_Begin m =
     (if me_closed m then Inl ErrClosed else Inr \<lparr>tx_writes = [], tx_deletes = [], tx_done = False\<rparr>)"

definition tx_Get :: "bytes \<Rightarrow> mem_tx \<Rightarrow> Memory \<Rightarrow> backend_error + bytes" where
  "tx_Get key t parent =
     (if tx_done t then Inl ErrClosed
      else if key \<in> set (tx_deletes t) then Inl ErrNotFound
      else case map_of (tx_writes t) key of Some v \<Rightarrow> Inr v | None \<Rightarrow> Memory_Get key parent)"

definition tx_Put :: "bytes \<Rightarrow> bytes \<Rightarrow> mem_tx \<Rightarrow> backend_error option \<times> mem_tx" where
  "tx_Put key val t =
     (if tx_done t then (Some ErrClosed, t)
      else (None, t\<lparr>tx_deletes := removeAll key (tx_deletes t), tx_writes := AList.update key val (tx_writes t)\<rparr>))"

definition tx_Delete :: "bytes \<Rightarrow> mem_tx \<Rightarrow> backend_error option \<times> mem_tx" where
  "tx_Delete key t =
     (if tx_done t then (Some ErrClosed, t)
      else (None, t\<lparr>tx_writes := AList.delete key (tx_writes t), tx_deletes := List.insert key (tx_deletes t)\<rparr>))"

text \<open>The base pairs with the overlay applied, then the writes the parent did not have.\<close>

definition tx_merge_base :: "mem_tx \<Rightarrow> kv_list \<Rightarrow> kv_list" where
  "tx_merge_base t base =
     concat (map (\<lambda>(k, v).
       if k \<in> set (tx_deletes t) then []
       else case map_of (tx_writes t) k of Some overlay \<Rightarrow> [(k, overlay)] | None \<Rightarrow> [(k, v)]) base)"

definition tx_merge_new :: "mem_tx \<Rightarrow> bytes \<Rightarrow> kv_list \<Rightarrow> kv_list" where
  "tx_merge_new t pre pairs =
     foldl (\<lambda>pairs (k, v). if \<not> HasPrefix k pre then pairs
                           else if k \<in> fst ` set pairs then pairs else pairs @ [(k, v)])
       pairs (tx_writes t)"

definition tx_ScanPrefix :: "bytes \<Rightarrow> mem_tx \<Rightarrow> Memory \<Rightarrow> backend_error + kv_list" where
  "tx_ScanPrefix pre t parent =
     (if tx_done t then Inl ErrClosed
      else case Memory_ScanPrefix pre parent of
          Inl e \<Rightarrow> Inl e
        | Inr base \<Rightarrow> Inr (sort_key fst (tx_merge_new t pre (tx_merge_base t base))))"

text \<open>\<^verbatim>\<open>Commit\<close> marks the transaction done whatever happens; a done transaction is never used again, so only
  the effect on the store is kept.\<close>

definition tx_Commit :: "mem_tx \<Rightarrow> Memory \<Rightarrow> backend_error option \<times> Memory" where
  "tx_Commit t parent =
     (if tx_done t then (Some ErrClosed, parent)
      else if me_closed parent then (Some ErrClosed, parent)
      else (None, parent\<lparr>me_data :=
              fold AList.delete (tx_deletes t) (fold (\<lambda>(k, v). AList.update k v) (tx_writes t) (me_data parent))\<rparr>))"

definition tx_Rollback :: "mem_tx \<Rightarrow> mem_tx" where
  "tx_Rollback t = \<lparr>tx_writes = [], tx_deletes = [], tx_done = True\<rparr>"

definition memory_ops :: "(Memory, mem_tx) backend_ops" where
  "memory_ops =
     \<lparr>bo_Put = Memory_Put, bo_Get = Memory_Get, bo_Delete = Memory_Delete, bo_ScanPrefix = Memory_ScanPrefix,
      bo_Begin = Memory_Begin, bo_TxGet = tx_Get, bo_TxPut = tx_Put, bo_TxDelete = tx_Delete,
      bo_TxScanPrefix = tx_ScanPrefix, bo_TxCommit = tx_Commit\<rparr>"

text \<open>What a store holds, and what a transaction sees of it.\<close>

definition mem_abs :: "Memory \<Rightarrow> bytes \<rightharpoonup> bytes" where
  "mem_abs m = map_of (me_data m)"

definition tx_view :: "mem_tx \<Rightarrow> Memory \<Rightarrow> bytes \<rightharpoonup> bytes" where
  "tx_view t m = (\<lambda>k. if k \<in> set (tx_deletes t) then None
                      else case map_of (tx_writes t) k of Some v \<Rightarrow> Some v | None \<Rightarrow> mem_abs m k)"

text \<open>Well-formed: keys are distinct, and a transaction never both writes and deletes a key.\<close>

definition mem_ok :: "Memory \<Rightarrow> bool" where
  "mem_ok m \<longleftrightarrow> distinct (map fst (me_data m)) \<and> \<not> me_closed m"

definition tx_ok :: "mem_tx \<Rightarrow> bool" where
  "tx_ok t \<longleftrightarrow> distinct (map fst (tx_writes t)) \<and> \<not> tx_done t \<and> set (tx_deletes t) \<inter> fst ` set (tx_writes t) = {}"

section \<open>The contract\<close>

text \<open>\<open>kv\<close> is what the store holds, \<open>view t b\<close> what a transaction sees. Operations may fail; a failed
  operation leaves the store as it was, and a successful one has exactly its effect.\<close>

locale kv_backend =
  fixes ops :: "('b, 't) backend_ops" and kv :: "'b \<Rightarrow> bytes \<rightharpoonup> bytes" and view :: "'t \<Rightarrow> 'b \<Rightarrow> bytes \<rightharpoonup> bytes"
    and ok :: "'b \<Rightarrow> bool" and tok :: "'t \<Rightarrow> bool"
  assumes begin_ok: "ok b \<Longrightarrow> bo_Begin ops b = Inr t \<Longrightarrow> tok t \<and> view t b = kv b"
    and txget_ok: "ok b \<Longrightarrow> tok t \<Longrightarrow> bo_TxGet ops k t b = Inr v \<Longrightarrow> view t b k = Some v"
    and txget_absent: "ok b \<Longrightarrow> tok t \<Longrightarrow> bo_TxGet ops k t b = Inl ErrNotFound \<Longrightarrow> view t b k = None"
    and txput_ok: "ok b \<Longrightarrow> tok t \<Longrightarrow> bo_TxPut ops k v t = (None, t') \<Longrightarrow> tok t' \<and> view t' b = (view t b)(k \<mapsto> v)"
    and txdelete_ok: "ok b \<Longrightarrow> tok t \<Longrightarrow> bo_TxDelete ops k t = (None, t') \<Longrightarrow> tok t' \<and> view t' b = (view t b)(k := None)"
    and commit_ok: "ok b \<Longrightarrow> tok t \<Longrightarrow> bo_TxCommit ops t b = (None, b') \<Longrightarrow> ok b' \<and> kv b' = view t b"
    and commit_error: "bo_TxCommit ops t b = (Some e, b') \<Longrightarrow> b' = b"

section \<open>The memory backend keeps the contract\<close>

lemma map_of_fold_update:
  "map_of (fold (\<lambda>(k, v). AList.update k v) ws d) k =
     (case map_of (rev ws) k of Some v \<Rightarrow> Some v | None \<Rightarrow> map_of d k)"
  by (induction ws arbitrary: d) (auto simp: map_add_def split: option.splits)

lemma map_of_fold_delete: "map_of (fold AList.delete ds d) k = (if k \<in> set ds then None else map_of d k)"
  by (induction ds arbitrary: d) auto

lemma distinct_fold_update:
  "distinct (map fst d) \<Longrightarrow> distinct (map fst (fold (\<lambda>(k, v). AList.update k v) ws d))"
  by (induction ws arbitrary: d) (auto simp: distinct_update)

lemma distinct_fold_delete: "distinct (map fst d) \<Longrightarrow> distinct (map fst (fold AList.delete ds d))"
  by (induction ds arbitrary: d) (auto simp: distinct_delete)

lemma map_of_rev_distinct: "distinct (map fst xs) \<Longrightarrow> map_of (rev xs) = map_of xs"
  by (metis distinct_rev map_of_inject_set rev_map set_rev)

lemma tx_Commit_abs:
  assumes "mem_ok m" "tx_ok t" "tx_Commit t m = (None, m')"
  shows "mem_ok m' \<and> mem_abs m' = tx_view t m"
proof -
  from assms have m': "m' = m\<lparr>me_data :=
      fold AList.delete (tx_deletes t) (fold (\<lambda>(k, v). AList.update k v) (tx_writes t) (me_data m))\<rparr>"
    by (auto simp: tx_Commit_def mem_ok_def tx_ok_def split: if_splits)
  have "mem_ok m'" using assms(1) by (simp add: m' mem_ok_def distinct_fold_update distinct_fold_delete)
  moreover have "mem_abs m' = tx_view t m"
    using assms(2) by (simp add: fun_eq_iff m' mem_abs_def tx_view_def map_of_fold_delete map_of_fold_update tx_ok_def
        map_of_rev_distinct split: option.split)
  ultimately show ?thesis ..
qed

lemma tx_Put_view: "tx_ok t \<Longrightarrow> tx_Put k v t = (None, t') \<Longrightarrow> tx_ok t' \<and> tx_view t' m = (tx_view t m)(k \<mapsto> v)"
proof -
  assume ok: "tx_ok t" and p: "tx_Put k v t = (None, t')"
  then have t': "t' = t\<lparr>tx_deletes := removeAll k (tx_deletes t), tx_writes := AList.update k v (tx_writes t)\<rparr>"
    by (auto simp: tx_Put_def split: if_splits)
  have "tx_ok t'" using ok by (auto simp: t' tx_ok_def distinct_update AList.dom_update)
  moreover have "tx_view t' m = (tx_view t m)(k \<mapsto> v)" by (auto simp: t' tx_view_def)
  ultimately show ?thesis ..
qed

lemma tx_Delete_view: "tx_ok t \<Longrightarrow> tx_Delete k t = (None, t') \<Longrightarrow> tx_ok t' \<and> tx_view t' m = (tx_view t m)(k := None)"
proof -
  assume ok: "tx_ok t" and p: "tx_Delete k t = (None, t')"
  then have t': "t' = t\<lparr>tx_writes := AList.delete k (tx_writes t), tx_deletes := List.insert k (tx_deletes t)\<rparr>"
    by (auto simp: tx_Delete_def split: if_splits)
  have "tx_ok t'" using ok by (auto simp: t' tx_ok_def distinct_delete set_alist_delete)
  moreover have "tx_view t' m = (tx_view t m)(k := None)" by (auto simp: t' tx_view_def)
  ultimately show ?thesis ..
qed

interpretation mem_kv: kv_backend memory_ops mem_abs tx_view mem_ok tx_ok
proof unfold_locales
  fix m m' :: Memory and t t' k v e
  show "tx_ok t \<and> tx_view t m = mem_abs m" if "mem_ok m" "bo_Begin memory_ops m = Inr t"
    using that by (auto simp: memory_ops_def Memory_Begin_def mem_ok_def tx_ok_def tx_view_def)
  show "tx_view t m k = Some v" if "mem_ok m" "tx_ok t" "bo_TxGet memory_ops k t m = Inr v"
    using that by (auto simp: memory_ops_def tx_Get_def Memory_Get_def tx_view_def mem_abs_def split: if_splits option.splits)
  show "tx_view t m k = None" if "mem_ok m" "tx_ok t" "bo_TxGet memory_ops k t m = Inl ErrNotFound"
    using that by (auto simp: memory_ops_def tx_Get_def Memory_Get_def tx_view_def mem_abs_def split: if_splits option.splits)
  show "tx_ok t' \<and> tx_view t' m = (tx_view t m)(k \<mapsto> v)" if "mem_ok m" "tx_ok t" "bo_TxPut memory_ops k v t = (None, t')"
    using that tx_Put_view by (simp add: memory_ops_def)
  show "tx_ok t' \<and> tx_view t' m = (tx_view t m)(k := None)" if "mem_ok m" "tx_ok t" "bo_TxDelete memory_ops k t = (None, t')"
    using that tx_Delete_view by (simp add: memory_ops_def)
  show "mem_ok m' \<and> mem_abs m' = tx_view t m" if "mem_ok m" "tx_ok t" "bo_TxCommit memory_ops t m = (None, m')"
    using that tx_Commit_abs by (simp add: memory_ops_def)
  show "m' = m" if "bo_TxCommit memory_ops t m = (Some e, m')"
    using that by (auto simp: memory_ops_def tx_Commit_def split: if_splits)
qed

section \<open>Scans\<close>

lemma kv_list_unique:
  assumes "sorted (map fst xs)" "distinct (map fst xs)" "sorted (map fst ys)" "distinct (map fst ys)" "map_of xs = map_of ys"
  shows "xs = ys"
proof -
  have "set (map fst xs) = set (map fst ys)" using assms(5) by (metis dom_map_of_conv_image_fst set_map)
  then have k: "map fst xs = map fst ys" using assms(1-4) by (intro sorted_distinct_set_unique)
  have e: "map (\<lambda>k. (k, the (map_of zs k))) (map fst zs) = zs" if "distinct (map fst zs)" for zs :: "('a \<times> 'b) list"
    unfolding map_map by (rule map_idI) (use that in \<open>auto simp: map_of_is_SomeI\<close>)
  from e [OF assms(2)] e [OF assms(4)] show ?thesis unfolding k assms(5) by simp
qed

lemma map_of_filter_key: "map_of (filter (\<lambda>(k, v). P k) d) k = (if P k then map_of d k else None)"
  by (induction d) auto

lemma distinct_filter_key: "distinct (map fst d) \<Longrightarrow> distinct (map fst (filter P d))"
  by (metis distinct_map_filter)

lemma sort_key_fst:
  "distinct (map fst d) \<Longrightarrow> sorted (map fst (sort_key fst d)) \<and> distinct (map fst (sort_key fst d)) \<and>
     map_of (sort_key fst (d :: kv_list)) = map_of d"
proof -
  assume d: "distinct (map fst d)"
  have m: "mset (map fst (sort_key fst d)) = mset (map fst d)" by simp
  then have "distinct (map fst (sort_key fst d))" using d mset_eq_imp_distinct_iff by blast
  moreover from this d have "map_of (sort_key fst d) = map_of d"
    by (simp add: map_of_inject_set)
  ultimately show ?thesis by simp
qed

lemma tx_merge_base_simps [simp]:
  "tx_merge_base t [] = []"
  "tx_merge_base t ((a, b) # base) =
     (if a \<in> set (tx_deletes t) then []
      else case map_of (tx_writes t) a of Some overlay \<Rightarrow> [(a, overlay)] | None \<Rightarrow> [(a, b)]) @ tx_merge_base t base"
  by (simp_all add: tx_merge_base_def)

lemma map_of_merge_base:
  "map_of (tx_merge_base t base) k =
     (if k \<in> set (tx_deletes t) then None
      else case map_of base k of None \<Rightarrow> None
        | Some v \<Rightarrow> (case map_of (tx_writes t) k of Some w \<Rightarrow> Some w | None \<Rightarrow> Some v))"
proof (induction base)
  case (Cons p base)
  obtain a b where p: "p = (a, b)" by fastforce
  from Cons show ?case
    by (cases "a \<in> set (tx_deletes t)"; cases "map_of (tx_writes t) a"; cases "a = k") (simp_all add: p)
qed simp

lemma keys_merge_base: "map fst (tx_merge_base t base) = filter (\<lambda>k. k \<notin> set (tx_deletes t)) (map fst base)"
proof (induction base)
  case (Cons p base)
  obtain a b where p: "p = (a, b)" by fastforce
  from Cons show ?case
    by (cases "a \<in> set (tx_deletes t)"; cases "map_of (tx_writes t) a") (simp_all add: p)
qed simp

lemma merge_new_spec:
  "distinct (map fst pairs) \<Longrightarrow> distinct (map fst ws) \<Longrightarrow>
     distinct (map fst (foldl (\<lambda>pairs (k, v). if \<not> HasPrefix k pre then pairs
        else if k \<in> fst ` set pairs then pairs else pairs @ [(k, v)]) pairs ws)) \<and>
     map_of (foldl (\<lambda>pairs (k, v). if \<not> HasPrefix k pre then pairs
        else if k \<in> fst ` set pairs then pairs else pairs @ [(k, v)]) pairs ws) k =
       (case map_of pairs k of Some v \<Rightarrow> Some v | None \<Rightarrow> if HasPrefix k pre then map_of ws k else None)"
proof (induction ws arbitrary: pairs)
  case (Cons w ws)
  obtain a b where w: "w = (a, b)" by fastforce
  let ?p = "if \<not> HasPrefix a pre then pairs else if a \<in> fst ` set pairs then pairs else pairs @ [(a, b)]"
  have "distinct (map fst ?p)" using Cons.prems(1) by auto
  from Cons.IH [OF this] Cons.prems w have IH: "distinct (map fst (foldl (\<lambda>pairs (k, v). if \<not> HasPrefix k pre then pairs
        else if k \<in> fst ` set pairs then pairs else pairs @ [(k, v)]) ?p ws))"
    "map_of (foldl (\<lambda>pairs (k, v). if \<not> HasPrefix k pre then pairs
        else if k \<in> fst ` set pairs then pairs else pairs @ [(k, v)]) ?p ws) k =
       (case map_of ?p k of Some v \<Rightarrow> Some v | None \<Rightarrow> if HasPrefix k pre then map_of ws k else None)" by simp_all
  have a: "a \<notin> fst ` set ws" using Cons.prems(2) w by auto
  have "(case map_of ?p k of Some v \<Rightarrow> Some v | None \<Rightarrow> if HasPrefix k pre then map_of ws k else None) =
      (case map_of pairs k of Some v \<Rightarrow> Some v | None \<Rightarrow> if HasPrefix k pre then map_of (w # ws) k else None)"
  proof -
    have m: "a \<in> fst ` set pairs \<longleftrightarrow> map_of pairs a \<noteq> None" by (metis map_of_eq_None_iff)
    have "map_of ws a = None" using a by (metis map_of_eq_None_iff)
    then show ?thesis unfolding m w
      by (cases "HasPrefix a pre"; cases "map_of pairs a"; cases "k = a"; cases "map_of pairs k") (auto simp: map_add_def)
  qed
  with IH w show ?case by simp
qed (auto split: option.splits)

lemma tx_scan_eq_commit_scan:
  assumes "mem_ok m" "tx_ok t" "tx_Commit t m = (None, m')"
  shows "tx_ScanPrefix pre t m = Memory_ScanPrefix pre m'"
proof -
  let ?base = "sort_key fst (filter (\<lambda>(k, v). HasPrefix k pre) (me_data m))"
  let ?new = "sort_key fst (filter (\<lambda>(k, v). HasPrefix k pre) (me_data m'))"
  let ?tx = "tx_merge_new t pre (tx_merge_base t ?base)"
  have c: "mem_ok m'" "mem_abs m' = tx_view t m" using tx_Commit_abs [OF assms] by auto
  have d: "distinct (map fst (filter P (me_data m)))" "distinct (map fst (filter P (me_data m')))" for P
    using assms(1) c(1) by (simp_all add: mem_ok_def distinct_filter_key)
  note base = sort_key_fst [OF d(1), of "\<lambda>(k, v). HasPrefix k pre"]
  note new = sort_key_fst [OF d(2), of "\<lambda>(k, v). HasPrefix k pre"]
  have "distinct (map fst (tx_merge_base t ?base))" using base by (simp add: keys_merge_base)
  from merge_new_spec [OF this, of "tx_writes t" pre] assms(2)
  have tx: "distinct (map fst ?tx)" "\<And>k. map_of ?tx k = (case map_of (tx_merge_base t ?base) k of Some v \<Rightarrow> Some v
      | None \<Rightarrow> if HasPrefix k pre then map_of (tx_writes t) k else None)"
    by (auto simp: tx_ok_def tx_merge_new_def)
  have "map_of ?tx k = map_of ?new k" for k
  proof -
    have b: "map_of ?base k = (if HasPrefix k pre then mem_abs m k else None)"
      using base by (simp add: map_of_filter_key mem_abs_def)
    have n: "map_of ?new k = (if HasPrefix k pre then tx_view t m k else None)"
      using new c(2) by (simp add: map_of_filter_key flip: mem_abs_def)
    have w: "k \<in> set (tx_deletes t) \<Longrightarrow> map_of (tx_writes t) k = None"
      using assms(2) by (auto simp: tx_ok_def map_of_eq_None_iff)
    show ?thesis unfolding tx(2) map_of_merge_base b n tx_view_def using w by (auto split: option.splits)
  qed
  then have "map_of (sort_key fst ?tx) = map_of ?new" using sort_key_fst [OF tx(1)] by auto
  then have "sort_key fst ?tx = ?new"
    using sort_key_fst [OF tx(1)] new by (intro kv_list_unique) auto
  then show ?thesis using assms c(1) by (simp add: tx_ScanPrefix_def Memory_ScanPrefix_def mem_ok_def tx_ok_def)
qed

section \<open>Properties\<close>

text \<open>The writes of a transaction, and what they do to the contents of a store.\<close>

datatype tx_op = TxPut bytes bytes | TxDelete bytes

fun tx_step :: "tx_op \<Rightarrow> mem_tx \<Rightarrow> mem_tx" where
  "tx_step (TxPut k v) t = snd (tx_Put k v t)"
| "tx_step (TxDelete k) t = snd (tx_Delete k t)"

fun kv_step :: "tx_op \<Rightarrow> (bytes \<rightharpoonup> bytes) \<Rightarrow> (bytes \<rightharpoonup> bytes)" where
  "kv_step (TxPut k v) s = s(k \<mapsto> v)"
| "kv_step (TxDelete k) s = s(k := None)"

lemma tx_steps_view:
  "tx_ok t \<Longrightarrow> tx_ok (fold tx_step ops t) \<and> tx_view (fold tx_step ops t) m = fold kv_step ops (tx_view t m)"
proof (induction ops arbitrary: t)
  case (Cons c ops)
  have "tx_ok (tx_step c t) \<and> tx_view (tx_step c t) m = kv_step c (tx_view t m)"
  proof (cases c)
    case (TxPut k v)
    obtain t' where "tx_Put k v t = (None, t')" using Cons.prems by (simp add: tx_Put_def tx_ok_def)
    with tx_Put_view [OF Cons.prems this] TxPut show ?thesis by simp
  next
    case (TxDelete k)
    obtain t' where "tx_Delete k t = (None, t')" using Cons.prems by (simp add: tx_Delete_def tx_ok_def)
    with tx_Delete_view [OF Cons.prems this] TxDelete show ?thesis by simp
  qed
  with Cons.IH show ?case by simp
qed simp

text \<open>C28: A transaction of the memory backend is atomic and reads its own writes. After any writes and deletes
  in a transaction on an open store, a read returns what those writes, applied in order to the store's
  contents, leave at the key; the commit succeeds and makes the store hold exactly that; and a prefix
  scan inside the transaction returns exactly, and in the same order, what the same scan of the store
  returns after the commit.\<close>

theorem memory_tx_atomic:
  assumes "mem_ok m" and "Memory_Begin m = Inr t0" and "t = fold tx_step ops t0"
  shows "tx_Get k t m = (case fold kv_step ops (mem_abs m) k of None \<Rightarrow> Inl ErrNotFound | Some v \<Rightarrow> Inr v) \<and>
    (\<exists>m'. tx_Commit t m = (None, m') \<and> mem_abs m' = fold kv_step ops (mem_abs m) \<and> mem_ok m' \<and>
          tx_ScanPrefix pre t m = Memory_ScanPrefix pre m')"
proof -
  have "tx_ok t0 \<and> tx_view t0 m = mem_abs m"
    using mem_kv.begin_ok [OF assms(1), of t0] assms(2) by (simp add: memory_ops_def)
  with tx_steps_view [of t0 ops m] assms(3)
  have t: "tx_ok t" "tx_view t m = fold kv_step ops (mem_abs m)" by auto
  have "tx_Get k t m = (case tx_view t m k of None \<Rightarrow> Inl ErrNotFound | Some v \<Rightarrow> Inr v)"
    using t(1) assms(1) by (auto simp: tx_Get_def tx_view_def Memory_Get_def mem_abs_def tx_ok_def mem_ok_def split: option.splits)
  moreover obtain m' where c: "tx_Commit t m = (None, m')"
    using t(1) assms(1) by (simp add: tx_Commit_def tx_ok_def mem_ok_def)
  ultimately show ?thesis
    using tx_Commit_abs [OF assms(1) t(1) c] tx_scan_eq_commit_scan [OF assms(1) t(1) c] t(2) by auto
qed

theorem memory_tx_atomic_witness:
  "let m = \<lparr>me_data = [(''b'', ''1''), (''a'', ''2'')], me_closed = False\<rparr>;
       t = fold tx_step [TxPut ''c'' ''3'', TxDelete ''b''] \<lparr>tx_writes = [], tx_deletes = [], tx_done = False\<rparr>
   in tx_ScanPrefix [] t m = Inr [(''a'', ''2''), (''c'', ''3'')] \<and>
      (\<exists>m'. tx_Commit t m = (None, m') \<and> tx_ScanPrefix [] t m = Memory_ScanPrefix [] m')"
proof -
  let ?m = "\<lparr>me_data = [(''b'', ''1''), (''a'', ''2'')], me_closed = False\<rparr>"
  let ?t0 = "\<lparr>tx_writes = [], tx_deletes = [], tx_done = False\<rparr>" and ?ops = "[TxPut ''c'' ''3'', TxDelete ''b'']"
  have "mem_ok ?m" "Memory_Begin ?m = Inr ?t0" by (simp_all add: mem_ok_def Memory_Begin_def)
  from memory_tx_atomic [OF this refl, of "''a''" ?ops "[]"]
  have "\<exists>m'. tx_Commit (fold tx_step ?ops ?t0) ?m = (None, m') \<and>
      tx_ScanPrefix [] (fold tx_step ?ops ?t0) ?m = Memory_ScanPrefix [] m'" by blast
  moreover have "tx_ScanPrefix [] (fold tx_step ?ops ?t0) ?m = Inr [(''a'', ''2''), (''c'', ''3'')]"
    by code_simp
  ultimately show ?thesis by (simp only: Let_def)
qed

end
