(* ===== verification/Shared_Factory.thy ===== *)
theory Shared_Factory
  imports Handoff Memory_Backend
begin

text \<open>
  The storage port \<^verbatim>\<open>BackendFactory\<close> (\<^verbatim>\<open>src/pkg/storageunit/factory.go\<close>) as a dictionary of operations and the
  locale \<open>backend_factory\<close> of what the hand-off relies on, and the shared in-memory factory
  (\<^verbatim>\<open>src/internal/sharedfactory/sharedfactory.go\<close>): one \<^verbatim>\<open>Backing\<close> per cluster, one \<^verbatim>\<open>Handle\<close> per node, and the
  fenced backends a handle returns.

  A store of the backing is created on the first open of its key and never replaced, so the pointer a
  fenced backend holds is identified with its key; an opened backend is identified with its mount and
  the epoch it was opened at. Latencies, hangs and the open timeline, which only a test observes, are left
  out; injected open faults are kept because they are an error path of the port.
\<close>

section \<open>The port\<close>

text \<open>State \<open>'h\<close> is what one node's factory holds, \<open>'w\<close> the shared storage. A successful open returns the epoch it
  opened at; the backend it returns is the pair of the mount and that epoch.\<close>

record ('h, 'w) factory_ops =
  fo_OpenUnit :: "MountRef \<Rightarrow> Epoch \<Rightarrow> 'h \<times> 'w \<Rightarrow> (string + Epoch) \<times> 'h \<times> 'w"
  fo_CloseUnit :: "MountRef \<Rightarrow> 'h \<times> 'w \<Rightarrow> string option \<times> 'h \<times> 'w"
  fo_CurrentEpoch :: "MountRef \<Rightarrow> 'h \<Rightarrow> Epoch option"
  fo_OpenUnits :: "'h \<Rightarrow> MountRef list"
  fo_DurableEpoch :: "MountRef \<Rightarrow> 'w \<Rightarrow> string + Epoch"
  fo_WriteServingMarker :: "MountRef \<Rightarrow> Epoch \<Rightarrow> 'w \<Rightarrow> string option \<times> 'w"
  fo_ReadServingMarker :: "MountRef \<Rightarrow> 'w \<Rightarrow> string + Epoch option"

text \<open>The laws, for mounts of the replica layout: \<open>durable\<close> is the durable writer epoch, \<open>marker\<close> the serving
  marker. An open lands strictly above the durable epoch and raises it to where it landed, unless the
  counter is at its maximum; a failed open may still have raised it. Markers move only by writes, and a
  write never lowers one.\<close>

locale backend_factory =
  fixes ops :: "('h, 'w) factory_ops" and durable :: "ReplicaUnit \<Rightarrow> 'w \<Rightarrow> Epoch" and marker :: "ReplicaUnit \<Rightarrow> 'w \<Rightarrow> Epoch option"
  assumes open_ok: "fo_OpenUnit ops (ReplicaMount ru) e (h, w) = (Inr opened, h', w') \<Longrightarrow> durable ru w \<noteq> -1 \<Longrightarrow>
      durable ru w < opened \<and> e \<le> opened \<and> durable ru w' = opened"
    and open_mono: "fo_OpenUnit ops (ReplicaMount ru) e (h, w) = (r, h', w') \<Longrightarrow> durable ru w \<noteq> -1 \<Longrightarrow> durable ru w \<le> durable ru w'"
    and open_frame: "fo_OpenUnit ops (ReplicaMount ru) e (h, w) = (r, h', w') \<Longrightarrow> ru' \<noteq> ru \<Longrightarrow> durable ru' w' = durable ru' w"
    and open_marker: "fo_OpenUnit ops (ReplicaMount ru) e (h, w) = (r, h', w') \<Longrightarrow> marker ru' w' = marker ru' w"
    and close_frame: "fo_CloseUnit ops (ReplicaMount ru) (h, w) = (r', h', w') \<Longrightarrow> durable ru' w' = durable ru' w \<and> marker ru' w' = marker ru' w"
    and durable_read: "fo_DurableEpoch ops (ReplicaMount ru) w = Inr e \<Longrightarrow> e = durable ru w"
    and mark_ok: "fo_WriteServingMarker ops (ReplicaMount ru) e w = (None, w') \<Longrightarrow>
      marker ru w' = Some (case marker ru w of None \<Rightarrow> e | Some c \<Rightarrow> max c e)"
    and mark_error: "fo_WriteServingMarker ops (ReplicaMount ru) e w = (Some err, w') \<Longrightarrow>
      marker ru w' = marker ru w \<or> marker ru w' = Some (case marker ru w of None \<Rightarrow> e | Some c \<Rightarrow> max c e)"
    and mark_frame: "fo_WriteServingMarker ops (ReplicaMount ru) e w = (r'', w') \<Longrightarrow>
      durable ru' w' = durable ru' w \<and> (ru' \<noteq> ru \<longrightarrow> marker ru' w' = marker ru' w)"
    and mark_read: "fo_ReadServingMarker ops (ReplicaMount ru) w = Inr m \<Longrightarrow> m = marker ru w"

section \<open>The backing\<close>

text \<open>A Go map read of an absent key gives the zero value.\<close>

definition get0 :: "('k \<rightharpoonup> 'v::zero) \<Rightarrow> 'k \<Rightarrow> 'v" where
  "get0 m k = (case m k of None \<Rightarrow> 0 | Some v \<Rightarrow> v)"

record Backing =
  bk_stores :: "GenUnit \<rightharpoonup> Memory"
  bk_epochs :: "GenUnit \<rightharpoonup> Epoch"
  bk_replicaStores :: "ReplicaUnit \<rightharpoonup> Memory"
  bk_replicaEpochs :: "ReplicaUnit \<rightharpoonup> Epoch"
  bk_openFaults :: "ReplicaUnit \<rightharpoonup> string"
  bk_strictReadFencing :: bool
  bk_replicaFlushes :: "ReplicaUnit \<Rightarrow> nat"
  bk_servingMarkers :: "ReplicaUnit \<rightharpoonup> Epoch"

definition NewBacking :: Backing where
  "NewBacking = \<lparr>bk_stores = Map.empty, bk_epochs = Map.empty, bk_replicaStores = Map.empty,
     bk_replicaEpochs = Map.empty, bk_openFaults = Map.empty, bk_strictReadFencing = True,
     bk_replicaFlushes = (\<lambda>_. 0), bk_servingMarkers = Map.empty\<rparr>"

definition storeForLocked :: "('k \<rightharpoonup> Memory) \<Rightarrow> 'k \<Rightarrow> 'k \<rightharpoonup> Memory" where
  "storeForLocked stores k = (case stores k of None \<Rightarrow> stores(k \<mapsto> Memory_New) | Some _ \<Rightarrow> stores)"

definition acquireLocked ::
    "('k \<rightharpoonup> Memory) \<Rightarrow> ('k \<rightharpoonup> Epoch) \<Rightarrow> 'k \<Rightarrow> Epoch \<Rightarrow> Epoch \<times> ('k \<rightharpoonup> Memory) \<times> ('k \<rightharpoonup> Epoch)" where
  "acquireLocked stores epochs k intended =
     (let floor = get0 epochs k + 1;
          opened = (if floor > intended then floor else intended)
      in (opened, storeForLocked stores k, epochs(k \<mapsto> opened)))"

definition bk_acquire :: "GenUnit \<Rightarrow> Epoch \<Rightarrow> Backing \<Rightarrow> Epoch \<times> Backing" where
  "bk_acquire gu intended b =
     (case acquireLocked (bk_stores b) (bk_epochs b) gu intended of
        (opened, ss, es) \<Rightarrow> (opened, b\<lparr>bk_stores := ss, bk_epochs := es\<rparr>))"

definition bk_acquireReplica :: "ReplicaUnit \<Rightarrow> Epoch \<Rightarrow> Backing \<Rightarrow> Epoch \<times> Backing" where
  "bk_acquireReplica ru intended b =
     (case acquireLocked (bk_replicaStores b) (bk_replicaEpochs b) ru intended of
        (opened, ss, es) \<Rightarrow> (opened, b\<lparr>bk_replicaStores := ss, bk_replicaEpochs := es\<rparr>))"

definition bk_durableEpoch :: "GenUnit \<Rightarrow> Backing \<Rightarrow> Epoch" where
  "bk_durableEpoch gu b = get0 (bk_epochs b) gu"

definition bk_replicaDurableEpoch :: "ReplicaUnit \<Rightarrow> Backing \<Rightarrow> Epoch" where
  "bk_replicaDurableEpoch ru b = get0 (bk_replicaEpochs b) ru"

text \<open>\<^verbatim>\<open>wipeStore\<close>: scan the keys with the empty prefix, then delete each.\<close>

definition wipeStore :: "Memory \<Rightarrow> Memory" where
  "wipeStore s =
     (case Memory_ScanPrefix [] s of
        Inl _ \<Rightarrow> s
      | Inr kvs \<Rightarrow> fold (\<lambda>k s. snd (Memory_Delete k s)) (map fst kvs) s)"

definition wipeKeyed :: "('k \<rightharpoonup> Memory) \<Rightarrow> 'k \<Rightarrow> 'k \<rightharpoonup> Memory" where
  "wipeKeyed stores k = (case stores k of None \<Rightarrow> stores | Some s \<Rightarrow> stores(k \<mapsto> wipeStore s))"

definition bk_writeServingMarker :: "ReplicaUnit \<Rightarrow> Epoch \<Rightarrow> Backing \<Rightarrow> Backing" where
  "bk_writeServingMarker ru epoch b =
     (if (case bk_servingMarkers b ru of None \<Rightarrow> False | Some cur \<Rightarrow> cur \<ge> epoch) then b
      else b\<lparr>bk_servingMarkers := (bk_servingMarkers b)(ru \<mapsto> epoch)\<rparr>)"

definition bk_readServingMarker :: "ReplicaUnit \<Rightarrow> Backing \<Rightarrow> Epoch option" where
  "bk_readServingMarker ru b = bk_servingMarkers b ru"

section \<open>The handle\<close>

record Handle =
  ha_open :: "(GenUnit \<times> Epoch) list"
  ha_openReplica :: "(ReplicaUnit \<times> Epoch) list"

definition NewHandle :: Handle where
  "NewHandle = \<lparr>ha_open = [], ha_openReplica = []\<rparr>"

definition already_open :: "string \<Rightarrow> Epoch \<Rightarrow> Epoch \<Rightarrow> string" where
  "already_open what cur epoch =
     ''sharedfactory: '' @ what @ '' already open on this handle at epoch '' @ format_uint (unat cur) @
     '', refusing open at '' @ format_uint (unat epoch)"

definition openSole :: "GenUnit \<Rightarrow> Epoch \<Rightarrow> Handle \<times> Backing \<Rightarrow> (string + Epoch) \<times> Handle \<times> Backing" where
  "openSole gu epoch s =
     (if (case map_of (ha_open (fst s)) gu of None \<Rightarrow> False | Some cur \<Rightarrow> epoch \<le> cur)
      then (Inl (already_open (''unit '' @ GenUnit_String gu) (the (map_of (ha_open (fst s)) gu)) epoch), s)
      else case bk_acquire gu epoch (snd s) of
             (opened, b) \<Rightarrow> (Inr opened, (fst s)\<lparr>ha_open := AList.update gu opened (ha_open (fst s))\<rparr>, b))"

definition OpenReplicaUnit :: "ReplicaUnit \<Rightarrow> Epoch \<Rightarrow> Handle \<times> Backing \<Rightarrow> (string + Epoch) \<times> Handle \<times> Backing" where
  "OpenReplicaUnit ru epoch s =
     (case bk_openFaults (snd s) ru of
        Some f \<Rightarrow> (Inl f, s)
      | None \<Rightarrow>
          if (case map_of (ha_openReplica (fst s)) ru of None \<Rightarrow> False | Some cur \<Rightarrow> epoch \<le> cur)
          then (Inl (already_open (''replica '' @ ReplicaUnit_String ru) (the (map_of (ha_openReplica (fst s)) ru)) epoch), s)
          else case bk_acquireReplica ru epoch (snd s) of
                 (opened, b) \<Rightarrow>
                   (Inr opened, (fst s)\<lparr>ha_openReplica := AList.update ru opened (ha_openReplica (fst s))\<rparr>, b))"

definition closeSole :: "GenUnit \<Rightarrow> Handle \<Rightarrow> Handle" where
  "closeSole gu h = h\<lparr>ha_open := AList.delete gu (ha_open h)\<rparr>"

definition CloseReplicaUnit :: "ReplicaUnit \<Rightarrow> Handle \<Rightarrow> Handle" where
  "CloseReplicaUnit ru h = h\<lparr>ha_openReplica := AList.delete ru (ha_openReplica h)\<rparr>"

definition OpenUnit :: "MountRef \<Rightarrow> Epoch \<Rightarrow> Handle \<times> Backing \<Rightarrow> (string + Epoch) \<times> Handle \<times> Backing" where
  "OpenUnit m epoch s = (if mr_replicated m then OpenReplicaUnit (mr_ru m) epoch s else openSole (mr_Unit m) epoch s)"

definition CloseUnit :: "MountRef \<Rightarrow> Handle \<times> Backing \<Rightarrow> string option \<times> Handle \<times> Backing" where
  "CloseUnit m s =
     (None, if mr_replicated m then CloseReplicaUnit (mr_ru m) (fst s) else closeSole (mr_Unit m) (fst s), snd s)"

definition CurrentEpoch :: "MountRef \<Rightarrow> Handle \<Rightarrow> Epoch option" where
  "CurrentEpoch m h = (if mr_replicated m then map_of (ha_openReplica h) (mr_ru m) else map_of (ha_open h) (mr_Unit m))"

definition OpenUnits :: "Handle \<Rightarrow> MountRef list" where
  "OpenUnits h = sort (map (SoleMount \<circ> fst) (ha_open h) @ map (ReplicaMount \<circ> fst) (ha_openReplica h))"

definition DurableEpoch :: "MountRef \<Rightarrow> Backing \<Rightarrow> string + Epoch" where
  "DurableEpoch m b =
     Inr (if mr_replicated m then bk_replicaDurableEpoch (mr_ru m) b else bk_durableEpoch (mr_Unit m) b)"

definition WriteServingMarker :: "MountRef \<Rightarrow> Epoch \<Rightarrow> Backing \<Rightarrow> string option \<times> Backing" where
  "WriteServingMarker m epoch b = (None, bk_writeServingMarker (mr_ru m) epoch b)"

definition ReadServingMarker :: "MountRef \<Rightarrow> Backing \<Rightarrow> string + Epoch option" where
  "ReadServingMarker m b = Inr (bk_readServingMarker (mr_ru m) b)"

definition shared_factory_ops :: "(Handle, Backing) factory_ops" where
  "shared_factory_ops = \<lparr>fo_OpenUnit = OpenUnit, fo_CloseUnit = CloseUnit, fo_CurrentEpoch = CurrentEpoch,
     fo_OpenUnits = OpenUnits, fo_DurableEpoch = DurableEpoch, fo_WriteServingMarker = WriteServingMarker,
     fo_ReadServingMarker = ReadServingMarker\<rparr>"

section \<open>The fenced backends\<close>

text \<open>\<^verbatim>\<open>fencedCore\<close>, generic in the key like the source: it works on the store and the durable epoch of its key.\<close>

definition store_at :: "('k \<rightharpoonup> Memory) \<Rightarrow> 'k \<Rightarrow> Memory" where
  "store_at stores k = (case stores k of None \<Rightarrow> Memory_New | Some m \<Rightarrow> m)"

definition core_fenced :: "('k \<rightharpoonup> Epoch) \<Rightarrow> 'k \<Rightarrow> Epoch \<Rightarrow> bool" where
  "core_fenced epochs unit epoch \<longleftrightarrow> get0 epochs unit > epoch"

definition core_Put ::
    "('k \<rightharpoonup> Epoch) \<Rightarrow> 'k \<Rightarrow> Epoch \<Rightarrow> bytes \<Rightarrow> bytes \<Rightarrow> ('k \<rightharpoonup> Memory) \<Rightarrow> backend_error option \<times> ('k \<rightharpoonup> Memory)" where
  "core_Put epochs unit epoch key v stores =
     (if core_fenced epochs unit epoch then (Some ErrFenced, stores)
      else case Memory_Put key v (store_at stores unit) of (e, m) \<Rightarrow> (e, stores(unit \<mapsto> m)))"

definition core_Delete ::
    "('k \<rightharpoonup> Epoch) \<Rightarrow> 'k \<Rightarrow> Epoch \<Rightarrow> bytes \<Rightarrow> ('k \<rightharpoonup> Memory) \<Rightarrow> backend_error option \<times> ('k \<rightharpoonup> Memory)" where
  "core_Delete epochs unit epoch key stores =
     (if core_fenced epochs unit epoch then (Some ErrFenced, stores)
      else case Memory_Delete key (store_at stores unit) of (e, m) \<Rightarrow> (e, stores(unit \<mapsto> m)))"

definition core_Begin :: "('k \<rightharpoonup> Epoch) \<Rightarrow> 'k \<Rightarrow> Epoch \<Rightarrow> ('k \<rightharpoonup> Memory) \<Rightarrow> backend_error + mem_tx" where
  "core_Begin epochs unit epoch stores =
     (if core_fenced epochs unit epoch then Inl ErrFenced else Memory_Begin (store_at stores unit))"

definition core_Commit :: "'k \<Rightarrow> mem_tx \<Rightarrow> ('k \<rightharpoonup> Memory) \<Rightarrow> backend_error option \<times> ('k \<rightharpoonup> Memory)" where
  "core_Commit unit t stores =
     (case tx_Commit t (store_at stores unit) of
        (Some e, _) \<Rightarrow> (Some e, stores)
      | (None, m) \<Rightarrow> (None, stores(unit \<mapsto> m)))"

text \<open>\<^verbatim>\<open>fencedBackend\<close> (sole layout): reads pass even when fenced. \<^verbatim>\<open>fencedReplicaBackend\<close>: reads are fenced in the
  strict mode. A transaction of either is a transaction of the store.\<close>

definition fenced_sole_ops :: "GenUnit \<Rightarrow> Epoch \<Rightarrow> (Backing, mem_tx) backend_ops" where
  "fenced_sole_ops gu epoch =
     \<lparr>bo_Put = (\<lambda>k v b. case core_Put (bk_epochs b) gu epoch k v (bk_stores b) of (e, ss) \<Rightarrow> (e, b\<lparr>bk_stores := ss\<rparr>)),
      bo_Get = (\<lambda>k b. Memory_Get k (store_at (bk_stores b) gu)),
      bo_Delete = (\<lambda>k b. case core_Delete (bk_epochs b) gu epoch k (bk_stores b) of (e, ss) \<Rightarrow> (e, b\<lparr>bk_stores := ss\<rparr>)),
      bo_ScanPrefix = (\<lambda>p b. Memory_ScanPrefix p (store_at (bk_stores b) gu)),
      bo_Begin = (\<lambda>b. core_Begin (bk_epochs b) gu epoch (bk_stores b)),
      bo_TxGet = (\<lambda>k t b. tx_Get k t (store_at (bk_stores b) gu)),
      bo_TxPut = tx_Put, bo_TxDelete = tx_Delete,
      bo_TxScanPrefix = (\<lambda>p t b. tx_ScanPrefix p t (store_at (bk_stores b) gu)),
      bo_TxCommit = (\<lambda>t b. case core_Commit gu t (bk_stores b) of (e, ss) \<Rightarrow> (e, b\<lparr>bk_stores := ss\<rparr>))\<rparr>"

definition fenced_replica_ops :: "ReplicaUnit \<Rightarrow> Epoch \<Rightarrow> (Backing, mem_tx) backend_ops" where
  "fenced_replica_ops ru epoch =
     \<lparr>bo_Put = (\<lambda>k v b. case core_Put (bk_replicaEpochs b) ru epoch k v (bk_replicaStores b) of
                          (e, ss) \<Rightarrow> (e, b\<lparr>bk_replicaStores := ss\<rparr>)),
      bo_Get = (\<lambda>k b. if bk_strictReadFencing b \<and> core_fenced (bk_replicaEpochs b) ru epoch then Inl ErrFenced
                      else Memory_Get k (store_at (bk_replicaStores b) ru)),
      bo_Delete = (\<lambda>k b. case core_Delete (bk_replicaEpochs b) ru epoch k (bk_replicaStores b) of
                           (e, ss) \<Rightarrow> (e, b\<lparr>bk_replicaStores := ss\<rparr>)),
      bo_ScanPrefix = (\<lambda>p b. if bk_strictReadFencing b \<and> core_fenced (bk_replicaEpochs b) ru epoch then Inl ErrFenced
                             else Memory_ScanPrefix p (store_at (bk_replicaStores b) ru)),
      bo_Begin = (\<lambda>b. core_Begin (bk_replicaEpochs b) ru epoch (bk_replicaStores b)),
      bo_TxGet = (\<lambda>k t b. tx_Get k t (store_at (bk_replicaStores b) ru)),
      bo_TxPut = tx_Put, bo_TxDelete = tx_Delete,
      bo_TxScanPrefix = (\<lambda>p t b. tx_ScanPrefix p t (store_at (bk_replicaStores b) ru)),
      bo_TxCommit = (\<lambda>t b. case core_Commit ru t (bk_replicaStores b) of (e, ss) \<Rightarrow> (e, b\<lparr>bk_replicaStores := ss\<rparr>))\<rparr>"

definition fenced_Flush :: "ReplicaUnit \<Rightarrow> Epoch \<Rightarrow> Backing \<Rightarrow> backend_error option \<times> Backing" where
  "fenced_Flush ru epoch b =
     (if core_fenced (bk_replicaEpochs b) ru epoch then Some ErrFenced else None,
      b\<lparr>bk_replicaFlushes := (bk_replicaFlushes b)(ru := bk_replicaFlushes b ru + 1)\<rparr>)"

section \<open>The shared factory keeps the contract\<close>

lemma get0_upd [simp]: "get0 (m(k \<mapsto> v)) k' = (if k' = k then v else get0 m k')"
  by (simp add: get0_def)

lemma acquireLocked_epoch:
  assumes "acquireLocked ss es k e = (opened, ss', es')"
  shows "es' = es(k \<mapsto> opened)" "ss' = storeForLocked ss k" "get0 es k \<noteq> -1 \<Longrightarrow> get0 es k < opened \<and> e \<le> opened"
proof -
  show "es' = es(k \<mapsto> opened)" "ss' = storeForLocked ss k" using assms by (auto simp: acquireLocked_def Let_def)
  assume "get0 es k \<noteq> -1"
  then have "get0 es k < get0 es k + 1" by (rule u64_succ_less)
  with assms show "get0 es k < opened \<and> e \<le> opened" by (auto simp: acquireLocked_def Let_def)
qed

lemma store_at_storeFor [simp]: "store_at (storeForLocked ss k) k' = store_at ss k'"
  by (auto simp: store_at_def storeForLocked_def split: option.split)

lemma store_at_upd [simp]: "store_at (ss(k \<mapsto> m)) k' = (if k' = k then m else store_at ss k')"
  by (simp add: store_at_def)

lemma OpenReplicaUnit_cases:
  assumes "OpenReplicaUnit ru e (h, b) = (r, h', b')"
  shows "(\<exists>msg. r = Inl msg) \<and> h' = h \<and> b' = b \<or>
    (\<exists>opened. r = Inr opened \<and> b' = b\<lparr>bk_replicaStores := storeForLocked (bk_replicaStores b) ru,
        bk_replicaEpochs := (bk_replicaEpochs b)(ru \<mapsto> opened)\<rparr> \<and>
      h' = h\<lparr>ha_openReplica := AList.update ru opened (ha_openReplica h)\<rparr> \<and>
      (get0 (bk_replicaEpochs b) ru \<noteq> -1 \<longrightarrow> get0 (bk_replicaEpochs b) ru < opened \<and> e \<le> opened))"
proof -
  obtain opened ss es where a: "acquireLocked (bk_replicaStores b) (bk_replicaEpochs b) ru e = (opened, ss, es)"
    by (metis prod_cases3)
  from assms acquireLocked_epoch [OF a] a show ?thesis
    by (auto simp: OpenReplicaUnit_def bk_acquireReplica_def split: option.splits if_splits)
qed

lemma openSole_cases:
  assumes "openSole gu e (h, b) = (r, h', b')"
  shows "(\<exists>msg. r = Inl msg) \<and> h' = h \<and> b' = b \<or>
    (\<exists>opened. r = Inr opened \<and> b' = b\<lparr>bk_stores := storeForLocked (bk_stores b) gu,
        bk_epochs := (bk_epochs b)(gu \<mapsto> opened)\<rparr> \<and>
      h' = h\<lparr>ha_open := AList.update gu opened (ha_open h)\<rparr> \<and>
      (get0 (bk_epochs b) gu \<noteq> -1 \<longrightarrow> get0 (bk_epochs b) gu < opened \<and> e \<le> opened))"
proof -
  obtain opened ss es where a: "acquireLocked (bk_stores b) (bk_epochs b) gu e = (opened, ss, es)" by (metis prod_cases3)
  from assms acquireLocked_epoch [OF a] a show ?thesis
    by (auto simp: openSole_def bk_acquire_def split: option.splits if_splits)
qed

lemma marker_write:
  "bk_readServingMarker ru' (bk_writeServingMarker ru e b) =
     (if ru' = ru then Some (case bk_readServingMarker ru b of None \<Rightarrow> e | Some c \<Rightarrow> max c e)
      else bk_readServingMarker ru' b)"
  by (auto simp: bk_readServingMarker_def bk_writeServingMarker_def max_def split: option.split)

interpretation shared: backend_factory shared_factory_ops bk_replicaDurableEpoch bk_readServingMarker
proof unfold_locales
  fix ru e h b opened h' b'
  assume "fo_OpenUnit shared_factory_ops (ReplicaMount ru) e (h, b) = (Inr opened, h', b')" "bk_replicaDurableEpoch ru b \<noteq> -1"
  then show "bk_replicaDurableEpoch ru b < opened \<and> e \<le> opened \<and> bk_replicaDurableEpoch ru b' = opened"
    using OpenReplicaUnit_cases [of ru e h b "Inr opened" h' b']
    by (auto simp: shared_factory_ops_def OpenUnit_def ReplicaMount_def bk_replicaDurableEpoch_def)
next
  fix ru e h b r h' b'
  assume "fo_OpenUnit shared_factory_ops (ReplicaMount ru) e (h, b) = (r, h', b')" "bk_replicaDurableEpoch ru b \<noteq> -1"
  then show "bk_replicaDurableEpoch ru b \<le> bk_replicaDurableEpoch ru b'"
    using OpenReplicaUnit_cases [of ru e h b r h' b']
    by (auto simp: shared_factory_ops_def OpenUnit_def ReplicaMount_def bk_replicaDurableEpoch_def)
next
  fix ru e h b r h' b' and ru' :: ReplicaUnit
  assume o: "fo_OpenUnit shared_factory_ops (ReplicaMount ru) e (h, b) = (r, h', b')"
  then show "bk_readServingMarker ru' b' = bk_readServingMarker ru' b"
    using OpenReplicaUnit_cases [of ru e h b r h' b']
    by (auto simp: shared_factory_ops_def OpenUnit_def ReplicaMount_def bk_readServingMarker_def)
  assume "ru' \<noteq> ru"
  with o show "bk_replicaDurableEpoch ru' b' = bk_replicaDurableEpoch ru' b"
    using OpenReplicaUnit_cases [of ru e h b r h' b']
    by (auto simp: shared_factory_ops_def OpenUnit_def ReplicaMount_def bk_replicaDurableEpoch_def)
qed (auto simp: shared_factory_ops_def CloseUnit_def DurableEpoch_def WriteServingMarker_def ReadServingMarker_def
    ReplicaMount_def marker_write, auto simp: bk_writeServingMarker_def bk_replicaDurableEpoch_def)

section \<open>The fenced backends keep the backend contract\<close>

lemma core_Commit_ok:
  assumes "mem_ok (store_at ss k)" "tx_ok t" "core_Commit k t ss = (None, ss')"
  shows "mem_ok (store_at ss' k) \<and> mem_abs (store_at ss' k) = tx_view t (store_at ss k)"
  using assms tx_Commit_abs [of "store_at ss k" t]
  by (auto simp: core_Commit_def split: prod.splits option.splits)

interpretation fenced_replica_kv: kv_backend "fenced_replica_ops ru e" "\<lambda>b. mem_abs (store_at (bk_replicaStores b) ru)"
  "\<lambda>t b. tx_view t (store_at (bk_replicaStores b) ru)" "\<lambda>b. mem_ok (store_at (bk_replicaStores b) ru)" tx_ok for ru e
proof unfold_locales
  fix b t assume "mem_ok (store_at (bk_replicaStores b) ru)" "bo_Begin (fenced_replica_ops ru e) b = Inr t"
  then show "tx_ok t \<and> tx_view t (store_at (bk_replicaStores b) ru) = mem_abs (store_at (bk_replicaStores b) ru)"
    using mem_kv.begin_ok [of "store_at (bk_replicaStores b) ru" t]
    by (auto simp: fenced_replica_ops_def core_Begin_def memory_ops_def split: if_splits)
next
  fix b t k v assume "mem_ok (store_at (bk_replicaStores b) ru)" "tx_ok t" "bo_TxGet (fenced_replica_ops ru e) k t b = Inr v"
  then show "tx_view t (store_at (bk_replicaStores b) ru) k = Some v"
    using mem_kv.txget_ok [of "store_at (bk_replicaStores b) ru" t k v] by (simp add: fenced_replica_ops_def memory_ops_def)
next
  fix b t k assume "mem_ok (store_at (bk_replicaStores b) ru)" "tx_ok t" "bo_TxGet (fenced_replica_ops ru e) k t b = Inl ErrNotFound"
  then show "tx_view t (store_at (bk_replicaStores b) ru) k = None"
    using mem_kv.txget_absent [of "store_at (bk_replicaStores b) ru" t k] by (simp add: fenced_replica_ops_def memory_ops_def)
next
  fix b t k v t' assume "mem_ok (store_at (bk_replicaStores b) ru)" "tx_ok t" "bo_TxPut (fenced_replica_ops ru e) k v t = (None, t')"
  then show "tx_ok t' \<and> tx_view t' (store_at (bk_replicaStores b) ru) = (tx_view t (store_at (bk_replicaStores b) ru))(k \<mapsto> v)"
    using mem_kv.txput_ok [of "store_at (bk_replicaStores b) ru" t k v t'] by (simp add: fenced_replica_ops_def memory_ops_def)
next
  fix b t k t' assume "mem_ok (store_at (bk_replicaStores b) ru)" "tx_ok t" "bo_TxDelete (fenced_replica_ops ru e) k t = (None, t')"
  then show "tx_ok t' \<and> tx_view t' (store_at (bk_replicaStores b) ru) = (tx_view t (store_at (bk_replicaStores b) ru))(k := None)"
    using mem_kv.txdelete_ok [of "store_at (bk_replicaStores b) ru" t k t'] by (simp add: fenced_replica_ops_def memory_ops_def)
next
  fix b t b' assume "mem_ok (store_at (bk_replicaStores b) ru)" "tx_ok t" "bo_TxCommit (fenced_replica_ops ru e) t b = (None, b')"
  then show "mem_ok (store_at (bk_replicaStores b') ru) \<and>
      mem_abs (store_at (bk_replicaStores b') ru) = tx_view t (store_at (bk_replicaStores b) ru)"
    using core_Commit_ok [of "bk_replicaStores b" ru t] by (auto simp: fenced_replica_ops_def split: prod.splits)
next
  fix b t x b' assume "bo_TxCommit (fenced_replica_ops ru e) t b = (Some x, b')"
  then show "b' = b" by (auto simp: fenced_replica_ops_def core_Commit_def split: prod.splits option.splits)
qed

interpretation fenced_sole_kv: kv_backend "fenced_sole_ops gu e" "\<lambda>b. mem_abs (store_at (bk_stores b) gu)"
  "\<lambda>t b. tx_view t (store_at (bk_stores b) gu)" "\<lambda>b. mem_ok (store_at (bk_stores b) gu)" tx_ok for gu e
proof unfold_locales
  fix b t assume "mem_ok (store_at (bk_stores b) gu)" "bo_Begin (fenced_sole_ops gu e) b = Inr t"
  then show "tx_ok t \<and> tx_view t (store_at (bk_stores b) gu) = mem_abs (store_at (bk_stores b) gu)"
    using mem_kv.begin_ok [of "store_at (bk_stores b) gu" t]
    by (auto simp: fenced_sole_ops_def core_Begin_def memory_ops_def split: if_splits)
next
  fix b t k v assume "mem_ok (store_at (bk_stores b) gu)" "tx_ok t" "bo_TxGet (fenced_sole_ops gu e) k t b = Inr v"
  then show "tx_view t (store_at (bk_stores b) gu) k = Some v"
    using mem_kv.txget_ok [of "store_at (bk_stores b) gu" t k v] by (simp add: fenced_sole_ops_def memory_ops_def)
next
  fix b t k assume "mem_ok (store_at (bk_stores b) gu)" "tx_ok t" "bo_TxGet (fenced_sole_ops gu e) k t b = Inl ErrNotFound"
  then show "tx_view t (store_at (bk_stores b) gu) k = None"
    using mem_kv.txget_absent [of "store_at (bk_stores b) gu" t k] by (simp add: fenced_sole_ops_def memory_ops_def)
next
  fix b t k v t' assume "mem_ok (store_at (bk_stores b) gu)" "tx_ok t" "bo_TxPut (fenced_sole_ops gu e) k v t = (None, t')"
  then show "tx_ok t' \<and> tx_view t' (store_at (bk_stores b) gu) = (tx_view t (store_at (bk_stores b) gu))(k \<mapsto> v)"
    using mem_kv.txput_ok [of "store_at (bk_stores b) gu" t k v t'] by (simp add: fenced_sole_ops_def memory_ops_def)
next
  fix b t k t' assume "mem_ok (store_at (bk_stores b) gu)" "tx_ok t" "bo_TxDelete (fenced_sole_ops gu e) k t = (None, t')"
  then show "tx_ok t' \<and> tx_view t' (store_at (bk_stores b) gu) = (tx_view t (store_at (bk_stores b) gu))(k := None)"
    using mem_kv.txdelete_ok [of "store_at (bk_stores b) gu" t k t'] by (simp add: fenced_sole_ops_def memory_ops_def)
next
  fix b t b' assume "mem_ok (store_at (bk_stores b) gu)" "tx_ok t" "bo_TxCommit (fenced_sole_ops gu e) t b = (None, b')"
  then show "mem_ok (store_at (bk_stores b') gu) \<and> mem_abs (store_at (bk_stores b') gu) = tx_view t (store_at (bk_stores b) gu)"
    using core_Commit_ok [of "bk_stores b" gu t] by (auto simp: fenced_sole_ops_def split: prod.splits)
next
  fix b t x b' assume "bo_TxCommit (fenced_sole_ops gu e) t b = (Some x, b')"
  then show "b' = b" by (auto simp: fenced_sole_ops_def core_Commit_def split: prod.splits option.splits)
qed

section \<open>Runs\<close>

text \<open>A mount's durable epoch and contents, in either layout, and the backend opened on it at an epoch.\<close>

definition mount_epoch :: "MountRef \<Rightarrow> Backing \<Rightarrow> Epoch" where
  "mount_epoch m b = (if mr_replicated m then bk_replicaDurableEpoch (mr_ru m) b else bk_durableEpoch (mr_Unit m) b)"

definition mount_store :: "MountRef \<Rightarrow> Backing \<Rightarrow> Memory" where
  "mount_store m b = (if mr_replicated m then store_at (bk_replicaStores b) (mr_ru m) else store_at (bk_stores b) (mr_Unit m))"

definition mount_ops :: "MountRef \<Rightarrow> Epoch \<Rightarrow> (Backing, mem_tx) backend_ops" where
  "mount_ops m e = (if mr_replicated m then fenced_replica_ops (mr_ru m) e else fenced_sole_ops (mr_Unit m) e)"

text \<open>The nodes' handles, the shared backing, and the log of opens, newest first. Any node may open or close any
  mount, and any backend ever opened may be used, also after its mount was closed or taken over.\<close>

record fleet =
  fl_handles :: "NodeID \<Rightarrow> Handle"
  fl_backing :: Backing
  fl_opened :: "(MountRef \<times> Epoch) list"

definition fleet_init :: fleet where
  "fleet_init = \<lparr>fl_handles = (\<lambda>_. NewHandle), fl_backing = NewBacking, fl_opened = []\<rparr>"

inductive fleet_step :: "fleet \<Rightarrow> fleet \<Rightarrow> bool" where
  open_ok: "mount_ref_ok m \<Longrightarrow> mount_epoch m (fl_backing s) \<noteq> -1 \<Longrightarrow>
    OpenUnit m e (fl_handles s n, fl_backing s) = (Inr opened, h, b) \<Longrightarrow>
    fleet_step s \<lparr>fl_handles = (fl_handles s)(n := h), fl_backing = b, fl_opened = (m, opened) # fl_opened s\<rparr>"
| open_fail: "OpenUnit m e (fl_handles s n, fl_backing s) = (Inl err, h, b) \<Longrightarrow>
    fleet_step s (s\<lparr>fl_handles := (fl_handles s)(n := h), fl_backing := b\<rparr>)"
| close: "CloseUnit m (fl_handles s n, fl_backing s) = (r, h, b) \<Longrightarrow>
    fleet_step s (s\<lparr>fl_handles := (fl_handles s)(n := h), fl_backing := b\<rparr>)"
| put: "(m, e) \<in> set (fl_opened s) \<Longrightarrow> bo_Put (mount_ops m e) k v (fl_backing s) = (r', b) \<Longrightarrow>
    fleet_step s (s\<lparr>fl_backing := b\<rparr>)"
| delete: "(m, e) \<in> set (fl_opened s) \<Longrightarrow> bo_Delete (mount_ops m e) k (fl_backing s) = (r', b) \<Longrightarrow>
    fleet_step s (s\<lparr>fl_backing := b\<rparr>)"
| mark: "WriteServingMarker m e (fl_backing s) = (r, b) \<Longrightarrow> fleet_step s (s\<lparr>fl_backing := b\<rparr>)"

inductive_cases fleet_stepE: "fleet_step s t"

text \<open>The epochs opened for a mount, newest first.\<close>

definition opens_of :: "MountRef \<Rightarrow> fleet \<Rightarrow> Epoch list" where
  "opens_of m s = map snd (filter (\<lambda>x. fst x = m) (fl_opened s))"

definition fleet_inv :: "fleet \<Rightarrow> bool" where
  "fleet_inv s \<longleftrightarrow> (\<forall>x\<in>set (fl_opened s). mount_ref_ok (fst x)) \<and>
     (\<forall>m. mount_ref_ok m \<longrightarrow> mem_ok (mount_store m (fl_backing s)) \<and> sorted_wrt (>) (opens_of m s) \<and>
        mount_epoch m (fl_backing s) = (if opens_of m s = [] then 0 else hd (opens_of m s)))"

lemma mount_ref_eq:
  "mount_ref_ok m \<Longrightarrow> mount_ref_ok m' \<Longrightarrow>
     m = m' \<longleftrightarrow> mr_replicated m = mr_replicated m' \<and> (if mr_replicated m then mr_ru m = mr_ru m' else mr_Unit m = mr_Unit m')"
  by (auto simp: mount_ref_ok_def mr_Unit_def mr_Replica_def intro!: MountRef.expand ReplicaUnit.expand split: if_splits)

lemma OpenUnit_ok:
  assumes "OpenUnit m e (h, b) = (Inr opened, h', b')" "mount_epoch m b \<noteq> -1" "mount_ref_ok m"
  shows "mount_epoch m b < opened \<and> e \<le> opened \<and> (\<forall>m'. mount_store m' b' = mount_store m' b) \<and>
    (\<forall>m'. mount_ref_ok m' \<longrightarrow> mount_epoch m' b' = (if m' = m then opened else mount_epoch m' b))"
proof (cases "mr_replicated m")
  case True
  with assms OpenReplicaUnit_cases [of "mr_ru m" e h b "Inr opened" h' b'] show ?thesis
    by (auto simp: OpenUnit_def mount_epoch_def mount_store_def bk_replicaDurableEpoch_def bk_durableEpoch_def mount_ref_eq)
next
  case False
  with assms openSole_cases [of "mr_Unit m" e h b "Inr opened" h' b'] show ?thesis
    by (auto simp: OpenUnit_def mount_epoch_def mount_store_def bk_replicaDurableEpoch_def bk_durableEpoch_def mount_ref_eq)
qed

lemma OpenUnit_fail:
  assumes "OpenUnit m e (h, b) = (Inl err, h', b')"
  shows "b' = b"
  using assms OpenReplicaUnit_cases [of "mr_ru m" e h b "Inl err" h' b'] openSole_cases [of "mr_Unit m" e h b "Inl err" h' b']
  by (auto simp: OpenUnit_def split: if_splits)

lemma core_Put_cases:
  assumes "core_Put es k e key v ss = (r, ss')" "mem_ok (store_at ss k)"
  shows "if get0 es k > e then r = Some ErrFenced \<and> ss' = ss
    else r = None \<and> ss' = ss(k \<mapsto> (store_at ss k)\<lparr>me_data := AList.update key v (me_data (store_at ss k))\<rparr>)"
  using assms by (auto simp: core_Put_def core_fenced_def Memory_Put_def mem_ok_def split: if_splits)

lemma core_Delete_cases:
  assumes "core_Delete es k e key ss = (r, ss')" "mem_ok (store_at ss k)"
  shows "if get0 es k > e then r = Some ErrFenced \<and> ss' = ss
    else r = None \<and> ss' = ss(k \<mapsto> (store_at ss k)\<lparr>me_data := AList.delete key (me_data (store_at ss k))\<rparr>)"
  using assms by (auto simp: core_Delete_def core_fenced_def Memory_Delete_def mem_ok_def split: if_splits)

lemmas mount_defs = mount_ops_def mount_epoch_def mount_store_def bk_replicaDurableEpoch_def bk_durableEpoch_def

lemma mount_Put:
  assumes "bo_Put (mount_ops m e) key v b = (r, b')" "mem_ok (mount_store m b)" "mount_ref_ok m"
  shows "(\<forall>m'. mount_epoch m' b' = mount_epoch m' b) \<and>
    (if mount_epoch m b > e then r = Some ErrFenced \<and> b' = b
     else r = None \<and> (\<forall>m'. mount_ref_ok m' \<longrightarrow> mount_store m' b' =
       (if m' = m then (mount_store m b)\<lparr>me_data := AList.update key v (me_data (mount_store m b))\<rparr> else mount_store m' b)))"
proof (cases "mr_replicated m")
  case True
  with assms(1) obtain ss where "core_Put (bk_replicaEpochs b) (mr_ru m) e key v (bk_replicaStores b) = (r, ss)"
      "b' = b\<lparr>bk_replicaStores := ss\<rparr>" by (auto simp: mount_ops_def fenced_replica_ops_def split: prod.splits)
  with core_Put_cases [OF this(1)] assms(2,3) True show ?thesis
    by (auto simp: mount_defs mount_ref_eq split: if_splits)
next
  case False
  with assms(1) obtain ss where "core_Put (bk_epochs b) (mr_Unit m) e key v (bk_stores b) = (r, ss)"
      "b' = b\<lparr>bk_stores := ss\<rparr>" by (auto simp: mount_ops_def fenced_sole_ops_def split: prod.splits)
  with core_Put_cases [OF this(1)] assms(2,3) False show ?thesis
    by (auto simp: mount_defs mount_ref_eq split: if_splits)
qed

lemma mount_Delete:
  assumes "bo_Delete (mount_ops m e) key b = (r, b')" "mem_ok (mount_store m b)" "mount_ref_ok m"
  shows "(\<forall>m'. mount_epoch m' b' = mount_epoch m' b) \<and>
    (if mount_epoch m b > e then r = Some ErrFenced \<and> b' = b
     else r = None \<and> (\<forall>m'. mount_ref_ok m' \<longrightarrow> mount_store m' b' =
       (if m' = m then (mount_store m b)\<lparr>me_data := AList.delete key (me_data (mount_store m b))\<rparr> else mount_store m' b)))"
proof (cases "mr_replicated m")
  case True
  with assms(1) obtain ss where "core_Delete (bk_replicaEpochs b) (mr_ru m) e key (bk_replicaStores b) = (r, ss)"
      "b' = b\<lparr>bk_replicaStores := ss\<rparr>" by (auto simp: mount_ops_def fenced_replica_ops_def split: prod.splits)
  with core_Delete_cases [OF this(1)] assms(2,3) True show ?thesis
    by (auto simp: mount_defs mount_ref_eq split: if_splits)
next
  case False
  with assms(1) obtain ss where "core_Delete (bk_epochs b) (mr_Unit m) e key (bk_stores b) = (r, ss)"
      "b' = b\<lparr>bk_stores := ss\<rparr>" by (auto simp: mount_ops_def fenced_sole_ops_def split: prod.splits)
  with core_Delete_cases [OF this(1)] assms(2,3) False show ?thesis
    by (auto simp: mount_defs mount_ref_eq split: if_splits)
qed

lemma mem_ok_updates: "mem_ok m \<Longrightarrow> mem_ok (m\<lparr>me_data := AList.update k v (me_data m)\<rparr>)"
  "mem_ok m \<Longrightarrow> mem_ok (m\<lparr>me_data := AList.delete k (me_data m)\<rparr>)"
  by (simp_all add: mem_ok_def distinct_update distinct_delete)

lemma fleet_inv_backing:
  assumes "fleet_inv s" "\<And>m. mount_ref_ok m \<Longrightarrow> mount_epoch m b = mount_epoch m (fl_backing s)"
    "\<And>m. mount_ref_ok m \<Longrightarrow> mem_ok (mount_store m b)"
  shows "fleet_inv (s\<lparr>fl_handles := hs, fl_backing := b\<rparr>)"
  using assms by (simp add: fleet_inv_def opens_of_def)

lemma fleet_inv_step:
  assumes "fleet_step s t" "fleet_inv s"
  shows "fleet_inv t"
  using assms(1)
proof cases
  case (open_ok m e n opened h b)
  note o = OpenUnit_ok [OF open_ok(4,3,2)]
  have "sorted_wrt (>) (opens_of m' t) \<and> mem_ok (mount_store m' b) \<and>
      mount_epoch m' b = (if opens_of m' t = [] then 0 else hd (opens_of m' t))" if "mount_ref_ok m'" for m'
  proof (cases "m' = m")
    case True
    have i: "opens_of m t = opened # opens_of m s" by (simp add: open_ok(1) opens_of_def)
    have so: "sorted_wrt (>) (opens_of m s)"
      and hd: "mount_epoch m (fl_backing s) = (if opens_of m s = [] then 0 else hd (opens_of m s))"
      using assms(2) open_ok(2) by (simp_all add: fleet_inv_def)
    from so hd o have "\<forall>e\<in>set (opens_of m s). e < opened" by (cases "opens_of m s") auto
    with i o assms(2) that show ?thesis by (auto simp: True fleet_inv_def)
  next
    case False
    then have "opens_of m' t = opens_of m' s" by (simp add: open_ok(1) opens_of_def)
    with False o assms(2) that show ?thesis by (auto simp: fleet_inv_def)
  qed
  with assms(2) open_ok(1,2) show ?thesis by (simp add: fleet_inv_def)
next
  case (open_fail m e n err h b)
  with OpenUnit_fail [OF open_fail(2)] assms(2) show ?thesis by (simp add: fleet_inv_def opens_of_def)
next
  case (close m n r h b)
  then have "b = fl_backing s" by (simp add: CloseUnit_def)
  with close(1) assms(2) show ?thesis by (simp add: fleet_inv_def opens_of_def)
next
  case (put m e k v r b)
  then have m: "mount_ref_ok m" "mem_ok (mount_store m (fl_backing s))" using assms(2) by (auto simp: fleet_inv_def)
  from mount_Put [OF put(3) m(2,1)] assms(2) m
  have "fleet_inv (s\<lparr>fl_handles := fl_handles s, fl_backing := b\<rparr>)"
    by (intro fleet_inv_backing) (auto simp: fleet_inv_def mem_ok_updates split: if_splits)
  with put(1) show ?thesis by simp
next
  case (delete m e k r b)
  then have m: "mount_ref_ok m" "mem_ok (mount_store m (fl_backing s))" using assms(2) by (auto simp: fleet_inv_def)
  from mount_Delete [OF delete(3) m(2,1)] assms(2) m
  have "fleet_inv (s\<lparr>fl_handles := fl_handles s, fl_backing := b\<rparr>)"
    by (intro fleet_inv_backing) (auto simp: fleet_inv_def mem_ok_updates split: if_splits)
  with delete(1) show ?thesis by simp
next
  case (mark m e r b)
  have "fleet_inv (s\<lparr>fl_handles := fl_handles s, fl_backing := b\<rparr>)"
    using mark(2) assms(2) by (intro fleet_inv_backing)
      (auto simp: fleet_inv_def WriteServingMarker_def bk_writeServingMarker_def mount_defs)
  with mark(1) show ?thesis by simp
qed

lemma fleet_inv_reach: "fleet_step\<^sup>*\<^sup>* fleet_init s \<Longrightarrow> fleet_inv s"
proof (induction rule: rtranclp_induct)
  case base
  show ?case
    by (simp add: fleet_inv_def fleet_init_def opens_of_def mount_defs NewBacking_def store_at_def get0_def mem_ok_def Memory_New_def)
qed (rule fleet_inv_step)

lemma opens_newest:
  assumes "fleet_inv s" "(m, e) \<in> set (fl_opened s)"
  shows "e \<le> mount_epoch m (fl_backing s) \<and> (mount_epoch m (fl_backing s) = e \<longleftrightarrow> (\<forall>e'. (m, e') \<in> set (fl_opened s) \<longrightarrow> e' \<le> e))"
proof -
  have ok: "mount_ref_ok m" using assms by (auto simp: fleet_inv_def)
  have st: "set (opens_of m s) = {e. (m, e) \<in> set (fl_opened s)}" by (force simp: opens_of_def)
  then obtain x xs where x: "opens_of m s = x # xs" using assms(2) by (cases "opens_of m s") auto
  moreover have "sorted_wrt (>) (opens_of m s)"
    and "mount_epoch m (fl_backing s) = (if opens_of m s = [] then 0 else hd (opens_of m s))"
    using assms(1) ok by (simp_all add: fleet_inv_def)
  ultimately have h: "mount_epoch m (fl_backing s) = x" "\<forall>y\<in>set xs. y < x" by auto
  have mem: "(m, x) \<in> set (fl_opened s)" and all: "\<forall>e'. (m, e') \<in> set (fl_opened s) \<longrightarrow> e' \<le> x"
    using st x assms(2) h(2) by (auto simp: set_eq_iff dest: order.strict_implies_order)
  show ?thesis
  proof (intro conjI iffI)
    show "e \<le> mount_epoch m (fl_backing s)" using all assms(2) h(1) by simp
    assume "\<forall>e'. (m, e') \<in> set (fl_opened s) \<longrightarrow> e' \<le> e"
    then show "mount_epoch m (fl_backing s) = e" using mem all assms(2) h(1) by (simp add: order_antisym)
  qed (use all h(1) in simp)
qed

section \<open>Properties\<close>



definition demo_mount :: MountRef where
  "demo_mount = ReplicaMount (ReplicaUnit (GenUnit 0 1) 0)"

text \<open>Two nodes open the same mount one after the other.\<close>

definition demo_open :: "NodeID \<Rightarrow> fleet \<Rightarrow> fleet" where
  "demo_open n s = (case OpenUnit demo_mount 1 (fl_handles s n, fl_backing s) of
       (Inr opened, h, b) \<Rightarrow> \<lparr>fl_handles = (fl_handles s)(n := h), fl_backing = b, fl_opened = (demo_mount, opened) # fl_opened s\<rparr>
     | (Inl _, h, b) \<Rightarrow> s)"

lemma demo_open_step:
  assumes "ha_openReplica (fl_handles s n) = []" "bk_openFaults (fl_backing s) = Map.empty" "mount_epoch demo_mount (fl_backing s) \<noteq> -1"
  shows "fleet_step s (demo_open n s)"
proof -
  have "mount_ref_ok demo_mount" by (simp add: demo_mount_def mount_ref_ok_def ReplicaMount_def)
  moreover obtain opened h b where "OpenUnit demo_mount 1 (fl_handles s n, fl_backing s) = (Inr opened, h, b)"
    using assms by (auto simp: demo_mount_def OpenUnit_def ReplicaMount_def OpenReplicaUnit_def bk_acquireReplica_def acquireLocked_def Let_def)
  ultimately show ?thesis using fleet_step.open_ok [of demo_mount s 1 n] assms(3) by (simp add: demo_open_def)
qed

lemmas demo_eval = demo_open_def demo_mount_def OpenUnit_def ReplicaMount_def OpenReplicaUnit_def bk_acquireReplica_def
  acquireLocked_def fleet_init_def NewBacking_def NewHandle_def get0_def mount_epoch_def bk_replicaDurableEpoch_def

lemma demo_fleet:
  "fleet_step\<^sup>*\<^sup>* fleet_init (demo_open ''b'' (demo_open ''a'' fleet_init))"
  "fl_opened (demo_open ''b'' (demo_open ''a'' fleet_init)) = [(demo_mount, 2), (demo_mount, 1)]"
proof -
  have "fleet_step fleet_init (demo_open ''a'' fleet_init)" by (rule demo_open_step) (simp_all add: demo_eval)
  moreover have "fleet_step (demo_open ''a'' fleet_init) (demo_open ''b'' (demo_open ''a'' fleet_init))"
    by (rule demo_open_step) (simp_all add: demo_eval)
  ultimately show "fleet_step\<^sup>*\<^sup>* fleet_init (demo_open ''b'' (demo_open ''a'' fleet_init))" by auto
qed (simp add: demo_eval)


end
