(* ===== verification/Coord.thy ===== *)
theory Coord
  imports Units
begin

text \<open>
  The vocabulary of the coordination port (\<^verbatim>\<open>src/pkg/coord/coord.go\<close>): nodes, transitional roles, members and views. An
  exclusion set is a list of node ids of which only membership matters.
\<close>

datatype Node = Node (node_ID: NodeID) (node_Addr: string)

type_synonym Role = u8

definition RoleJoining :: Role where
  "RoleJoining = 1"

definition RoleDraining :: Role where
  "RoleDraining = 2"

definition Role_Has :: "Role \<Rightarrow> Role \<Rightarrow> bool" where
  "Role_Has r want \<longleftrightarrow> and r want = want"

record CoordMember =
  cm_Node :: Node
  cm_Roles :: Role
  cm_DeclaredUnitCount :: u32

definition Member_Joining :: "CoordMember \<Rightarrow> bool" where
  "Member_Joining m \<longleftrightarrow> Role_Has (cm_Roles m) RoleJoining"

definition Member_Draining :: "CoordMember \<Rightarrow> bool" where
  "Member_Draining m \<longleftrightarrow> Role_Has (cm_Roles m) RoleDraining"

record View =
  vw_Self :: Node
  vw_Members :: "CoordMember list"
  vw_Epoch :: u64

definition View_Empty :: "View \<Rightarrow> bool" where
  "View_Empty v \<longleftrightarrow> length (vw_Members v) = 0"

definition View_Member :: "NodeID \<Rightarrow> View \<Rightarrow> CoordMember option" where
  "View_Member i v = find (\<lambda>m. node_ID (cm_Node m) = i) (vw_Members v)"

record Params =
  pm_Self :: Node
  pm_DeclaredUnitCount :: u32
  pm_InitialRoles :: Role

datatype Bootstrap = BootstrapFounded | BootstrapJoined

text \<open>Clearing a role, as a founder does with the joining one.\<close>

lemma founder_not_joining: "\<not> Role_Has (and r (not RoleJoining)) RoleJoining"
proof -
  have "and (and r (not 1)) 1 = (0 :: u8)" by (simp add: and.assoc)
  then show ?thesis by (simp add: Role_Has_def RoleJoining_def)
qed

end
