(* ===== verification/Decide.thy ===== *)
theory Decide
  imports Prelude
begin

text \<open>
  The pure decisions of \<^verbatim>\<open>src/internal/decide\<close>: observer-side lease expiry, the current and pending
  replica sets of a unit and the routing between them, the settle-timer arming rule, tombstone
  purge eligibility and the boot warm-up. Go's \<^verbatim>\<open>int\<close> and \<^verbatim>\<open>time.Duration\<close> (int64) counts are \<^typ>\<open>int\<close>; the
  one conversion that can wrap, from a 64-bit difference to a duration, is written out.
\<close>

section \<open>Lease expiry (expiry.go)\<close>

datatype LeaseRow = LeaseRow (lr_ID: string) (lr_Inc: string) (lr_Gen: u64)

datatype LeaseObservation = LeaseObservation (lo_Inc: string) (lo_Gen: u64) (lo_Stale: int)

type_synonym lease_state = "string \<rightharpoonup> LeaseObservation"

text \<open>The body of the loop over the rows; \<open>expired\<close> is the list built so far.\<close>

fun expire_rows ::
    "lease_state \<Rightarrow> int \<Rightarrow> string \<Rightarrow> LeaseRow list \<Rightarrow> lease_state \<times> string list \<Rightarrow> lease_state \<times> string list" where
  "expire_rows prev expiryPolls self [] acc = acc"
| "expire_rows prev expiryPolls self (row # rows) (next, expired) =
     expire_rows prev expiryPolls self rows
       (if lr_ID row = self then (next, expired)
        else case prev (lr_ID row) of
            None \<Rightarrow> (next(lr_ID row \<mapsto> LeaseObservation (lr_Inc row) (lr_Gen row) 0), expired)
          | Some obs \<Rightarrow>
              if lo_Inc obs \<noteq> lr_Inc row \<or> lo_Gen obs \<noteq> lr_Gen row
              then (next(lr_ID row \<mapsto> LeaseObservation (lr_Inc row) (lr_Gen row) 0), expired)
              else
                (let obs = LeaseObservation (lo_Inc obs) (lo_Gen obs) (lo_Stale obs + 1)
                 in (next(lr_ID row \<mapsto> obs),
                     if lo_Stale obs \<ge> expiryPolls then expired @ [lr_ID row] else expired)))"

definition ExpireSilent ::
    "lease_state \<Rightarrow> LeaseRow list \<Rightarrow> int \<Rightarrow> string \<Rightarrow> lease_state \<times> string list" where
  "ExpireSilent prev rows expiryPolls self = expire_rows prev expiryPolls self rows (Map.empty, [])"

section \<open>Replica sets and routing (quorum.go, union.go)\<close>

datatype CurrentSetChoice = CurrentJoinerExcluded | CurrentFullRing

definition CurrentReplicaSet :: "int \<Rightarrow> int \<Rightarrow> int \<Rightarrow> CurrentSetChoice" where
  "CurrentReplicaSet fullRing joinerExcluded r =
     (if joinerExcluded < r \<or> joinerExcluded < fullRing then CurrentFullRing else CurrentJoinerExcluded)"

datatype PendingSetChoice = PendingDrainerExcluded | PendingFullRing

definition PendingReplicaSet :: "int \<Rightarrow> PendingSetChoice" where
  "PendingReplicaSet drainerExcluded = (if drainerExcluded = 0 then PendingFullRing else PendingDrainerExcluded)"

record Placements =
  pl_Full :: "string list"
  pl_JoinerExcluded :: "string list"
  pl_DrainerExcluded :: "string list"

definition currentSet :: "Placements \<Rightarrow> CurrentSetChoice \<Rightarrow> string list" where
  "currentSet p c = (if c = CurrentFullRing then pl_Full p else pl_JoinerExcluded p)"

definition pendingSet :: "Placements \<Rightarrow> PendingSetChoice \<Rightarrow> string list" where
  "pendingSet p c = (if c = PendingFullRing then pl_Full p else pl_DrainerExcluded p)"

record Routing =
  rt_Current :: CurrentSetChoice
  rt_Pending :: PendingSetChoice
  rt_StableR :: int
  rt_InTransition :: bool
  rt_Routed :: "string list"

definition sameMembers :: "string list \<Rightarrow> string list \<Rightarrow> bool" where
  "sameMembers a b \<longleftrightarrow> length a = length b \<and> list_all (\<lambda>id. id \<in> set b) a"

definition unionMembers :: "string list \<Rightarrow> string list \<Rightarrow> string list" where
  "unionMembers current pending =
     foldl (\<lambda>out id. if id \<in> set out then out else out @ [id]) current pending"

definition Route :: "Placements \<Rightarrow> int \<Rightarrow> Routing" where
  "Route p r =
     (let cc = CurrentReplicaSet (int (length (pl_Full p))) (int (length (pl_JoinerExcluded p))) r;
          pc = PendingReplicaSet (int (length (pl_DrainerExcluded p)));
          current = currentSet p cc;
          pending = pendingSet p pc
      in if sameMembers current pending
         then \<lparr>rt_Current = cc, rt_Pending = pc, rt_StableR = int (length current),
               rt_InTransition = False, rt_Routed = current\<rparr>
         else \<lparr>rt_Current = cc, rt_Pending = pc, rt_StableR = int (length current),
               rt_InTransition = True, rt_Routed = unionMembers current pending\<rparr>)"

section \<open>The settle timer (settle.go)\<close>

record SettleState =
  ss_Armed :: bool
  ss_Immediate :: bool
  ss_Fired :: bool

record SettleArmDecision =
  sd_Delay :: int
  sd_Immediate :: bool
  sd_NewObligation :: bool

definition SettleArm :: "SettleState \<Rightarrow> int \<Rightarrow> SettleArmDecision" where
  "SettleArm cur requested =
     (if ss_Armed cur \<and> \<not> ss_Fired cur then
        (if ss_Immediate cur \<and> requested > 0
         then \<lparr>sd_Delay = 0, sd_Immediate = True, sd_NewObligation = False\<rparr>
         else \<lparr>sd_Delay = requested, sd_Immediate = (requested = 0), sd_NewObligation = False\<rparr>)
      else \<lparr>sd_Delay = requested, sd_Immediate = (requested = 0), sd_NewObligation = True\<rparr>)"

section \<open>Tombstone purge (tombstone.go)\<close>

text \<open>The refusal reasons of the verdict, by name instead of by log text.\<close>

datatype purge_refusal = PurgeDisabled | PurgeSingleCopy | PurgeAckBarBelowR int int

text \<open>\<^const>\<open>None\<close> is \<^verbatim>\<open>Eligible: true\<close>.\<close>

definition TombstonePurge :: "int \<Rightarrow> int \<Rightarrow> int \<Rightarrow> purge_refusal option" where
  "TombstonePurge grace r requiredAcks =
     (if grace \<le> 0 then Some PurgeDisabled
      else if r \<le> 1 then Some PurgeSingleCopy
      else if requiredAcks < r then Some (PurgeAckBarBelowR requiredAcks r)
      else None)"

definition TombstoneExpired :: "u64 \<Rightarrow> u64 \<Rightarrow> int \<Rightarrow> bool" where
  "TombstoneExpired stampNanos nowNanos grace =
     (if stampNanos = 0 \<or> nowNanos \<le> stampNanos then False
      else sint (nowNanos - stampNanos) > grace)"

section \<open>Boot warm-up (warmup.go)\<close>

record BootState =
  bs_Deferred :: int
  bs_Peers :: int
  bs_JoiningPeers :: int
  bs_SelfJoining :: bool

definition Joining :: "BootState \<Rightarrow> bool" where
  "Joining s \<longleftrightarrow> bs_Deferred s > 0"

datatype BootReason = BootWarm | BootStaleJoining | BootEstablishedPeer | BootFleetJoining

record BootAction =
  ba_Joining :: bool
  ba_Prompt :: bool
  ba_Reason :: BootReason

definition BootWarmUp :: "BootState \<Rightarrow> BootAction" where
  "BootWarmUp s =
     (let act = \<lparr>ba_Joining = Joining s, ba_Prompt = False, ba_Reason = BootWarm\<rparr>
      in if bs_Deferred s = 0 \<and> bs_SelfJoining s then act\<lparr>ba_Reason := BootStaleJoining\<rparr>
         else if bs_Deferred s = 0 then act\<lparr>ba_Reason := BootWarm\<rparr>
         else if bs_Peers s > bs_JoiningPeers s then act\<lparr>ba_Prompt := True, ba_Reason := BootEstablishedPeer\<rparr>
         else act\<lparr>ba_Reason := BootFleetJoining\<rparr>)"

section \<open>Expiry over a sequence of observation passes\<close>

text \<open>The passes an observer makes, oldest first, each on the rows it read: the state and the expired
  members after the last one.\<close>

definition expire_run :: "int \<Rightarrow> string \<Rightarrow> LeaseRow list list \<Rightarrow> lease_state \<times> string list" where
  "expire_run expiryPolls self passes =
     foldl (\<lambda>(st, _) rows. ExpireSilent st rows expiryPolls self) (Map.empty, []) passes"

text \<open>The row of a member in one pass, and the number of passes just before the last one that showed
  the same incarnation and counter without a gap.\<close>

definition row_of :: "string \<Rightarrow> LeaseRow list \<Rightarrow> (string \<times> u64) option" where
  "row_of i rows = map_option (\<lambda>r. (lr_Inc r, lr_Gen r)) (find (\<lambda>r. lr_ID r = i) rows)"

definition unchanged_passes :: "string \<Rightarrow> LeaseRow list list \<Rightarrow> nat" where
  "unchanged_passes i passes =
     length (takeWhile (\<lambda>rows. row_of i rows = row_of i (last passes)) (rev (butlast passes)))"

section \<open>Lemmas\<close>

lemma row_of_Cons:
  "row_of i (r # rows) = (if lr_ID r = i then Some (lr_Inc r, lr_Gen r) else row_of i rows)"
  by (simp add: row_of_def)

lemma row_of_None: "row_of i rows = None \<longleftrightarrow> i \<notin> lr_ID ` set rows"
  by (induction rows) (auto simp: row_of_Cons row_of_def)

text \<open>What one pass records for a member, and when it expires it.\<close>

definition next_obs :: "LeaseObservation option \<Rightarrow> string \<times> u64 \<Rightarrow> LeaseObservation" where
  "next_obs prev ig =
     (case prev of
        Some obs \<Rightarrow> if (lo_Inc obs, lo_Gen obs) = ig then LeaseObservation (fst ig) (snd ig) (lo_Stale obs + 1)
                    else LeaseObservation (fst ig) (snd ig) 0
      | None \<Rightarrow> LeaseObservation (fst ig) (snd ig) 0)"

definition renewed :: "LeaseObservation option \<Rightarrow> string \<times> u64 \<Rightarrow> bool" where
  "renewed prev ig \<longleftrightarrow> (\<forall>obs. prev = Some obs \<longrightarrow> (lo_Inc obs, lo_Gen obs) \<noteq> ig)"

lemma expire_rows_state:
  "distinct (map lr_ID rows) \<Longrightarrow>
     fst (expire_rows prev n self rows (nxt, ex)) i =
       (if i = self then nxt i
        else case row_of i rows of None \<Rightarrow> nxt i | Some ig \<Rightarrow> Some (next_obs (prev i) ig))"
proof (induction rows arbitrary: nxt ex)
  case Nil
  then show ?case by (simp add: row_of_def)
next
  case (Cons r rows)
  then have "lr_ID r = i \<Longrightarrow> row_of i rows = None" by (auto simp: row_of_None)
  with Cons show ?case
    by (cases "lr_ID r = i"; cases "prev (lr_ID r)"; cases "lr_ID r = self"; cases "row_of i rows")
      (auto simp: row_of_Cons next_obs_def Let_def)
qed

lemma expire_rows_expired:
  "distinct (map lr_ID rows) \<Longrightarrow>
     i \<in> set (snd (expire_rows prev n self rows (nxt, ex))) \<longleftrightarrow>
       i \<in> set ex \<or> i \<noteq> self \<and> (\<exists>ig. row_of i rows = Some ig \<and> \<not> renewed (prev i) ig \<and> lo_Stale (next_obs (prev i) ig) \<ge> n)"
proof (induction rows arbitrary: nxt ex)
  case Nil
  then show ?case by (simp add: row_of_def)
next
  case (Cons r rows)
  then have "lr_ID r = i \<Longrightarrow> row_of i rows = None" by (auto simp: row_of_None)
  with Cons show ?case
    by (cases "lr_ID r = i"; cases "prev (lr_ID r)"; cases "lr_ID r = self")
      (simp_all add: row_of_Cons next_obs_def renewed_def Let_def, (blast | metis prod.inject)+)
qed

lemma expire_run_snoc:
  "expire_run n self (passes @ [rows]) = ExpireSilent (fst (expire_run n self passes)) rows n self"
  by (simp add: expire_run_def split: prod.split)

lemma unchanged_passes_snoc2:
  "unchanged_passes i (passes @ [p, q]) =
     (if row_of i p = row_of i q then Suc (unchanged_passes i (passes @ [p])) else 0)"
  by (simp add: unchanged_passes_def butlast_append)

lemma expire_run_state:
  "\<forall>rows\<in>set passes. distinct (map lr_ID rows) \<Longrightarrow> i \<noteq> self \<Longrightarrow>
     fst (expire_run n self passes) i =
       (if passes = [] then None
        else map_option (\<lambda>(inc, gen). LeaseObservation inc gen (int (unchanged_passes i passes))) (row_of i (last passes)))"
proof (induction passes rule: rev_induct)
  case Nil
  then show ?case by (simp add: expire_run_def)
next
  case (snoc rows passes)
  show ?case
  proof (cases passes rule: rev_cases)
    case Nil
    with snoc.prems show ?thesis
      by (auto simp: expire_run_def ExpireSilent_def expire_rows_state next_obs_def unchanged_passes_def
          split: option.splits)
  next
    case (snoc ps p)
    have IH: "fst (expire_run n self passes) i =
        map_option (\<lambda>(inc, gen). LeaseObservation inc gen (int (unchanged_passes i passes))) (row_of i p)"
      using snoc.IH snoc.prems snoc by simp
    have d: "distinct (map lr_ID rows)" using snoc.prems by simp
    have u: "unchanged_passes i (passes @ [rows]) =
        (if row_of i p = row_of i rows then Suc (unchanged_passes i passes) else 0)"
      using unchanged_passes_snoc2 [of i ps p rows] snoc by simp
    show ?thesis
      unfolding expire_run_snoc ExpireSilent_def expire_rows_state [OF d] IH u
      using snoc.prems(2) by (auto simp: next_obs_def split: option.splits)
  qed
qed

text \<open>Expiry is exactly observed silence. Over any sequence of observation passes (each document with
  one row per member), the last pass expires a member other than the observer iff its row was read
  with the same incarnation and lease counter in that pass and in each of the \<open>expiryPolls\<close> passes
  before it. The observer itself is never expired, and any renewal, new incarnation or absence inside
  that window prevents the expiry.\<close>

theorem expiry_is_observed_silence:
  assumes "\<forall>rows\<in>set (passes @ [rows]). distinct (map lr_ID rows)" and "0 < expiryPolls"
  shows "i \<in> set (snd (expire_run expiryPolls self (passes @ [rows]))) \<longleftrightarrow>
    i \<noteq> self \<and> nat expiryPolls \<le> length passes \<and> row_of i rows \<noteq> None \<and>
    (\<forall>k<nat expiryPolls. row_of i (rev passes ! k) = row_of i rows)"
proof (cases "i = self \<or> passes = [] \<or> row_of i rows = None")
  case True
  then show ?thesis
    using assms expire_run_state [of passes i self expiryPolls]
    by (auto simp: expire_run_snoc ExpireSilent_def expire_rows_expired renewed_def)
next
  case False
  then obtain ps p ig where ps: "passes = ps @ [p]" and ig: "row_of i rows = Some ig"
    by (cases passes rule: rev_cases) auto
  obtain m where m: "expiryPolls = int (Suc m)"
    using assms(2) by (metis gr0_implies_Suc zero_less_imp_eq_int)
  have d: "distinct (map lr_ID rows)" using assms(1) by simp
  have st: "fst (expire_run expiryPolls self passes) i =
      map_option (\<lambda>(inc, gen). LeaseObservation inc gen (int (unchanged_passes i passes))) (row_of i p)"
    using expire_run_state [of passes i self expiryPolls] assms(1) False ps by simp
  have "i \<in> set (snd (expire_run expiryPolls self (passes @ [rows]))) \<longleftrightarrow>
      row_of i p = row_of i rows \<and> m \<le> unchanged_passes i passes"
    unfolding expire_run_snoc ExpireSilent_def expire_rows_expired [OF d] st
    using False by (cases "row_of i p") (auto simp: ig m renewed_def next_obs_def)
  also have "\<dots> \<longleftrightarrow> row_of i p = row_of i rows \<and> m \<le> length ps \<and> (\<forall>k<m. row_of i (rev ps ! k) = row_of i rows)"
    by (auto simp: unchanged_passes_def ps le_length_takeWhile)
  also have "\<dots> \<longleftrightarrow> Suc m \<le> length passes \<and> (\<forall>k<Suc m. row_of i (rev passes ! k) = row_of i rows)"
    by (auto simp: ps less_Suc_eq_0_disj)
  also have "Suc m = nat expiryPolls" by (simp only: m nat_int)
  finally show ?thesis using False by simp
qed

section \<open>Routing\<close>

lemma sameMembers_iff: "distinct a \<Longrightarrow> distinct b \<Longrightarrow> sameMembers a b \<longleftrightarrow> set a = set b"
  unfolding sameMembers_def list_all_iff
  by (metis card_subset_eq distinct_card List.finite_set subsetI subset_refl subsetD)

lemma unionMembers_spec:
  "\<exists>ext. unionMembers current pending = current @ ext \<and>
     set (unionMembers current pending) = set current \<union> set pending \<and>
     (distinct current \<longrightarrow> distinct (unionMembers current pending))"
  unfolding unionMembers_def
proof (induction pending arbitrary: current)
  case (Cons x pending)
  from Cons [of "if x \<in> set current then current else current @ [x]"] show ?case
    by (auto split: if_splits)
qed simp

text \<open>Routing during a membership transition never loses a holder and never lowers the ack bar.
  For duplicate-free placements: every current owner is routed, and ahead of the pending ones; the
  routed set is exactly the union of the current and the pending set and has no duplicates; the bar
  \<open>StableR\<close> is the size of the current set, is never below the size of the full-ring placement, and
  is at least \<open>r\<close> whenever the full ring has \<open>r\<close> members; it is never raised by the union. The unit is
  in transition exactly when current and pending differ as sets.\<close>

theorem route_covers_current:
  assumes "distinct (pl_Full p)" "distinct (pl_JoinerExcluded p)" "distinct (pl_DrainerExcluded p)"
  shows "let rt = Route p r; cur = currentSet p (rt_Current rt); pend = pendingSet p (rt_Pending rt) in
    (\<exists>ext. rt_Routed rt = cur @ ext) \<and> set (rt_Routed rt) = set cur \<union> set pend \<and> distinct (rt_Routed rt) \<and>
    rt_StableR rt = int (length cur) \<and> int (length (pl_Full p)) \<le> rt_StableR rt \<and>
    (r \<le> int (length (pl_Full p)) \<longrightarrow> r \<le> rt_StableR rt) \<and>
    rt_StableR rt \<le> int (length (rt_Routed rt)) \<and>
    (rt_InTransition rt \<longleftrightarrow> set cur \<noteq> set pend)"
proof -
  let ?rt = "Route p r"
  let ?cur = "currentSet p (rt_Current ?rt)" and ?pend = "pendingSet p (rt_Pending ?rt)"
  have sel: "rt_Current ?rt = CurrentReplicaSet (int (length (pl_Full p))) (int (length (pl_JoinerExcluded p))) r"
    "rt_Pending ?rt = PendingReplicaSet (int (length (pl_DrainerExcluded p)))"
    "rt_StableR ?rt = int (length ?cur)" "rt_InTransition ?rt \<longleftrightarrow> \<not> sameMembers ?cur ?pend"
    "rt_Routed ?rt = (if sameMembers ?cur ?pend then ?cur else unionMembers ?cur ?pend)"
    by (simp_all add: Route_def Let_def)
  have d: "distinct ?cur" "distinct ?pend" using assms by (simp_all add: currentSet_def pendingSet_def)
  note same = sameMembers_iff [OF d]
  have R: "(\<exists>ext. rt_Routed ?rt = ?cur @ ext) \<and> set (rt_Routed ?rt) = set ?cur \<union> set ?pend \<and> distinct (rt_Routed ?rt)"
    using unionMembers_spec [of ?cur ?pend] d(1) same unfolding sel(5) by auto
  have F: "int (length (pl_Full p)) \<le> int (length ?cur)"
    unfolding sel(1) by (auto simp: currentSet_def CurrentReplicaSet_def)
  have L: "int (length ?cur) \<le> int (length (rt_Routed ?rt))" using R by auto
  show ?thesis unfolding Let_def using R F L same sel(3,4) by simp
qed

end
