(* ===== verification/Pending_Route.thy ===== *)
theory Pending_Route
  imports Coord Decide
begin

text \<open>
  Which replicas an operation touches (\<^verbatim>\<open>src/pkg/cluster/multibackend_pending_route.go\<close>): the shell around \<^verbatim>\<open>decide.Route\<close>. The
  coordinator's \<^verbatim>\<open>Locate\<close> is the argument \<open>locate\<close>, which takes the unit, the number of nodes and the
  excluded ids; the transition sets are arguments too.
\<close>

section \<open>Placements\<close>

type_synonym locator = "GenUnit \<Rightarrow> int \<Rightarrow> NodeID list \<Rightarrow> Node list"

text \<open>\<^verbatim>\<open>unitReplicas\<close>: with no coordination view the local node is the one replica.\<close>

definition unitReplicas :: "locator \<Rightarrow> Node \<Rightarrow> int \<Rightarrow> GenUnit \<Rightarrow> Node list" where
  "unitReplicas locate self r gu =
     (let ns = locate gu r [] in if length ns = 0 then [self] else ns)"

definition currentUnitReplicas :: "locator \<Rightarrow> Node \<Rightarrow> int \<Rightarrow> NodeID list \<Rightarrow> GenUnit \<Rightarrow> Node list" where
  "currentUnitReplicas locate self r joining gu =
     (if length joining = 0 then unitReplicas locate self r gu
      else
        (let full = unitReplicas locate self r gu;
             excl = locate gu r joining
         in if CurrentReplicaSet (int (length full)) (int (length excl)) r = CurrentFullRing then full else excl))"

definition pendingUnitReplicas :: "locator \<Rightarrow> Node \<Rightarrow> int \<Rightarrow> NodeID list \<Rightarrow> GenUnit \<Rightarrow> Node list" where
  "pendingUnitReplicas locate self r draining gu =
     (if length draining = 0 then unitReplicas locate self r gu
      else
        (let pend = locate gu r draining
         in if PendingReplicaSet (int (length pend)) = PendingFullRing then unitReplicas locate self r gu else pend))"

record unitPlacements =
  up_full :: "Node list"
  up_joinerExcluded :: "Node list"
  up_drainerExcluded :: "Node list"
  up_ids :: Placements

definition nodeIDs :: "Node list \<Rightarrow> string list" where
  "nodeIDs ms = map node_ID ms"

definition placementsForUnit ::
    "locator \<Rightarrow> Node \<Rightarrow> int \<Rightarrow> NodeID list \<Rightarrow> NodeID list \<Rightarrow> GenUnit \<Rightarrow> unitPlacements" where
  "placementsForUnit locate self r joining draining gu =
     (let full = unitReplicas locate self r gu;
          je = (if length joining > 0 then locate gu r joining else full);
          de = (if length draining > 0 then locate gu r draining else full)
      in \<lparr>up_full = full, up_joinerExcluded = je, up_drainerExcluded = de,
          up_ids = \<lparr>pl_Full = nodeIDs full, pl_JoinerExcluded = nodeIDs je, pl_DrainerExcluded = nodeIDs de\<rparr>\<rparr>)"

definition up_current :: "unitPlacements \<Rightarrow> Routing \<Rightarrow> Node list" where
  "up_current p rt = (if rt_Current rt = CurrentFullRing then up_full p else up_joinerExcluded p)"

definition up_pending :: "unitPlacements \<Rightarrow> Routing \<Rightarrow> Node list" where
  "up_pending p rt = (if rt_Pending rt = PendingFullRing then up_full p else up_drainerExcluded p)"

section \<open>Routed sets\<close>

definition findMember :: "Node list \<Rightarrow> string \<Rightarrow> Node option" where
  "findMember ms i = find (\<lambda>m. node_ID m = i) ms"

definition membersByID :: "string list \<Rightarrow> Node list \<Rightarrow> Node list \<Rightarrow> Node list" where
  "membersByID ids a b =
     foldl (\<lambda>out i.
        case findMember a i of
          Some m \<Rightarrow> out @ [m]
        | None \<Rightarrow> (case findMember b i of Some m \<Rightarrow> out @ [m] | None \<Rightarrow> out)) [] ids"

definition routedReplicasForKey ::
    "locator \<Rightarrow> Node \<Rightarrow> int \<Rightarrow> NodeID list \<Rightarrow> NodeID list \<Rightarrow> GenUnit \<Rightarrow> Node list \<times> int" where
  "routedReplicasForKey locate self r joining draining gu =
     (let p = placementsForUnit locate self r joining draining gu;
          rt = Route (up_ids p) r
      in if \<not> rt_InTransition rt then (up_current p rt, rt_StableR rt)
         else (membersByID (rt_Routed rt) (up_current p rt) (up_pending p rt), rt_StableR rt))"

datatype routedReplica = routedReplica (rr_member: Node) (rr_ru: ReplicaUnit)

definition withUnit :: "GenUnit \<Rightarrow> Node list \<Rightarrow> routedReplica list" where
  "withUnit gu members = map (\<lambda>i. routedReplica (members ! i) (NewReplicaUnit gu (of_nat i))) [0..<length members]"

definition containsRoutedReplica :: "routedReplica list \<Rightarrow> routedReplica \<Rightarrow> bool" where
  "containsRoutedReplica rs want \<longleftrightarrow>
     list_ex (\<lambda>r. node_ID (rr_member r) = node_ID (rr_member want) \<and> rr_ru r = rr_ru want) rs"

definition routedReplicasWithUnit ::
    "locator \<Rightarrow> Node \<Rightarrow> int \<Rightarrow> NodeID list \<Rightarrow> NodeID list \<Rightarrow> GenUnit \<Rightarrow> routedReplica list \<times> int" where
  "routedReplicasWithUnit locate self r joining draining gu =
     (let p = placementsForUnit locate self r joining draining gu;
          rt = Route (up_ids p) r;
          current = up_current p rt
      in if \<not> rt_InTransition rt then (withUnit gu current, rt_StableR rt)
         else (foldl (\<lambda>out rr. if containsRoutedReplica out rr then out else out @ [rr])
                 (withUnit gu current) (withUnit gu (up_pending p rt)), rt_StableR rt))"

section \<open>Ack bars\<close>

datatype WriteConsistency = WriteOne | WriteQuorum | WriteAll

datatype ReadConsistency = ReadNearest | ReadQuorum | ReadAll

definition requiredWriteAcks :: "WriteConsistency \<Rightarrow> int \<Rightarrow> int" where
  "requiredWriteAcks wc r = (case wc of WriteOne \<Rightarrow> 1 | WriteAll \<Rightarrow> r | WriteQuorum \<Rightarrow> r div 2 + 1)"

definition requiredReadReplicas :: "ReadConsistency \<Rightarrow> int \<Rightarrow> int" where
  "requiredReadReplicas rc r = (case rc of ReadAll \<Rightarrow> r | ReadQuorum \<Rightarrow> r div 2 + 1 | ReadNearest \<Rightarrow> 1)"

definition writeAckBar :: "WriteConsistency \<Rightarrow> int \<Rightarrow> int" where
  "writeAckBar wc stableR = requiredWriteAcks wc stableR"

section \<open>What is routed\<close>

definition add_routed :: "routedReplica list \<Rightarrow> routedReplica \<Rightarrow> routedReplica list" where
  "add_routed out rr = (if containsRoutedReplica out rr then out else out @ [rr])"

lemma contains_append: "containsRoutedReplica out rr \<Longrightarrow> containsRoutedReplica (out @ ys) rr"
  by (auto simp: containsRoutedReplica_def list_ex_iff)

lemma contains_member: "rr \<in> set out \<Longrightarrow> containsRoutedReplica out rr"
  by (auto simp: containsRoutedReplica_def list_ex_iff)

lemma add_routed_union:
  "\<exists>ys. foldl add_routed acc xs = acc @ ys \<and> set ys \<subseteq> set xs \<and> list_all (containsRoutedReplica (acc @ ys)) xs"
proof (induction xs arbitrary: acc)
  case (Cons x xs)
  obtain zs where z: "add_routed acc x = acc @ zs" "set zs \<subseteq> {x}" "containsRoutedReplica (acc @ zs) x"
    using contains_member [of x "acc @ [x]"] by (cases "containsRoutedReplica acc x") (auto simp: add_routed_def)
  from Cons.IH [of "add_routed acc x"] obtain ys where
    y: "foldl add_routed (add_routed acc x) xs = add_routed acc x @ ys" "set ys \<subseteq> set xs"
      "list_all (containsRoutedReplica (add_routed acc x @ ys)) xs" by blast
  have "containsRoutedReplica (acc @ zs @ ys) x" using contains_append [OF z(3), of ys] by simp
  with y z show ?case by (intro exI [of _ "zs @ ys"]) auto
qed simp

lemma routed_foldl:
  "foldl (\<lambda>out rr. if containsRoutedReplica out rr then out else out @ [rr]) acc xs = foldl add_routed acc xs"
  unfolding add_routed_def ..

lemma Route_fields:
  "rt_Current (Route p r) = CurrentReplicaSet (int (length (pl_Full p))) (int (length (pl_JoinerExcluded p))) r"
  "rt_Pending (Route p r) = PendingReplicaSet (int (length (pl_DrainerExcluded p)))"
  "rt_StableR (Route p r) = int (length (currentSet p (rt_Current (Route p r))))"
  "rt_InTransition (Route p r) \<longleftrightarrow> \<not> sameMembers (currentSet p (rt_Current (Route p r))) (pendingSet p (rt_Pending (Route p r)))"
  by (simp_all add: Route_def Let_def)

lemma unitReplicas_nonempty: "unitReplicas locate self r gu \<noteq> []"
  by (simp add: unitReplicas_def Let_def)

lemma current_resolvers:
  "up_current (placementsForUnit locate self r joining draining gu) (Route (up_ids (placementsForUnit locate self r joining draining gu)) r) =
     currentUnitReplicas locate self r joining gu"
  by (simp add: up_current_def Route_fields placementsForUnit_def currentUnitReplicas_def nodeIDs_def Let_def)

lemma pending_resolvers:
  "up_pending (placementsForUnit locate self r joining draining gu) (Route (up_ids (placementsForUnit locate self r joining draining gu)) r) =
     pendingUnitReplicas locate self r draining gu"
  by (simp add: up_pending_def Route_fields placementsForUnit_def pendingUnitReplicas_def nodeIDs_def Let_def)

lemma stable_resolvers:
  "rt_StableR (Route (up_ids (placementsForUnit locate self r joining draining gu)) r) = int (length (currentUnitReplicas locate self r joining gu))"
  unfolding current_resolvers [symmetric, of locate self r joining gu draining]
  by (simp add: Route_fields(3) up_current_def currentSet_def placementsForUnit_def nodeIDs_def Let_def)

lemma current_nonempty: "currentUnitReplicas locate self r joining gu \<noteq> []"
proof -
  have "excl \<noteq> []" if "CurrentReplicaSet (int (length full)) (int (length excl)) r \<noteq> CurrentFullRing" "full \<noteq> []" for full excl :: "Node list"
    using that by (auto simp: CurrentReplicaSet_def split: if_splits)
  then show ?thesis using unitReplicas_nonempty unfolding currentUnitReplicas_def Let_def by (auto split: if_splits)
qed

lemma length_withUnit [simp]: "length (withUnit gu ms) = length ms"
  by (simp add: withUnit_def)


text \<open>A leave: node c drains, and the survivors change places.\<close>

definition demo_locate :: locator where
  "demo_locate gu n excl = (if excl = [] then [Node ''c'' ''1'', Node ''a'' ''2''] else [Node ''a'' ''2'', Node ''b'' ''3''])"


text \<open>Transitions are recognised by the owners, not by their positions: survivors that only change places
  are routed at their old positions alone.\<close>

lemma shuffle_not_routed:
  "let locate = (\<lambda>gu n excl. if excl = [] then [Node ''a'' ''1'', Node ''b'' ''2''] else [Node ''b'' ''2'', Node ''a'' ''1'']);
       gu = GenUnit 0 5; rs = fst (routedReplicasWithUnit locate (Node ''a'' ''1'') 2 [] [''c''] gu)
   in pendingUnitReplicas locate (Node ''a'' ''1'') 2 [''c''] gu = [Node ''b'' ''2'', Node ''a'' ''1''] \<and>
      \<not> containsRoutedReplica rs (routedReplica (Node ''b'' ''2'') (ReplicaUnit gu 0))"
  by (simp add: routedReplicasWithUnit_def placementsForUnit_def unitReplicas_def pendingUnitReplicas_def Route_def Let_def up_current_def
      up_pending_def CurrentReplicaSet_def PendingReplicaSet_def currentSet_def pendingSet_def sameMembers_def nodeIDs_def
      withUnit_def containsRoutedReplica_def NewReplicaUnit_def upt_rec)

end
