(* ===== verification/Cond_Store.thy ===== *)
theory Cond_Store
  imports Prelude
begin

text \<open>
  The conditional store (\<^verbatim>\<open>src/pkg/storageunit/condstore.go\<close>): create-if-absent, compare-and-set and
  read on named objects. The Go interface is the dictionary \<open>cond_ops\<close> its clients take; the locale
  \<open>cond_store\<close> states what an implementation promises, and the in-process implementation
  \<^verbatim>\<open>MemConditionalStore\<close> is proved to keep it. The mutex makes every operation atomic, so
  concurrency is the interleaving of whole operations: \<open>cond_run\<close> runs the operations of the other
  clients.
\<close>

section \<open>The interface\<close>

text \<open>\<open>CondIO\<close> stands for the transport errors a remote implementation may also return.\<close>

datatype cond_error = ErrPrecondition | ErrCondNotFound | CondIO string

record 's cond_ops =
  co_PutIfAbsent :: "string \<Rightarrow> bytes \<Rightarrow> 's \<Rightarrow> (cond_error + string) \<times> 's"
  co_CompareAndSet :: "string \<Rightarrow> bytes \<Rightarrow> string \<Rightarrow> 's \<Rightarrow> (cond_error + string) \<times> 's"
  co_Get :: "string \<Rightarrow> 's \<Rightarrow> cond_error + bytes \<times> string"

section \<open>MemConditionalStore\<close>

datatype memObject = memObject (mo_data: bytes) (mo_version: string)

record mem_store =
  ms_obj :: "string \<rightharpoonup> memObject"
  ms_seq :: u64

definition NewMemConditionalStore :: mem_store where
  "NewMemConditionalStore = \<lparr>ms_obj = Map.empty, ms_seq = 0\<rparr>"

definition nextVersion :: "mem_store \<Rightarrow> string \<times> mem_store" where
  "nextVersion m =
     (let seq = ms_seq m + 1 in (CHR ''v'' # format_uint (unat seq), m\<lparr>ms_seq := seq\<rparr>))"

definition Mem_PutIfAbsent ::
    "string \<Rightarrow> bytes \<Rightarrow> mem_store \<Rightarrow> (cond_error + string) \<times> mem_store" where
  "Mem_PutIfAbsent key data m =
     (case ms_obj m key of
        Some _ \<Rightarrow> (Inl ErrPrecondition, m)
      | None \<Rightarrow>
          (let (v, m) = nextVersion m
           in (Inr v, m\<lparr>ms_obj := (ms_obj m)(key \<mapsto> memObject data v)\<rparr>)))"

definition Mem_CompareAndSet ::
    "string \<Rightarrow> bytes \<Rightarrow> string \<Rightarrow> mem_store \<Rightarrow> (cond_error + string) \<times> mem_store" where
  "Mem_CompareAndSet key data expectedVersion m =
     (case ms_obj m key of
        None \<Rightarrow> (Inl ErrPrecondition, m)
      | Some cur \<Rightarrow>
          if mo_version cur \<noteq> expectedVersion then (Inl ErrPrecondition, m)
          else
            (let (v, m) = nextVersion m
             in (Inr v, m\<lparr>ms_obj := (ms_obj m)(key \<mapsto> memObject data v)\<rparr>)))"

definition Mem_Get :: "string \<Rightarrow> mem_store \<Rightarrow> cond_error + bytes \<times> string" where
  "Mem_Get key m =
     (case ms_obj m key of
        None \<Rightarrow> Inl ErrCondNotFound
      | Some cur \<Rightarrow> Inr (mo_data cur, mo_version cur))"

definition mem_cond_ops :: "mem_store cond_ops" where
  "mem_cond_ops =
     \<lparr>co_PutIfAbsent = Mem_PutIfAbsent, co_CompareAndSet = Mem_CompareAndSet, co_Get = Mem_Get\<rparr>"

section \<open>The operations of other clients\<close>

datatype cond_op = PutOp string bytes | CasOp string bytes string

fun cond_step :: "'s cond_ops \<Rightarrow> cond_op \<Rightarrow> 's \<Rightarrow> 's" where
  "cond_step ops (PutOp k d) s = snd (co_PutIfAbsent ops k d s)"
| "cond_step ops (CasOp k d v) s = snd (co_CompareAndSet ops k d v s)"

definition cond_run :: "'s cond_ops \<Rightarrow> cond_op list \<Rightarrow> 's \<Rightarrow> 's" where
  "cond_run ops = fold (cond_step ops)"

text \<open>What the others may do between two store operations of a call: any operations of their own.\<close>

definition env_ops :: "'s cond_ops \<Rightarrow> (nat \<Rightarrow> cond_op list) \<Rightarrow> nat \<Rightarrow> 's \<Rightarrow> 's" where
  "env_ops ops cs i = cond_run ops (cs i)"

lemma fold_env_two:
  assumes "Suc i \<le> j"
  shows "fold (env_ops ops cs) [2 * i..<2 * j + k] s =
    fold (env_ops ops cs) [2 * Suc i..<2 * j + k] (env_ops ops cs (2 * i + 1) (env_ops ops cs (2 * i) s))"
proof -
  from assms have "[2 * i..<2 * j + k] = 2 * i # (2 * i + 1) # [2 * Suc i..<2 * j + k]" by (simp add: upt_rec)
  then show ?thesis by simp
qed

text \<open>What one successful write does: the key holds the data under a version never issued before,
  every other key is as it was.\<close>

definition cond_written ::
    "'s cond_ops \<Rightarrow> ('s \<Rightarrow> string set) \<Rightarrow> string \<Rightarrow> bytes \<Rightarrow> string \<Rightarrow> 's \<Rightarrow> 's \<Rightarrow> bool" where
  "cond_written ops issued k d v s s' \<longleftrightarrow>
     co_Get ops k s' = Inr (d, v) \<and> (\<forall>k'. k' \<noteq> k \<longrightarrow> co_Get ops k' s' = co_Get ops k' s) \<and>
     v \<notin> issued s \<and> issued s' = insert v (issued s)"

text \<open>Ghost views of the in-process store: the version tokens handed out so far, and how many more
  writes it takes until the 64-bit sequence number wraps and tokens could recur.\<close>

definition mem_issued :: "mem_store \<Rightarrow> string set" where
  "mem_issued m = {CHR ''v'' # format_uint n |n. n \<le> unat (ms_seq m)}"

definition mem_room :: "mem_store \<Rightarrow> nat" where
  "mem_room m = 2 ^ 64 - 1 - unat (ms_seq m)"

definition mem_inv :: "mem_store \<Rightarrow> bool" where
  "mem_inv m \<longleftrightarrow> (\<forall>k cur. ms_obj m k = Some cur \<longrightarrow> mo_version cur \<in> mem_issued m)"

section \<open>What a conditional store promises\<close>

locale cond_store =
  fixes ops :: "'s cond_ops" and inv :: "'s \<Rightarrow> bool"
    and room :: "'s \<Rightarrow> nat" and issued :: "'s \<Rightarrow> string set"
  assumes get_issued: "inv s \<Longrightarrow> co_Get ops k s = Inr (d, v) \<Longrightarrow> v \<in> issued s"
    and put_error: "co_PutIfAbsent ops k d s = (Inl e, s') \<Longrightarrow> s' = s"
    and put_exists: "co_PutIfAbsent ops k d s = (Inl ErrPrecondition, s') \<Longrightarrow> \<exists>x. co_Get ops k s = Inr x"
    and put_ok: "co_PutIfAbsent ops k d s = (Inr v, s') \<Longrightarrow> inv s \<Longrightarrow> 0 < room s \<Longrightarrow>
      co_Get ops k s = Inl ErrCondNotFound \<and> cond_written ops issued k d v s s' \<and> inv s' \<and> room s = Suc (room s')"
    and cas_error: "co_CompareAndSet ops k d v s = (Inl e, s') \<Longrightarrow> s' = s"
    and cas_stale: "co_CompareAndSet ops k d v s = (Inl ErrPrecondition, s') \<Longrightarrow> co_Get ops k s \<noteq> Inr (d0, v)"
    and cas_ok: "co_CompareAndSet ops k d v s = (Inr w, s') \<Longrightarrow> inv s \<Longrightarrow> 0 < room s \<Longrightarrow>
      (\<exists>d0. co_Get ops k s = Inr (d0, v)) \<and> cond_written ops issued k d w s s' \<and> inv s' \<and> room s = Suc (room s')"
begin

lemma step_cases:
  assumes "inv s" "0 < room s"
  shows "cond_step ops c s = s \<or>
    (\<exists>k d v. cond_written ops issued k d v s (cond_step ops c s) \<and> inv (cond_step ops c s) \<and>
             room s = Suc (room (cond_step ops c s)))"
proof (cases c)
  case (PutOp k d)
  obtain r s' where r: "co_PutIfAbsent ops k d s = (r, s')" by fastforce
  then show ?thesis using PutOp assms put_error [of k d s] put_ok [of k d s] by (cases r) auto
next
  case (CasOp k d v)
  obtain r s' where r: "co_CompareAndSet ops k d v s = (r, s')" by fastforce
  then show ?thesis using CasOp assms cas_error [of k d v s] cas_ok [of k d v s] by (cases r) auto
qed

lemma run_room:
  "inv s \<Longrightarrow> length cs \<le> room s \<Longrightarrow>
     inv (cond_run ops cs s) \<and> room s \<le> room (cond_run ops cs s) + length cs \<and>
     issued s \<subseteq> issued (cond_run ops cs s)"
proof (induction cs arbitrary: s)
  case Nil
  then show ?case by (simp add: cond_run_def)
next
  case (Cons c cs)
  let ?t = "cond_step ops c s"
  have "0 < room s" using Cons.prems(2) by simp
  with step_cases [OF Cons.prems(1), of c]
  have t: "inv ?t" "room s \<le> Suc (room ?t)" "issued s \<subseteq> issued ?t"
    using Cons.prems(1) by (auto simp: cond_written_def)
  then have "length cs \<le> room ?t" using Cons.prems(2) by simp
  from Cons.IH [OF t(1) this] t show ?case by (auto simp: cond_run_def)
qed

lemma env_run_room:
  "inv s \<Longrightarrow> length (cs k) + m < room s \<Longrightarrow> inv (env_ops ops cs k s) \<and> m < room (env_ops ops cs k s)"
  using run_room [of s "cs k"] by (auto simp: env_ops_def)

text \<open>A key keeps its value and version, or its version is one issued later.\<close>

lemma run_keeps_or_renews:
  "inv s \<Longrightarrow> length cs \<le> room s \<Longrightarrow> co_Get ops k s = Inr (d, v) \<Longrightarrow>
     (\<exists>d' v'. co_Get ops k (cond_run ops cs s) = Inr (d', v') \<and>
        (v' \<in> issued s \<longrightarrow> (d', v') = (d, v) \<and> (\<forall>n. co_Get ops k (cond_run ops (take n cs) s) = Inr (d, v))))"
proof (induction cs arbitrary: s d v)
  case Nil
  then show ?case by (simp add: cond_run_def)
next
  case (Cons c cs)
  let ?t = "cond_step ops c s"
  have pos: "0 < room s" using Cons.prems(2) by simp
  have run: "cond_run ops (c # cs) s = cond_run ops cs ?t" by (simp add: cond_run_def)
  from step_cases [OF Cons.prems(1) pos, of c] Cons.prems(1)
  have t: "inv ?t" "room s \<le> Suc (room ?t)" "issued s \<subseteq> issued ?t"
    by (auto simp: cond_written_def)
  then have len: "length cs \<le> room ?t" using Cons.prems(2) by simp
  from step_cases [OF Cons.prems(1) pos, of c] consider
      (same) "co_Get ops k ?t = Inr (d, v)"
    | (new) d1 v1 where "co_Get ops k ?t = Inr (d1, v1)" "v1 \<notin> issued s"
    using Cons.prems(3) unfolding cond_written_def by metis
  then show ?case
  proof cases
    case same
    from Cons.IH [OF t(1) len same] obtain d' v' where
      g: "co_Get ops k (cond_run ops cs ?t) = Inr (d', v')"
      and imp: "v' \<in> issued ?t \<Longrightarrow> (d', v') = (d, v) \<and> (\<forall>n. co_Get ops k (cond_run ops (take n cs) ?t) = Inr (d, v))"
      by blast
    have "co_Get ops k (cond_run ops (take n (c # cs)) s) = Inr (d, v)" if "v' \<in> issued s" for n
      using imp that t(3) Cons.prems(3) by (cases n) (auto simp: cond_run_def)
    with g imp t(3) show ?thesis unfolding run by blast
  next
    case new
    from Cons.IH [OF t(1) len new(1)] obtain d' v' where
      "co_Get ops k (cond_run ops cs ?t) = Inr (d', v')" "v' \<in> issued ?t \<Longrightarrow> v' = v1"
      by blast
    with new(2) t(3) show ?thesis unfolding run by blast
  qed
qed

text \<open>No lost update: a compare-and-set that succeeds with the version of an earlier read overwrites
  exactly the value that was read; nobody wrote the key in between.\<close>

lemma cas_no_lost_update:
  assumes "inv s" "length cs < room s" "co_Get ops k s = Inr (d, v)"
    and "co_CompareAndSet ops k d2 v (cond_run ops cs s) = (Inr w, s')"
  shows "(\<forall>n. co_Get ops k (cond_run ops (take n cs) s) = Inr (d, v)) \<and>
    co_Get ops k s' = Inr (d2, w) \<and> w \<notin> issued (cond_run ops cs s) \<and> inv s'"
proof -
  let ?t = "cond_run ops cs s"
  from run_room [of s cs] assms(1,2) have t: "inv ?t" "0 < room ?t" by auto
  from cas_ok [OF assms(4) t] obtain d0 where d0: "co_Get ops k ?t = Inr (d0, v)"
    and w: "cond_written ops issued k d2 w ?t s'" "inv s'" by blast
  have "v \<in> issued s" using get_issued assms(1,3) by blast
  with run_keeps_or_renews [OF assms(1) _ assms(3), of cs] d0 assms(2)
  have "\<forall>n. co_Get ops k (cond_run ops (take n cs) s) = Inr (d, v)" by fastforce
  with w show ?thesis by (auto simp: cond_written_def)
qed

text \<open>A compare-and-set with the version of an earlier read never reports a stale version when
  nobody else wrote.\<close>

lemma cas_uncontended:
  "co_Get ops k s = Inr (d, v) \<Longrightarrow> co_CompareAndSet ops k d2 v s \<noteq> (Inl ErrPrecondition, s')"
  using cas_stale by blast

end

section \<open>MemConditionalStore keeps the promises\<close>

lemma unat_seq_Suc: "0 < mem_room m \<Longrightarrow> unat (ms_seq m + 1) = Suc (unat (ms_seq m))"
  by (simp add: mem_room_def unat_word_ariths)

lemma mem_issued_Suc:
  "0 < mem_room m \<Longrightarrow> mem_issued (m\<lparr>ms_seq := ms_seq m + 1, ms_obj := ob\<rparr>) =
     insert (CHR ''v'' # format_uint (unat (ms_seq m + 1))) (mem_issued m)"
  by (auto simp: mem_issued_def unat_seq_Suc le_Suc_eq)

lemma mem_written:
  assumes room: "0 < mem_room m" and inv: "mem_inv m"
    and v: "v = CHR ''v'' # format_uint (unat (ms_seq m + 1))"
    and m': "m' = m\<lparr>ms_seq := ms_seq m + 1, ms_obj := (ms_obj m)(k \<mapsto> memObject d v)\<rparr>"
  shows "cond_written mem_cond_ops mem_issued k d v m m' \<and> mem_inv m' \<and> mem_room m = Suc (mem_room m')"
proof (intro conjI)
  have iss: "mem_issued m' = insert v (mem_issued m)"
    using mem_issued_Suc [OF room] unfolding m' v by simp
  have "v \<notin> mem_issued m" using room by (auto simp: v mem_issued_def unat_seq_Suc)
  with iss show "cond_written mem_cond_ops mem_issued k d v m m'"
    by (simp add: cond_written_def mem_cond_ops_def Mem_Get_def m')
  show "mem_inv m'" using inv unfolding mem_inv_def iss by (auto simp: m')
  show "mem_room m = Suc (mem_room m')"
    using room unat_seq_Suc [OF room] by (simp add: m' mem_room_def)
qed

interpretation mem_cs: cond_store mem_cond_ops mem_inv mem_room mem_issued
proof unfold_locales
  fix k d v w e d0 and m m' :: mem_store
  note defs = mem_cond_ops_def Mem_PutIfAbsent_def Mem_CompareAndSet_def Mem_Get_def nextVersion_def Let_def
  show "v \<in> mem_issued m" if "mem_inv m" "co_Get mem_cond_ops k m = Inr (d, v)"
    using that by (auto simp: defs mem_inv_def split: option.splits)
  show "m' = m" if "co_PutIfAbsent mem_cond_ops k d m = (Inl e, m')"
    using that by (auto simp: defs split: option.splits)
  show "\<exists>x. co_Get mem_cond_ops k m = Inr x"
    if "co_PutIfAbsent mem_cond_ops k d m = (Inl ErrPrecondition, m')"
    using that by (auto simp: defs split: option.splits)
  show "co_Get mem_cond_ops k m = Inl ErrCondNotFound \<and> cond_written mem_cond_ops mem_issued k d v m m' \<and>
      mem_inv m' \<and> mem_room m = Suc (mem_room m')"
    if "co_PutIfAbsent mem_cond_ops k d m = (Inr v, m')" "mem_inv m" "0 < mem_room m"
    using that(1) mem_written [OF that(3,2), of v m' k d] by (auto simp: defs split: option.splits)
  show "m' = m" if "co_CompareAndSet mem_cond_ops k d v m = (Inl e, m')"
    using that by (auto simp: defs split: option.splits if_splits)
  show "co_Get mem_cond_ops k m \<noteq> Inr (d0, v)"
    if "co_CompareAndSet mem_cond_ops k d v m = (Inl ErrPrecondition, m')"
    using that by (auto simp: defs split: option.splits if_splits)
  show "(\<exists>d0. co_Get mem_cond_ops k m = Inr (d0, v)) \<and> cond_written mem_cond_ops mem_issued k d w m m' \<and>
      mem_inv m' \<and> mem_room m = Suc (mem_room m')"
    if "co_CompareAndSet mem_cond_ops k d v m = (Inr w, m')" "mem_inv m" "0 < mem_room m"
    using that(1) mem_written [OF that(3,2), of w m' k d] by (auto simp: defs split: option.splits if_splits)
qed

lemma mem_inv_New [simp]: "mem_inv NewMemConditionalStore"
  by (simp add: mem_inv_def NewMemConditionalStore_def)

lemma mem_room_New [simp]: "mem_room NewMemConditionalStore = 2 ^ 64 - 1"
  by (simp add: mem_room_def NewMemConditionalStore_def)

text \<open>C16: No lost update on the in-process conditional store. Take any store reached from the empty
  one by operations \<open>cs0\<close>, a read of a key, any operations \<open>cs\<close> of other clients, and then a
  compare-and-set with the version that was read. If it succeeds, the key held exactly the value
  read at every moment in between; if nobody interfered it does succeed. (Fewer than 2^64 - 1
  operations, so that the sequence number does not wrap.)\<close>

theorem mem_cas_no_lost_update:
  assumes "length cs0 + length cs < 2 ^ 64 - 1"
    and "s = cond_run mem_cond_ops cs0 NewMemConditionalStore"
    and "Mem_Get k s = Inr (d, v)"
  shows "(Mem_CompareAndSet k d2 v (cond_run mem_cond_ops cs s) = (Inr w, s') \<longrightarrow>
      (\<forall>n. Mem_Get k (cond_run mem_cond_ops (take n cs) s) = Inr (d, v)) \<and> Mem_Get k s' = Inr (d2, w)) \<and>
    (\<exists>w s'. Mem_CompareAndSet k d2 v s = (Inr w, s'))"
proof
  have ops: "co_Get mem_cond_ops = Mem_Get" "co_CompareAndSet mem_cond_ops = Mem_CompareAndSet"
    by (simp_all add: mem_cond_ops_def)
  have "mem_inv s" "length cs < mem_room s"
    using mem_cs.run_room [of NewMemConditionalStore cs0] assms(1,2) by auto
  from mem_cs.cas_no_lost_update [OF this, unfolded ops, OF assms(3)]
  show "Mem_CompareAndSet k d2 v (cond_run mem_cond_ops cs s) = (Inr w, s') \<longrightarrow>
      (\<forall>n. Mem_Get k (cond_run mem_cond_ops (take n cs) s) = Inr (d, v)) \<and> Mem_Get k s' = Inr (d2, w)"
    by blast
  show "\<exists>w s'. Mem_CompareAndSet k d2 v s = (Inr w, s')"
    using assms(3) by (auto simp: Mem_Get_def Mem_CompareAndSet_def nextVersion_def Let_def split: option.splits)
qed

theorem mem_cas_no_lost_update_witness:
  "Mem_CompareAndSet ''k'' ''y'' ''v1''
     (cond_run mem_cond_ops [PutOp ''other'' ''z''] (cond_run mem_cond_ops [PutOp ''k'' ''x''] NewMemConditionalStore))
   = (Inr ''v3'', \<lparr>ms_obj = [''k'' \<mapsto> memObject ''y'' ''v3'', ''other'' \<mapsto> memObject ''z'' ''v2''], ms_seq = 3\<rparr>) \<and>
   Mem_Get ''k'' (cond_run mem_cond_ops (take 1 [PutOp ''other'' ''z''])
     (cond_run mem_cond_ops [PutOp ''k'' ''x''] NewMemConditionalStore)) = Inr (''x'', ''v1'')"
proof -
  let ?s = "cond_run mem_cond_ops [PutOp ''k'' ''x''] NewMemConditionalStore"
  have f: "format_uint (Suc 0) = ''1''" "format_uint 2 = ''2''" "format_uint 3 = ''3''" by code_simp+
  note defs = cond_run_def mem_cond_ops_def NewMemConditionalStore_def Mem_PutIfAbsent_def nextVersion_def
    Let_def Mem_Get_def Mem_CompareAndSet_def f
  have g: "Mem_Get ''k'' ?s = Inr (''x'', ''v1'')" by (simp add: defs)
  have c: "Mem_CompareAndSet ''k'' ''y'' ''v1'' (cond_run mem_cond_ops [PutOp ''other'' ''z''] ?s) =
      (Inr ''v3'', \<lparr>ms_obj = [''k'' \<mapsto> memObject ''y'' ''v3'', ''other'' \<mapsto> memObject ''z'' ''v2''], ms_seq = 3\<rparr>)"
    by (simp add: defs fun_upd_twist)
  have "length [PutOp ''k'' ''x''] + length [PutOp ''other'' ''z''] < 2 ^ 64 - 1" by simp
  from mem_cas_no_lost_update [OF this refl g] c show ?thesis by blast
qed

end
