(* ===== verification/Json.thy ===== *)
theory Json
  imports Prelude
begin

text \<open>
  The part of Go's \<^verbatim>\<open>encoding/json\<close> the sources use for their durable documents: compact printing
  (\<^verbatim>\<open>json.Marshal\<close>, with its HTML-safe string escapes) and parsing into struct fields
  (\<^verbatim>\<open>json.Unmarshal\<close>: white space, escapes, unknown members ignored, members matched up to letter case,
  \<^verbatim>\<open>null\<close> leaving a field as it is, a later duplicate winning, a member of the wrong type an error).
  Strings are taken to be valid UTF-8: the replacement of invalid sequences by U+FFFD and the escapes
  of U+2028 and U+2029 are left out. The main lemma is that parsing inverts printing.
\<close>

datatype json =
    JNull
  | JBool bool
  | JNum bytes
  | JStr bytes
  | JArr "json list"
  | JObj "(bytes \<times> json) list"

section \<open>Printing\<close>

definition hex_digit :: "nat \<Rightarrow> char" where
  "hex_digit n = (if n < 10 then char_of (48 + n) else char_of (87 + n))"

definition short_esc :: "char \<Rightarrow> char option" where
  "short_esc = map_of
     [(CHR 0x22, CHR 0x22), (CHR 0x5C, CHR 0x5C), (CHR 0x08, CHR ''b''), (CHR 0x0C, CHR ''f''),
      (CHR 0x0A, CHR ''n''), (CHR 0x0D, CHR ''r''), (CHR 0x09, CHR ''t'')]"

definition needs_u_esc :: "char \<Rightarrow> bool" where
  "needs_u_esc c \<longleftrightarrow> (of_char c :: nat) < 32 \<or> c \<in> set ''<>&''"

definition json_esc :: "char \<Rightarrow> bytes" where
  "json_esc c =
     (case short_esc c of
        Some e \<Rightarrow> [CHR 0x5C, e]
      | None \<Rightarrow>
          if needs_u_esc c
          then [CHR 0x5C, CHR ''u'', CHR ''0'', CHR ''0'', hex_digit (of_char c div 16), hex_digit (of_char c mod 16)]
          else [c])"

definition json_quote :: "bytes \<Rightarrow> bytes" where
  "json_quote s = CHR 0x22 # concat (map json_esc s) @ [CHR 0x22]"

fun json_print :: "json \<Rightarrow> bytes"
  and json_print_elems :: "json list \<Rightarrow> bytes"
  and json_print_members :: "(bytes \<times> json) list \<Rightarrow> bytes" where
  "json_print JNull = ''null''"
| "json_print (JBool b) = (if b then ''true'' else ''false'')"
| "json_print (JNum lit) = lit"
| "json_print (JStr s) = json_quote s"
| "json_print (JArr []) = ''[]''"
| "json_print (JArr (x # xs)) = CHR ''['' # json_print_elems (x # xs)"
| "json_print (JObj []) = ''{}''"
| "json_print (JObj (m # ms)) = CHR ''{'' # json_print_members (m # ms)"
| "json_print_elems [] = []"
| "json_print_elems [x] = json_print x @ '']''"
| "json_print_elems (x # y # xs) = json_print x @ CHR '','' # json_print_elems (y # xs)"
| "json_print_members [] = []"
| "json_print_members [(k, v)] = json_quote k @ CHR '':'' # json_print v @ ''}''"
| "json_print_members ((k, v) # m # ms) =
     json_quote k @ CHR '':'' # json_print v @ CHR '','' # json_print_members (m # ms)"

section \<open>Parsing\<close>

definition is_ws :: "char \<Rightarrow> bool" where
  "is_ws c \<longleftrightarrow> c = CHR '' '' \<or> c = CHR 0x09 \<or> c = CHR 0x0A \<or> c = CHR 0x0D"

definition skip_ws :: "bytes \<Rightarrow> bytes" where
  "skip_ws = dropWhile is_ws"

definition hex_val :: "char \<Rightarrow> nat option" where
  "hex_val c =
     (let n = of_char c in
      if 48 \<le> n \<and> n < 58 then Some (n - 48)
      else if 97 \<le> n \<and> n < 103 then Some (n - 87)
      else if 65 \<le> n \<and> n < 71 then Some (n - 55)
      else None)"

fun hex4 :: "bytes \<Rightarrow> (nat \<times> bytes) option" where
  "hex4 (a # b # c # d # r) =
     (case (hex_val a, hex_val b, hex_val c, hex_val d) of
        (Some w, Some x, Some y, Some z) \<Rightarrow> Some (((w * 16 + x) * 16 + y) * 16 + z, r)
      | _ \<Rightarrow> None)"
| "hex4 _ = None"

text \<open>\<^verbatim>\<open>utf8.AppendRune\<close>.\<close>

definition utf8_rune :: "nat \<Rightarrow> bytes" where
  "utf8_rune u =
     (if u < 128 then [char_of u]
      else if u < 2048 then [char_of (192 + u div 64), char_of (128 + u mod 64)]
      else if u < 65536
        then [char_of (224 + u div 4096), char_of (128 + u div 64 mod 64), char_of (128 + u mod 64)]
      else [char_of (240 + u div 262144), char_of (128 + u div 4096 mod 64),
            char_of (128 + u div 64 mod 64), char_of (128 + u mod 64)])"

text \<open>A \<^verbatim>\<open>\u\<close> escape after the \<^verbatim>\<open>u\<close>: a surrogate pair is combined, an unpaired surrogate is U+FFFD.\<close>

definition unicode_esc :: "bytes \<Rightarrow> (bytes \<times> bytes) option" where
  "unicode_esc r =
     (case hex4 r of None \<Rightarrow> None
      | Some (u, r1) \<Rightarrow>
          if 55296 \<le> u \<and> u < 57344 then
            (if u < 56320 \<and> take 2 r1 = [CHR 0x5C, CHR ''u''] then
               (case hex4 (drop 2 r1) of
                  Some (l, r2) \<Rightarrow>
                    if 56320 \<le> l \<and> l < 57344
                    then Some (utf8_rune (65536 + (u - 55296) * 1024 + (l - 56320)), r2)
                    else Some (utf8_rune 65533, r1)
                | None \<Rightarrow> None)
             else Some (utf8_rune 65533, r1))
          else Some (utf8_rune u, r1))"

definition simple_esc :: "char \<Rightarrow> char option" where
  "simple_esc = map_of
     [(CHR 0x22, CHR 0x22), (CHR 0x5C, CHR 0x5C), (CHR ''/'', CHR ''/''), (CHR ''b'', CHR 0x08),
      (CHR ''f'', CHR 0x0C), (CHR ''n'', CHR 0x0A), (CHR ''r'', CHR 0x0D), (CHR ''t'', CHR 0x09)]"

lemma hex4_length: "hex4 r = Some (u, r') \<Longrightarrow> length r' < length r"
  by (cases r rule: hex4.cases) (auto split: option.splits)

lemma unicode_esc_length: "unicode_esc r = Some (x, r') \<Longrightarrow> length r' < length r"
  by (auto simp: unicode_esc_def split: option.splits if_splits dest!: hex4_length)

text \<open>The body of a string literal up to the closing quote.\<close>

function p_string :: "bytes \<Rightarrow> (bytes \<times> bytes) option" where
  "p_string s =
     (case s of [] \<Rightarrow> None
      | c # r \<Rightarrow>
          if c = CHR 0x22 then Some ([], r)
          else if c = CHR 0x5C then
            (case r of [] \<Rightarrow> None
             | e # r1 \<Rightarrow>
                 if e = CHR ''u'' then
                   (case unicode_esc r1 of None \<Rightarrow> None
                    | Some (x, r2) \<Rightarrow> map_option (\<lambda>(y, t). (x @ y, t)) (p_string r2))
                 else
                   (case simple_esc e of None \<Rightarrow> None
                    | Some x \<Rightarrow> map_option (\<lambda>(y, t). (x # y, t)) (p_string r1)))
          else if (of_char c :: nat) < 32 then None
          else map_option (\<lambda>(y, t). (c # y, t)) (p_string r))"
  by pat_completeness auto

termination
  by (relation "measure length") (auto dest!: unicode_esc_length)

declare p_string.simps [simp del]

definition num_char :: "char \<Rightarrow> bool" where
  "num_char c \<longleftrightarrow> is_digit c \<or> c = CHR ''-'' \<or> c = CHR ''+'' \<or> c = CHR ''.'' \<or> c = CHR ''e'' \<or> c = CHR ''E''"

text \<open>The number grammar: \<^verbatim>\<open>-?(0|[1-9][0-9]*)(\.[0-9]+)?([eE][+-]?[0-9]+)?\<close>.\<close>

definition strip_sign :: "char set \<Rightarrow> bytes \<Rightarrow> bytes" where
  "strip_sign S s = (case s of [] \<Rightarrow> [] | c # r \<Rightarrow> if c \<in> S then r else s)"

definition valid_exp :: "bytes \<Rightarrow> bool" where
  "valid_exp s =
     (case s of [] \<Rightarrow> True
      | c # r \<Rightarrow> (c = CHR ''e'' \<or> c = CHR ''E'') \<and>
          (let t = strip_sign {CHR ''+'', CHR ''-''} r in t \<noteq> [] \<and> list_all is_digit t))"

definition valid_frac :: "bytes \<Rightarrow> bool" where
  "valid_frac s =
     (case s of [] \<Rightarrow> True
      | c # r \<Rightarrow> if c = CHR ''.'' then takeWhile is_digit r \<noteq> [] \<and> valid_exp (dropWhile is_digit r)
                 else valid_exp s)"

definition valid_number :: "bytes \<Rightarrow> bool" where
  "valid_number s =
     (let t = strip_sign {CHR ''-''} s; int_part = takeWhile is_digit t in
      int_part \<noteq> [] \<and> (hd int_part = CHR ''0'' \<longrightarrow> length int_part = 1) \<and> valid_frac (dropWhile is_digit t))"

definition p_lit :: "bytes \<Rightarrow> json \<Rightarrow> bytes \<Rightarrow> (json \<times> bytes) option" where
  "p_lit w v s = (if take (length w) s = w then Some (v, drop (length w) s) else None)"

definition expect_char :: "char \<Rightarrow> bytes \<Rightarrow> bytes option" where
  "expect_char c s = (case skip_ws s of [] \<Rightarrow> None | d # r \<Rightarrow> if d = c then Some r else None)"

fun p_value :: "nat \<Rightarrow> bytes \<Rightarrow> (json \<times> bytes) option"
  and p_elems :: "nat \<Rightarrow> bytes \<Rightarrow> (json list \<times> bytes) option"
  and p_members :: "nat \<Rightarrow> bytes \<Rightarrow> ((bytes \<times> json) list \<times> bytes) option" where
  "p_value 0 s = None"
| "p_value (Suc n) s =
     (case skip_ws s of [] \<Rightarrow> None
      | c # r \<Rightarrow>
          if c = CHR ''{'' then
            (case expect_char (CHR ''}'') r of Some t \<Rightarrow> Some (JObj [], t)
             | None \<Rightarrow> map_option (\<lambda>(ms, t). (JObj ms, t)) (p_members n r))
          else if c = CHR ''['' then
            (case expect_char (CHR '']'') r of Some t \<Rightarrow> Some (JArr [], t)
             | None \<Rightarrow> map_option (\<lambda>(xs, t). (JArr xs, t)) (p_elems n r))
          else if c = CHR 0x22 then map_option (\<lambda>(x, t). (JStr x, t)) (p_string r)
          else if c = CHR ''n'' then p_lit ''null'' JNull (c # r)
          else if c = CHR ''t'' then p_lit ''true'' (JBool True) (c # r)
          else if c = CHR ''f'' then p_lit ''false'' (JBool False) (c # r)
          else
            (let lit = takeWhile num_char (c # r) in
             if valid_number lit then Some (JNum lit, dropWhile num_char (c # r)) else None))"
| "p_elems 0 s = None"
| "p_elems (Suc n) s =
     (case p_value n s of None \<Rightarrow> None
      | Some (v, t) \<Rightarrow>
          (case expect_char (CHR '']'') t of Some u \<Rightarrow> Some ([v], u)
           | None \<Rightarrow>
               (case expect_char (CHR '','') t of None \<Rightarrow> None
                | Some u \<Rightarrow> map_option (\<lambda>(vs, w). (v # vs, w)) (p_elems n u))))"
| "p_members 0 s = None"
| "p_members (Suc n) s =
     (case expect_char (CHR 0x22) s of None \<Rightarrow> None
      | Some r \<Rightarrow>
          (case p_string r of None \<Rightarrow> None
           | Some (k, r1) \<Rightarrow>
               (case expect_char (CHR '':'') r1 of None \<Rightarrow> None
                | Some r2 \<Rightarrow>
                    (case p_value n r2 of None \<Rightarrow> None
                     | Some (v, t) \<Rightarrow>
                         (case expect_char (CHR ''}'') t of Some u \<Rightarrow> Some ([(k, v)], u)
                          | None \<Rightarrow>
                              (case expect_char (CHR '','') t of None \<Rightarrow> None
                               | Some u \<Rightarrow> map_option (\<lambda>(ms, w). ((k, v) # ms, w)) (p_members n u)))))))"

text \<open>A whole document: one value and white space. Every nested call of \<open>p_value\<close> comes after at least
  one character was consumed and every element or member costs one more unit of fuel, so twice the
  length of the text is enough.\<close>

definition json_parse :: "bytes \<Rightarrow> json option" where
  "json_parse s =
     (case p_value (2 * length s + 2) s of None \<Rightarrow> None
      | Some (v, r) \<Rightarrow> if skip_ws r = [] then Some v else None)"

section \<open>Struct fields\<close>

text \<open>Member names are matched up to letter case; outside ASCII only U+017F and U+212A fold to letters.\<close>

fun fold_name :: "bytes \<Rightarrow> bytes" where
  "fold_name [] = []"
| "fold_name (c # r) =
     (if c = CHR 0xC5 \<and> take 1 r = [CHR 0xBF] then CHR ''S'' # fold_name (drop 1 r)
      else if c = CHR 0xE2 \<and> take 2 r = [CHR 0x84, CHR 0xAA] then CHR ''K'' # fold_name (drop 2 r)
      else (let n = of_char c :: nat in if 97 \<le> n \<and> n < 123 then char_of (n - 32) else c) # fold_name r)"

text \<open>The value of a field: its zero value, overwritten by every matching member in order.\<close>

fun json_field :: "(json \<Rightarrow> 'a option) \<Rightarrow> bytes \<Rightarrow> 'a \<Rightarrow> (bytes \<times> json) list \<Rightarrow> 'a option" where
  "json_field dec name x [] = Some x"
| "json_field dec name x ((k, v) # ms) =
     (if fold_name k = fold_name name \<and> v \<noteq> JNull
      then (case dec v of None \<Rightarrow> None | Some y \<Rightarrow> json_field dec name y ms)
      else json_field dec name x ms)"

definition dec_uint :: "nat \<Rightarrow> json \<Rightarrow> nat option" where
  "dec_uint bits j =
     (case j of JNum lit \<Rightarrow>
        if lit \<noteq> [] \<and> list_all is_digit lit \<and> parse_dec lit < 2 ^ bits then Some (parse_dec lit) else None
      | _ \<Rightarrow> None)"

definition dec_int :: "json \<Rightarrow> int option" where
  "dec_int j =
     (case j of JNum lit \<Rightarrow>
        (let neg = (take 1 lit = ''-''); ds = (if neg then drop 1 lit else lit);
             n = int (parse_dec ds); z = (if neg then - n else n) in
         if ds \<noteq> [] \<and> list_all is_digit ds \<and> - (2 ^ 63) \<le> z \<and> z < 2 ^ 63 then Some z else None)
      | _ \<Rightarrow> None)"

definition dec_string :: "json \<Rightarrow> bytes option" where
  "dec_string j = (case j of JStr s \<Rightarrow> Some s | _ \<Rightarrow> None)"

text \<open>The members of a top-level struct value; \<^verbatim>\<open>null\<close> leaves every field at its zero value.\<close>

definition dec_struct :: "json \<Rightarrow> (bytes \<times> json) list option" where
  "dec_struct j = (case j of JObj ms \<Rightarrow> Some ms | JNull \<Rightarrow> Some [] | _ \<Rightarrow> None)"

lemma json_field_simps:
  "json_field dec name x ((k, JNum lit) # ms) =
     (if fold_name k = fold_name name then (case dec (JNum lit) of None \<Rightarrow> None | Some y \<Rightarrow> json_field dec name y ms)
      else json_field dec name x ms)"
  "json_field dec name x ((k, JStr t) # ms) =
     (if fold_name k = fold_name name then (case dec (JStr t) of None \<Rightarrow> None | Some y \<Rightarrow> json_field dec name y ms)
      else json_field dec name x ms)"
  by simp_all

section \<open>Parsing inverts printing\<close>

fun wf_json :: "json \<Rightarrow> bool" where
  "wf_json (JNum lit) = (valid_number lit \<and> list_all num_char lit)"
| "wf_json (JArr xs) = list_all wf_json xs"
| "wf_json (JObj ms) = list_all (\<lambda>m. wf_json (snd m)) ms"
| "wf_json _ = True"

definition no_num :: "bytes \<Rightarrow> bool" where
  "no_num r \<longleftrightarrow> (case r of [] \<Rightarrow> True | c # _ \<Rightarrow> \<not> num_char c)"

lemma hex_val_digit: "n < 16 \<Longrightarrow> hex_val (hex_digit n) = Some n"
  by (auto simp: hex_val_def hex_digit_def Let_def)

lemma short_esc_simple: "short_esc c = Some e \<Longrightarrow> simple_esc e = Some c \<and> e \<noteq> CHR ''u''"
  by (auto simp: short_esc_def simple_esc_def split: if_splits)

lemma short_esc_None: "short_esc c = None \<Longrightarrow> c \<noteq> CHR 0x22 \<and> c \<noteq> CHR 0x5C"
  by (auto simp: short_esc_def split: if_splits)

lemma needs_u_esc_small: "needs_u_esc c \<Longrightarrow> (of_char c :: nat) < 128"
  by (auto simp: needs_u_esc_def)

lemma unicode_esc_small:
  assumes "(of_char c :: nat) < 128"
  shows "unicode_esc (CHR ''0'' # CHR ''0'' # hex_digit (of_char c div 16) # hex_digit (of_char c mod 16) # t) = Some ([c], t)"
proof -
  have "hex_val (CHR ''0'') = Some 0" by (simp add: hex_val_def)
  then have "hex4 (CHR ''0'' # CHR ''0'' # hex_digit (of_char c div 16) # hex_digit (of_char c mod 16) # t) = Some (of_char c, t)"
    using assms hex_val_digit [of "of_char c div 16"] hex_val_digit [of "of_char c mod 16"] by simp
  then show ?thesis using assms by (simp add: unicode_esc_def utf8_rune_def)
qed

lemma p_string_esc: "p_string (json_esc c @ t) = map_option (\<lambda>(y, u). (c # y, u)) (p_string t)"
proof (cases "short_esc c")
  case None
  note n = short_esc_None [OF None]
  show ?thesis
  proof (cases "needs_u_esc c")
    case True
    with None n unicode_esc_small [OF needs_u_esc_small [OF True]] show ?thesis
      by (subst p_string.simps) (simp add: json_esc_def)
  next
    case False
    with None n show ?thesis
      by (subst p_string.simps) (simp add: json_esc_def needs_u_esc_def)
  qed
next
  case (Some e)
  with short_esc_simple [OF Some] show ?thesis
    by (subst p_string.simps) (simp add: json_esc_def)
qed

lemma p_string_quote: "p_string (concat (map json_esc s) @ CHR 0x22 # rest) = Some (s, rest)"
proof (induction s)
  case Nil
  show ?case by (subst p_string.simps) simp
qed (simp add: p_string_esc)

lemma skip_ws_head: "\<not> is_ws c \<Longrightarrow> skip_ws (c # r) = c # r"
  by (simp add: skip_ws_def)

lemma expect_head: "\<not> is_ws c \<Longrightarrow> expect_char d (c # r) = (if c = d then Some r else None)"
  by (simp add: expect_char_def skip_ws_head)

lemma is_ws_simps [simp]: "\<not> is_ws (CHR 0x22)" "\<not> is_ws (CHR '','')" "\<not> is_ws (CHR '':'')" "\<not> is_ws (CHR ''['')"
  "\<not> is_ws (CHR '']'')" "\<not> is_ws (CHR ''{'')" "\<not> is_ws (CHR ''}'')"
  "\<not> is_ws (CHR ''n'')" "\<not> is_ws (CHR ''t'')" "\<not> is_ws (CHR ''f'')"
  by (simp_all add: is_ws_def)

lemma no_num_simps [simp]: "no_num []" "no_num (CHR '','' # r)" "no_num (CHR '']'' # r)" "no_num (CHR ''}'' # r)"
  by (simp_all add: no_num_def num_char_def is_digit_def)

lemma digit_not_special:
  "is_digit c \<or> c = CHR ''-'' \<Longrightarrow> \<not> is_ws c \<and> c \<noteq> CHR 0x22 \<and> c \<noteq> CHR ''['' \<and> c \<noteq> CHR '']'' \<and> c \<noteq> CHR ''{'' \<and> c \<noteq> CHR ''}'' \<and>
     c \<noteq> CHR ''n'' \<and> c \<noteq> CHR ''t'' \<and> c \<noteq> CHR ''f''"
  by (auto simp: is_digit_def is_ws_def)

lemma valid_number_head:
  assumes "valid_number lit"
  obtains c r where "lit = c # r" "is_digit c \<or> c = CHR ''-''"
  using assms by (cases lit) (auto simp: valid_number_def strip_sign_def Let_def split: if_splits)

lemma json_print_head:
  assumes "wf_json j"
  obtains c r where "json_print j = c # r" "\<not> is_ws c" "c \<noteq> CHR '']''" "c \<noteq> CHR ''}''"
proof (cases j)
  case (JNum lit)
  with assms obtain c r where "lit = c # r" "is_digit c \<or> c = CHR ''-''"
    using valid_number_head by auto
  with JNum that digit_not_special show ?thesis by auto
next
  case (JBool b)
  with that show ?thesis by (cases b) auto
next
  case (JArr xs)
  with that show ?thesis by (cases xs) auto
next
  case (JObj ms)
  with that show ?thesis by (cases ms) auto
qed (use that in \<open>auto simp: json_quote_def split: if_splits\<close>)

lemma no_num_takeWhile:
  "list_all num_char lit \<Longrightarrow> no_num r \<Longrightarrow> takeWhile num_char (lit @ r) = lit \<and> dropWhile num_char (lit @ r) = r"
  by (induction lit) (auto simp: no_num_def split: list.splits)

lemma p_value_number:
  assumes "wf_json (JNum lit)" "no_num rest"
  shows "p_value (Suc n) (lit @ rest) = Some (JNum lit, rest)"
proof -
  from assms(1) obtain c r where c: "lit = c # r" "is_digit c \<or> c = CHR ''-''"
    using valid_number_head by auto
  have "takeWhile num_char (c # r @ rest) = c # r" "dropWhile num_char (c # r @ rest) = rest"
    using no_num_takeWhile [of lit rest] assms c by (simp_all add: wf_json.simps)
  with assms(1) c digit_not_special [OF c(2)] show ?thesis
    by (simp add: skip_ws_head Let_def)
qed

lemma p_print_value:
  fixes j :: json and xs :: "json list" and ms :: "(bytes \<times> json) list"
  shows "wf_json j \<Longrightarrow> no_num rest \<Longrightarrow> 2 * length (json_print j) \<le> n \<Longrightarrow>
      p_value n (json_print j @ rest) = Some (j, rest)"
    and "list_all wf_json xs \<Longrightarrow> xs \<noteq> [] \<Longrightarrow> 2 * length (json_print_elems xs) \<le> n \<Longrightarrow>
      p_elems n (json_print_elems xs @ rest) = Some (xs, rest)"
    and "list_all (\<lambda>m. wf_json (snd m)) ms \<Longrightarrow> ms \<noteq> [] \<Longrightarrow> 2 * length (json_print_members ms) \<le> n \<Longrightarrow>
      p_members n (json_print_members ms @ rest) = Some (ms, rest)"
proof (induction j and xs and ms arbitrary: n rest and n rest and n rest
    rule: json_print_json_print_elems_json_print_members.induct)
  case 1
  then show ?case by (cases n) (simp_all add: skip_ws_head p_lit_def)
next
  case (2 b)
  then show ?case by (cases n; cases b) (simp_all add: skip_ws_head p_lit_def)
next
  case (3 lit)
  then have "n \<noteq> 0" using valid_number_head [of lit] by fastforce
  then obtain m where "n = Suc m" using not0_implies_Suc by blast
  with 3 p_value_number show ?case by simp
next
  case (4 s)
  then show ?case by (cases n) (simp_all add: skip_ws_head json_quote_def p_string_quote)
next
  case 5
  then show ?case by (cases n) (simp_all add: skip_ws_head expect_head)
next
  case (6 x xs)
  obtain m where n: "n = Suc m" "2 * length (json_print_elems (x # xs)) \<le> m"
    using 6(4) by (cases n) simp_all
  have p: "p_elems m (json_print_elems (x # xs) @ rest) = Some (x # xs, rest)"
    using 6 n(2) by simp
  have wf: "wf_json x" using 6(2) by simp
  obtain c r where c: "json_print x = c # r" "\<not> is_ws c" "c \<noteq> CHR '']''"
    using json_print_head [OF wf] by metis
  then have "expect_char (CHR '']'') (json_print_elems (x # xs) @ rest) = None"
    by (cases xs) (simp_all add: expect_head)
  with p n show ?case by (simp add: skip_ws_head)
next
  case 7
  then show ?case by (cases n) (simp_all add: skip_ws_head expect_head)
next
  case (8 m ms)
  obtain k where n: "n = Suc k" "2 * length (json_print_members (m # ms)) \<le> k"
    using 8(4) by (cases n) simp_all
  have p: "p_members k (json_print_members (m # ms) @ rest) = Some (m # ms, rest)"
    using 8 n(2) by simp
  have "expect_char (CHR ''}'') (json_print_members (m # ms) @ rest) = None"
    by (cases m; cases ms) (simp_all add: expect_head json_quote_def)
  with p n show ?case by (simp add: skip_ws_head)
next
  case 9
  then show ?case by simp
next
  case (10 x)
  then obtain m where n: "n = Suc m" "2 * length (json_print x) \<le> m" by (cases n) simp_all
  with 10 show ?case by (simp add: expect_head)
next
  case (11 x y xs)
  then obtain m where n: "n = Suc m" "2 * length (json_print x) \<le> m"
    "2 * length (json_print_elems (y # xs)) \<le> m" by (cases n) simp_all
  with 11 show ?case by (simp add: expect_head)
next
  case 12
  then show ?case by simp
next
  case (13 k v)
  then obtain m where n: "n = Suc m" "2 * length (json_print v) \<le> m" by (cases n) simp_all
  with 13 show ?case by (simp add: expect_head json_quote_def p_string_quote)
next
  case (14 k v m ms)
  then obtain i where n: "n = Suc i" "2 * length (json_print v) \<le> i"
    "2 * length (json_print_members (m # ms)) \<le> i" by (cases n) simp_all
  with 14 show ?case by (simp add: expect_head json_quote_def p_string_quote)
qed

lemma json_parse_print: "wf_json j \<Longrightarrow> json_parse (json_print j) = Some j"
  using p_print_value(1) [of j "[]" "2 * length (json_print j) + 2"]
  by (simp add: json_parse_def skip_ws_def)

section \<open>Integer literals\<close>

lemma hd_format_uint: "0 < n \<Longrightarrow> hd (format_uint n) \<noteq> CHR ''0''"
proof (induction n rule: format_uint.induct)
  case (1 n)
  show ?case
  proof (cases "n < 10")
    case True
    with 1(2) have "of_char (char_of (48 + n) :: char) \<noteq> (of_char (CHR ''0'') :: nat)" by simp
    then show ?thesis using True by (subst format_uint.simps) (metis list.sel(1))
  next
    case False
    then show ?thesis using 1 by (subst format_uint.simps) (simp add: hd_append)
  qed
qed

lemma number_uint [simp]: "valid_number (format_uint n)" "list_all num_char (format_uint n)"
proof -
  have d: "list_all is_digit (format_uint n)" by (rule format_uint_digits)
  obtain c r where c: "format_uint n = c # r" by (cases "format_uint n") simp_all
  with d have "is_digit c" by simp
  then have "c \<noteq> CHR ''-''" by (auto simp: is_digit_def)
  then have s: "strip_sign {CHR ''-''} (format_uint n) = format_uint n" by (simp add: strip_sign_def c)
  have t: "takeWhile is_digit (format_uint n) = format_uint n" "dropWhile is_digit (format_uint n) = []"
    using d by (simp_all add: list_all_iff)
  have z: "hd (format_uint n) = CHR ''0'' \<longrightarrow> length (format_uint n) = 1"
    using hd_format_uint [of n] by (cases "n = 0") (simp_all add: format_uint.simps)
  show "list_all num_char (format_uint n)"
    using d by (auto simp: list_all_iff num_char_def)
  show "valid_number (format_uint n)"
    using z by (simp add: valid_number_def s t valid_frac_def Let_def)
qed

lemma dec_uint_format [simp]: "dec_uint b (JNum (format_uint n)) = (if n < 2 ^ b then Some n else None)"
  by (simp add: dec_uint_def format_uint_digits parse_format_uint)

lemma dec_int_format: "n < 2 ^ 63 \<Longrightarrow> dec_int (JNum (format_uint n)) = Some (int n)"
proof -
  assume n: "n < 2 ^ 63"
  obtain c r where c: "format_uint n = c # r" by (cases "format_uint n") simp_all
  with format_uint_digits [of n] have "is_digit c" by simp
  then have "take 1 (format_uint n) \<noteq> ''-''" by (auto simp: c is_digit_def)
  then show ?thesis
    using n by (simp add: dec_int_def format_uint_digits parse_format_uint Let_def)
qed

end
