(* ===== verification/Reshard.thy ===== *)
theory Reshard
  imports Units Cond_Store Json
begin

text \<open>
  The reshard agreement (\<^verbatim>\<open>src/pkg/reshard\<close>): the durable \<^verbatim>\<open>State\<close>, its versioned JSON wire form, and the
  \<^verbatim>\<open>Arbiter\<close> that seeds, reads, retargets and advances it on a conditional store. An arbiter call is
  not atomic: between two of its store operations any other node may act. Each operation therefore
  takes \<open>env\<close>, what the others do to the store before its \<open>i\<close>-th step, and the theorems hold for
  every such interference.
\<close>

section \<open>State and wire form (state.go)\<close>

datatype Plan = PlanNone | PlanSplit | PlanMerge

definition Plan_String :: "Plan \<Rightarrow> string" where
  "Plan_String p = (case p of PlanNone \<Rightarrow> ''none'' | PlanSplit \<Rightarrow> ''split'' | PlanMerge \<Rightarrow> ''merge'')"

record State =
  st_Epoch :: u64
  st_Count :: UnitCount
  st_Target :: UnitCount
  st_Plan :: Plan

datatype reshard_error =
    DecodeJson
  | UnsupportedSchema int
  | BadCount unit_error
  | BadTarget unit_error
  | UnknownPlan string
  | PlanErr unit_error
  | StoreErr cond_error
  | SeedErr cond_error
  | RetargetErr cond_error
  | RetargetExhausted State
  | AdvanceErr cond_error

definition stateSchemaVersion :: int where
  "stateSchemaVersion = 1"

definition State_Encode :: "State \<Rightarrow> bytes" where
  "State_Encode s = json_print (JObj
     [(''v'', JNum (format_uint (nat stateSchemaVersion))),
      (''epoch'', JNum (format_uint (unat (st_Epoch s)))),
      (''count'', JNum (format_uint (unat (uc_n (st_Count s))))),
      (''target'', JNum (format_uint (unat (uc_n (st_Target s))))),
      (''plan'', JStr (Plan_String (st_Plan s)))])"

definition DecodeState :: "bytes \<Rightarrow> reshard_error + State" where
  "DecodeState b =
     (case Option.bind (json_parse b) dec_struct of
        None \<Rightarrow> Inl DecodeJson
      | Some ms \<Rightarrow>
          (case (json_field dec_int ''v'' 0 ms, json_field (dec_uint 64) ''epoch'' 0 ms,
                 json_field dec_int ''count'' 0 ms, json_field dec_int ''target'' 0 ms,
                 json_field dec_string ''plan'' '''' ms) of
             (Some v, Some epoch, Some count, Some target, Some plan) \<Rightarrow>
               if v \<noteq> stateSchemaVersion then Inl (UnsupportedSchema v)
               else (case NewUnitCount count of
                   Inl e \<Rightarrow> Inl (BadCount e)
                 | Inr c \<Rightarrow>
                     (case NewUnitCount target of
                        Inl e \<Rightarrow> Inl (BadTarget e)
                      | Inr t \<Rightarrow>
                          let mk = (\<lambda>p. Inr \<lparr>st_Epoch = of_nat epoch, st_Count = c, st_Target = t, st_Plan = p\<rparr>) in
                          if plan = ''none'' then mk PlanNone
                          else if plan = ''split'' then mk PlanSplit
                          else if plan = ''merge'' then mk PlanMerge
                          else Inl (UnknownPlan plan)))
           | _ \<Rightarrow> Inl DecodeJson))"

section \<open>The arbiter (arbiter.go)\<close>

definition EpochKey :: string where
  "EpochKey = ''epoch''"

definition retargetAttempts :: nat where
  "retargetAttempts = 8"

record 's Arbiter =
  ar_store :: "'s cond_ops"
  ar_key :: string

definition NewArbiter :: "'s cond_ops \<Rightarrow> 's Arbiter" where
  "NewArbiter store = \<lparr>ar_store = store, ar_key = EpochKey\<rparr>"

definition Arbiter_Read :: "'s Arbiter \<Rightarrow> 's \<Rightarrow> reshard_error + State \<times> string" where
  "Arbiter_Read a s =
     (case co_Get (ar_store a) (ar_key a) s of
        Inl e \<Rightarrow> Inl (StoreErr e)
      | Inr (data, ver) \<Rightarrow>
          (case DecodeState data of Inl e \<Rightarrow> Inl e | Inr st \<Rightarrow> Inr (st, ver)))"

definition Arbiter_Seed ::
    "'s Arbiter \<Rightarrow> (nat \<Rightarrow> 's \<Rightarrow> 's) \<Rightarrow> UnitCount \<Rightarrow> 's \<Rightarrow> (reshard_error + State) \<times> 's" where
  "Arbiter_Seed a env initial s =
     (let st = \<lparr>st_Epoch = 0, st_Count = initial, st_Target = initial, st_Plan = PlanNone\<rparr>
      in case co_PutIfAbsent (ar_store a) (ar_key a) (State_Encode st) s of
           (Inl ErrPrecondition, s) \<Rightarrow>
             (let s = env 0 s
              in (case Arbiter_Read a s of Inl e \<Rightarrow> (Inl e, s) | Inr (got, _) \<Rightarrow> (Inr got, s)))
         | (Inl e, s) \<Rightarrow> (Inl (SeedErr e), s)
         | (Inr _, s) \<Rightarrow> (Inr st, s))"

text \<open>The zero value \<^verbatim>\<open>State{}\<close>.\<close>

definition zero_State :: State where
  "zero_State = \<lparr>st_Epoch = 0, st_Count = UnitCount 0, st_Target = UnitCount 0, st_Plan = PlanNone\<rparr>"

definition planNext :: "State \<Rightarrow> reshard_error + State \<times> bool" where
  "planNext cur =
     (if uc_n (st_Target cur) = uc_n (st_Count cur) then Inr (zero_State, False)
      else if uc_n (st_Target cur) > uc_n (st_Count cur) then
        (case Double (st_Count cur) of
           Inl e \<Rightarrow> Inl (PlanErr e)
         | Inr nc \<Rightarrow> Inr (\<lparr>st_Epoch = st_Epoch cur + 1, st_Count = nc, st_Target = st_Target cur,
                           st_Plan = PlanSplit\<rparr>, True))
      else
        (case Halve (st_Count cur) of
           Inl e \<Rightarrow> Inl (PlanErr e)
         | Inr nc \<Rightarrow> Inr (\<lparr>st_Epoch = st_Epoch cur + 1, st_Count = nc, st_Target = st_Target cur,
                           st_Plan = PlanMerge\<rparr>, True)))"

text \<open>The loop of \<^verbatim>\<open>Retarget\<close>: \<open>n\<close> attempts left, \<open>i\<close> the attempt, \<open>lst\<close> the last state read. The others
  act before the read (\<open>env (2 * i)\<close>) and before the compare-and-set (\<open>env (2 * i + 1)\<close>).\<close>

fun retarget_loop ::
    "'s Arbiter \<Rightarrow> (nat \<Rightarrow> 's \<Rightarrow> 's) \<Rightarrow> UnitCount \<Rightarrow> nat \<Rightarrow> nat \<Rightarrow> State \<Rightarrow> 's \<Rightarrow> (reshard_error + State) \<times> 's" where
  "retarget_loop a env target i 0 lst s = (Inl (RetargetExhausted lst), s)"
| "retarget_loop a env target i (Suc n) lst s =
     (let s = env (2 * i) s
      in case Arbiter_Read a s of
           Inl e \<Rightarrow> (Inl e, s)
         | Inr (cur, ver) \<Rightarrow>
             if uc_n (st_Target cur) = uc_n target then (Inr cur, s)
             else
               (let next = cur\<lparr>st_Target := target\<rparr>;
                    s = env (2 * i + 1) s
                in case co_CompareAndSet (ar_store a) (ar_key a) (State_Encode next) ver s of
                     (Inl ErrPrecondition, s) \<Rightarrow> retarget_loop a env target (Suc i) n cur s
                   | (Inl e, s) \<Rightarrow> (Inl (RetargetErr e), s)
                   | (Inr _, s) \<Rightarrow> (Inr next, s)))"

definition Arbiter_Retarget ::
    "'s Arbiter \<Rightarrow> (nat \<Rightarrow> 's \<Rightarrow> 's) \<Rightarrow> UnitCount \<Rightarrow> 's \<Rightarrow> (reshard_error + State) \<times> 's" where
  "Arbiter_Retarget a env target s = retarget_loop a env target 0 retargetAttempts zero_State s"

definition Arbiter_Advance ::
    "'s Arbiter \<Rightarrow> (nat \<Rightarrow> 's \<Rightarrow> 's) \<Rightarrow> 's \<Rightarrow> (reshard_error + State \<times> bool) \<times> 's" where
  "Arbiter_Advance a env s =
     (case Arbiter_Read a s of
        Inl e \<Rightarrow> (Inl e, s)
      | Inr (cur, ver) \<Rightarrow>
          (case planNext cur of
             Inl e \<Rightarrow> (Inl e, s)
           | Inr (next, step) \<Rightarrow>
               if \<not> step then (Inr (cur, False), s)
               else
                 (let s = env 0 s
                  in case co_CompareAndSet (ar_store a) (ar_key a) (State_Encode next) ver s of
                       (Inl ErrPrecondition, s) \<Rightarrow>
                         (let s = env 1 s
                          in (case Arbiter_Read a s of
                                Inl e \<Rightarrow> (Inl e, s)
                              | Inr (winner, _) \<Rightarrow> (Inr (winner, False), s)))
                     | (Inl e, s) \<Rightarrow> (Inl (AdvanceErr e), s)
                     | (Inr _, s) \<Rightarrow> (Inr (next, True), s))))"

section \<open>Well-formed states and their distance to the target\<close>

definition state_ok :: "State \<Rightarrow> bool" where
  "state_ok st \<longleftrightarrow> unit_count_ok (st_Count st) \<and> unit_count_ok (st_Target st)"

text \<open>The number of doublings or halvings between the live count and the target.\<close>

definition reshard_dist :: "State \<Rightarrow> nat" where
  "reshard_dist st =
     nat \<bar>int (TrailingZeros32 (uc_n (st_Target st))) - int (TrailingZeros32 (uc_n (st_Count st)))\<bar>"

text \<open>\<open>n\<close> successive generations, each planned from the one before; \<^const>\<open>None\<close> when a plan fails.\<close>

fun plan_steps :: "nat \<Rightarrow> State \<Rightarrow> State option" where
  "plan_steps 0 st = Some st"
| "plan_steps (Suc n) st =
     (case planNext st of Inl _ \<Rightarrow> None | Inr (next, step) \<Rightarrow> if step then plan_steps n next else Some st)"

section \<open>Lemmas\<close>

lemma word_exp_cmp:
  assumes "i \<le> 30" "j \<le> 30"
  shows "(2 ^ i :: u32) < 2 ^ j \<longleftrightarrow> i < j" "(2 ^ i :: u32) = 2 ^ j \<longleftrightarrow> i = j"
  using assms by (simp_all add: word_less_nat_alt word_unat_eq_iff unat_exp)

lemma wire_names:
  "fold_name ''v'' = ''V''" "fold_name ''epoch'' = ''EPOCH''" "fold_name ''count'' = ''COUNT''"
  "fold_name ''target'' = ''TARGET''" "fold_name ''plan'' = ''PLAN''"
  by code_simp+

lemma u32_dec_int: "dec_int (JNum (format_uint (unat (w :: u32)))) = Some (uint w)"
proof -
  have "unat w < 2 ^ 32" using unsigned_less [of w, where ?'a = nat] by simp
  then have "unat w < 2 ^ 63" by simp
  then show ?thesis by (simp add: dec_int_format)
qed

lemma unat_u64_less: "unat (w :: u64) < 2 ^ 64"
  using unsigned_less [of w, where ?'a = nat] by simp

lemma NewUnitCount_uint: "unit_count_ok c \<Longrightarrow> NewUnitCount (uint (uc_n c)) = Inr c"
  by (erule unit_count_ok_expE) (simp add: uint_exp NewUnitCount_exp)

lemma Decode_Encode: "state_ok st \<Longrightarrow> DecodeState (State_Encode st) = Inr st"
proof -
  assume ok: "state_ok st"
  have "json_parse (State_Encode st) = Some (JObj
     [(''v'', JNum (format_uint (nat stateSchemaVersion))),
      (''epoch'', JNum (format_uint (unat (st_Epoch st)))),
      (''count'', JNum (format_uint (unat (uc_n (st_Count st))))),
      (''target'', JNum (format_uint (unat (uc_n (st_Target st))))),
      (''plan'', JStr (Plan_String (st_Plan st)))])"
    unfolding State_Encode_def by (rule json_parse_print) simp
  moreover have "dec_int (JNum (format_uint (nat stateSchemaVersion))) = Some 1"
    by (simp add: stateSchemaVersion_def dec_int_format)
  ultimately show ?thesis
    using ok unat_u64_less [of "st_Epoch st"]
    by (cases "st_Plan st")
      (simp_all add: DecodeState_def dec_struct_def json_field_simps wire_names u32_dec_int NewUnitCount_uint
        state_ok_def dec_string_def Plan_String_def stateSchemaVersion_def Let_def del: json_field.simps(2))
qed

lemma Decode_ok: "DecodeState b = Inr st \<Longrightarrow> state_ok st"
  by (auto simp: DecodeState_def state_ok_def Let_def dest!: NewUnitCount_ok
      split: option.splits sum.splits if_splits)

lemma Arbiter_Read_ok: "Arbiter_Read a s = Inr (st, ver) \<Longrightarrow> state_ok st"
  by (auto simp: Arbiter_Read_def dest!: Decode_ok split: sum.splits)

lemma state_ok_expE:
  assumes "state_ok st"
  obtains c t where "c \<le> 30" "t \<le> 30" "st_Count st = UnitCount (2 ^ c)" "st_Target st = UnitCount (2 ^ t)"
    "reshard_dist st = nat \<bar>int t - int c\<bar>"
proof -
  from assms obtain c t where
    "c \<le> 30" "st_Count st = UnitCount (2 ^ c)" "t \<le> 30" "st_Target st = UnitCount (2 ^ t)"
    unfolding state_ok_def by (metis unit_count_ok_expE)
  then show ?thesis using that by (simp add: reshard_dist_def TrailingZeros32_exp)
qed

lemma planNext_cases:
  assumes "state_ok st"
  shows "(reshard_dist st = 0 \<and> st_Count st = st_Target st \<and> planNext st = Inr (zero_State, False)) \<or>
    (\<exists>next. planNext st = Inr (next, True) \<and> state_ok next \<and> reshard_dist st = Suc (reshard_dist next) \<and>
       st_Epoch next = st_Epoch st + 1 \<and> st_Target next = st_Target st \<and>
       (Double (st_Count st) = Inr (st_Count next) \<and> st_Plan next = PlanSplit \<or>
        Halve (st_Count st) = Inr (st_Count next) \<and> st_Plan next = PlanMerge))"
proof -
  from assms obtain c t where ct: "c \<le> 30" "t \<le> 30" "st_Count st = UnitCount (2 ^ c)"
    "st_Target st = UnitCount (2 ^ t)" "reshard_dist st = nat \<bar>int t - int c\<bar>" by (rule state_ok_expE)
  note cmp = word_exp_cmp [OF ct(1,2)] word_exp_cmp [OF ct(2,1)]
  have ok: "unit_count_ok (UnitCount (2 ^ k))" if "k \<le> 30" for k
    using that by (auto simp: unit_count_ok_def)
  consider "t = c" | "c < t" | d where "c = Suc d" "t < c" 
    by (metis gr0_implies_Suc linorder_neqE_nat not_less_zero zero_less_iff_neq_zero)
  then show ?thesis
  proof cases
    case 1
    with ct show ?thesis by (simp add: planNext_def)
  next
    case 2
    let ?n = "\<lparr>st_Epoch = st_Epoch st + 1, st_Count = UnitCount (2 ^ Suc c), st_Target = st_Target st, st_Plan = PlanSplit\<rparr>"
    have D: "Double (st_Count st) = Inr (UnitCount (2 ^ Suc c))" using 2 ct Double_exp by simp
    have "planNext st = Inr (?n, True)" using 2 ct cmp D by (simp add: planNext_def)
    moreover have "state_ok ?n" using 2 ct ok [of "Suc c"] assms by (simp add: state_ok_def del: power_Suc)
    moreover have "reshard_dist st = Suc (reshard_dist ?n)"
      using 2 ct by (simp add: reshard_dist_def TrailingZeros32_exp del: power_Suc)
    ultimately show ?thesis using D by (intro disjI2 exI [of _ ?n]) simp
  next
    case 3
    let ?n = "\<lparr>st_Epoch = st_Epoch st + 1, st_Count = UnitCount (2 ^ d), st_Target = st_Target st, st_Plan = PlanMerge\<rparr>"
    have H: "Halve (st_Count st) = Inr (UnitCount (2 ^ d))" using 3 ct Halve_exp [of d] by (simp del: power_Suc)
    have "planNext st = Inr (?n, True)" using 3 ct cmp H by (simp add: planNext_def)
    moreover have "state_ok ?n" using 3 ct ok [of d] assms by (simp add: state_ok_def)
    moreover have "reshard_dist st = Suc (reshard_dist ?n)"
      using 3 ct by (simp add: reshard_dist_def TrailingZeros32_exp del: power_Suc)
    ultimately show ?thesis using H by (intro disjI2 exI [of _ ?n]) simp
  qed
qed

lemma planNext_step_ok: "state_ok st \<Longrightarrow> planNext st = Inr (next, True) \<Longrightarrow> state_ok next"
  using planNext_cases by fastforce

lemma plan_steps_converge:
  "state_ok st \<Longrightarrow> reshard_dist st = n \<Longrightarrow>
     \<exists>fin. plan_steps n st = Some fin \<and> st_Count fin = st_Target st \<and> st_Target fin = st_Target st \<and>
       st_Epoch fin = st_Epoch st + of_nat n"
proof (induction n arbitrary: st)
  case 0
  with planNext_cases [OF 0(1)] show ?case by auto
next
  case (Suc n)
  with planNext_cases [OF Suc(2)] obtain st2 where
    st2: "planNext st = Inr (st2, True)" "state_ok st2" "reshard_dist st2 = n"
      "st_Epoch st2 = st_Epoch st + 1" "st_Target st2 = st_Target st" by auto
  from Suc.IH [OF st2(2,3)] st2 show ?case by (auto simp: algebra_simps)
qed

lemma plan_steps_not_before:
  "state_ok st \<Longrightarrow> m < reshard_dist st \<Longrightarrow> plan_steps m st = Some mid \<Longrightarrow> st_Count mid \<noteq> st_Target mid"
proof (induction m arbitrary: st)
  case 0
  from planNext_cases [OF 0(1)] 0 show ?case by (auto simp: planNext_def split: if_splits)
next
  case (Suc m)
  with planNext_cases [OF Suc(2)] obtain st2 where
    st2: "planNext st = Inr (st2, True)" "state_ok st2" "reshard_dist st = Suc (reshard_dist st2)" by auto
  with Suc show ?case by auto
qed

section \<open>The arbiter over any conditional store\<close>

text \<open>One agreed change of the stored state, from \<open>cur\<close> to \<open>nxt\<close> with nothing in between: it was
  \<open>cur\<close> from the read through every operation of the others, and is \<open>nxt\<close> afterwards.\<close>

definition agreed_change ::
    "'s cond_ops \<Rightarrow> State \<Rightarrow> State \<Rightarrow> cond_op list \<Rightarrow> 's \<Rightarrow> 's \<Rightarrow> bool" where
  "agreed_change ops cur nxt cs s s' \<longleftrightarrow>
     (\<exists>v. \<forall>n. Arbiter_Read (NewArbiter ops) (cond_run ops (take n cs) s) = Inr (cur, v)) \<and>
     (\<exists>w. Arbiter_Read (NewArbiter ops) s' = Inr (nxt, w))"

lemma Arbiter_Read_iff:
  "Arbiter_Read (NewArbiter ops) s = Inr (cur, v) \<longleftrightarrow>
     (\<exists>d. co_Get ops EpochKey s = Inr (d, v) \<and> DecodeState d = Inr cur)"
  by (auto simp: Arbiter_Read_def NewArbiter_def split: sum.splits)

lemma NewArbiter_sel [simp]: "ar_store (NewArbiter ops) = ops" "ar_key (NewArbiter ops) = EpochKey"
  by (simp_all add: NewArbiter_def)

context cond_store
begin

lemma cas_agreed_change:
  assumes "inv s" "length cs < room s" "Arbiter_Read (NewArbiter ops) s = Inr (cur, v)" "state_ok nxt"
    and "co_CompareAndSet ops EpochKey (State_Encode nxt) v (cond_run ops cs s) = (Inr w, s')"
  shows "agreed_change ops cur nxt cs s s'"
proof -
  from assms(3) obtain d where d: "co_Get ops EpochKey s = Inr (d, v)" "DecodeState d = Inr cur"
    by (auto simp: Arbiter_Read_iff)
  from cas_no_lost_update [OF assms(1,2) d(1) assms(5)]
  have "\<forall>n. co_Get ops EpochKey (cond_run ops (take n cs) s) = Inr (d, v)"
    "co_Get ops EpochKey s' = Inr (State_Encode nxt, w)" by auto
  with d(2) Decode_Encode [OF assms(4)] show ?thesis
    by (auto simp: agreed_change_def Arbiter_Read_iff)
qed

lemma Advance_won:
  assumes "inv s" "length (cs 0) < room s"
    and "Arbiter_Advance (NewArbiter ops) (env_ops ops cs) s = (Inr (st, True), s')"
  shows "\<exists>cur. planNext cur = Inr (st, True) \<and> agreed_change ops cur st (cs 0) s s'"
proof -
  from assms(3) obtain cur v w where r: "Arbiter_Read (NewArbiter ops) s = Inr (cur, v)"
    and p: "planNext cur = Inr (st, True)"
    and c: "co_CompareAndSet ops EpochKey (State_Encode st) v (cond_run ops (cs 0) s) = (Inr w, s')"
    by (auto simp: Arbiter_Advance_def env_ops_def Let_def split: sum.splits prod.splits if_splits cond_error.splits)
  have "state_ok st" using Arbiter_Read_ok [OF r] p by (rule planNext_step_ok)
  from cas_agreed_change [OF assms(1,2) r this c] p show ?thesis by blast
qed

lemma Advance_not_won:
  assumes "Arbiter_Advance (NewArbiter ops) (env_ops ops cs) s = (r, s')" "\<forall>st. r \<noteq> Inr (st, True)"
  shows "s' \<in> {s, cond_run ops (cs 0) s, cond_run ops (cs 1) (cond_run ops (cs 0) s)} \<and>
    (\<forall>st. r = Inr (st, False) \<longrightarrow> (\<exists>v. Arbiter_Read (NewArbiter ops) s' = Inr (st, v)))"
  using assms
  by (auto simp: Arbiter_Advance_def env_ops_def Let_def dest!: cas_error
      split: sum.splits prod.splits if_splits cond_error.splits; metis)

lemma retarget_loop_won:
  assumes "inv s" "(\<Sum>k\<leftarrow>[2 * i..<2 * (i + n)]. length (cs k)) < room s" "unit_count_ok target"
    and "retarget_loop (NewArbiter ops) (env_ops ops cs) target i n lst s = (Inr st, s')"
  shows "\<exists>j s1. i \<le> j \<and> j < i + n \<and> s1 = fold (env_ops ops cs) [2 * i..<2 * j + 1] s \<and>
    st_Target st = target \<and>
    (s' = s1 \<and> (\<exists>v. Arbiter_Read (NewArbiter ops) s1 = Inr (st, v)) \<or>
     (\<exists>cur. st = cur\<lparr>st_Target := target\<rparr> \<and> agreed_change ops cur st (cs (2 * j + 1)) s1 s'))"
  using assms
proof (induction n arbitrary: i lst s)
  case 0
  then show ?case by simp
next
  case (Suc n)
  let ?a = "NewArbiter ops" and ?s1 = "env_ops ops cs (2 * i) s"
  let ?s2 = "env_ops ops cs (2 * i + 1) ?s1"
  have upt: "[2 * i..<2 * (i + Suc n)] = 2 * i # (2 * i + 1) # [2 * Suc i..<2 * (Suc i + n)]"
    by (simp add: upt_rec)
  let ?m = "\<Sum>k\<leftarrow>[2 * Suc i..<2 * (Suc i + n)]. length (cs k)"
  from Suc.prems(2) have "length (cs (2 * i)) + (length (cs (2 * i + 1)) + ?m) < room s"
    unfolding upt by simp
  from env_run_room [where cs = cs, OF Suc.prems(1) this]
  have s1: "inv ?s1" "length (cs (2 * i + 1)) + ?m < room ?s1" by auto
  from env_run_room [where cs = cs, OF s1] have s2: "inv ?s2" "?m < room ?s2" by auto
  have f1: "fold (env_ops ops cs) [2 * i..<2 * i + 1] s = ?s1" by simp
  from Suc.prems(4) obtain cur v where r: "Arbiter_Read ?a ?s1 = Inr (cur, v)"
    by (auto simp: Let_def split: sum.splits)
  show ?case
  proof (cases "uc_n (st_Target cur) = uc_n target")
    case True
    with Suc.prems(4) r have "st = cur" "s' = ?s1" by (auto simp: Let_def)
    with True r f1 show ?thesis
      by (intro exI [of _ i] exI [of _ ?s1]) (auto intro: UnitCount.expand)
  next
    case False
    obtain q t where c: "co_CompareAndSet ops EpochKey (State_Encode (cur\<lparr>st_Target := target\<rparr>)) v ?s2 = (q, t)"
      by fastforce
    have ok: "state_ok (cur\<lparr>st_Target := target\<rparr>)"
      using Arbiter_Read_ok [OF r] Suc.prems(3) by (simp add: state_ok_def)
    show ?thesis
    proof (cases q)
      case (Inr w)
      with Suc.prems(4) False r c have st: "st = cur\<lparr>st_Target := target\<rparr>" "s' = t" by (auto simp: Let_def)
      have "length (cs (2 * i + 1)) < room ?s1" using s1(2) by simp
      from cas_agreed_change [OF s1(1) this r ok] c Inr st(2)
      have "agreed_change ops cur (cur\<lparr>st_Target := target\<rparr>) (cs (2 * i + 1)) ?s1 s'"
        by (simp add: env_ops_def)
      with st f1 show ?thesis by (intro exI [of _ i] exI [of _ ?s1]) auto
    next
      case (Inl e)
      with c have t: "t = ?s2" using cas_error by blast
      with Suc.prems(4) False r c Inl
      have "retarget_loop ?a (env_ops ops cs) target (Suc i) n cur ?s2 = (Inr st, s')"
        by (auto simp: Let_def split: cond_error.splits)
      from Suc.IH [OF s2 Suc.prems(3) this] obtain j where
        j: "Suc i \<le> j" "j < Suc i + n" "st_Target st = target" and
        res: "s' = fold (env_ops ops cs) [2 * Suc i..<2 * j + 1] ?s2 \<and>
            (\<exists>v. Arbiter_Read ?a (fold (env_ops ops cs) [2 * Suc i..<2 * j + 1] ?s2) = Inr (st, v)) \<or>
          (\<exists>cur. st = cur\<lparr>st_Target := target\<rparr> \<and>
             agreed_change ops cur st (cs (2 * j + 1)) (fold (env_ops ops cs) [2 * Suc i..<2 * j + 1] ?s2) s')"
        by blast
      with fold_env_two [OF j(1), of ops cs 1 s] j show ?thesis by (intro exI [of _ j]) auto
    qed
  qed
qed

lemma retarget_loop_exhausted:
  assumes "retarget_loop (NewArbiter ops) (env_ops ops cs) target i n lst s = (Inl (RetargetExhausted l), s')"
    and "i \<le> j" "j < i + n"
  shows "\<exists>x. co_Get ops EpochKey (fold (env_ops ops cs) [2 * i..<2 * j + 1] s) = Inr x \<and>
    co_Get ops EpochKey (fold (env_ops ops cs) [2 * i..<2 * j + 2] s) \<noteq> Inr x"
  using assms
proof (induction n arbitrary: i lst s)
  case 0
  then show ?case by simp
next
  case (Suc n)
  let ?a = "NewArbiter ops" and ?s1 = "env_ops ops cs (2 * i) s"
  let ?s2 = "env_ops ops cs (2 * i + 1) ?s1"
  from Suc.prems(1) obtain cur v where r: "Arbiter_Read ?a ?s1 = Inr (cur, v)"
    by (auto simp: Let_def Arbiter_Read_def DecodeState_def split: sum.splits option.splits if_splits)
  from r Suc.prems(1) obtain t where
    c: "co_CompareAndSet ops EpochKey (State_Encode (cur\<lparr>st_Target := target\<rparr>)) v ?s2 = (Inl ErrPrecondition, t)"
    and rest: "retarget_loop ?a (env_ops ops cs) target (Suc i) n cur t = (Inl (RetargetExhausted l), s')"
    by (auto simp: Let_def split: sum.splits if_splits prod.splits cond_error.splits)
  have t: "t = ?s2" using c cas_error by blast
  from r obtain d where d: "co_Get ops EpochKey ?s1 = Inr (d, v)" by (auto simp: Arbiter_Read_iff)
  show ?case
  proof (cases "j = i")
    case True
    then have "[2 * i..<2 * j + 2] = [2 * i, 2 * i + 1]" "[2 * i..<2 * j + 1] = [2 * i]"
      by (simp_all add: upt_rec)
    with d cas_stale [OF c] show ?thesis by simp
  next
    case False
    with Suc.prems have "Suc i \<le> j" "j < Suc i + n" by simp_all
    from Suc.IH [OF rest [unfolded t] this] \<open>Suc i \<le> j\<close> show ?thesis
      using fold_env_two [of i j ops cs 1 s] fold_env_two [of i j ops cs 2 s] by simp
  qed
qed

lemma Seed_spec:
  assumes "inv s" "0 < room s" "unit_count_ok initial"
    and "Arbiter_Seed (NewArbiter ops) (env_ops ops cs) initial s = (Inr st, s')"
  shows "(\<exists>v. Arbiter_Read (NewArbiter ops) s' = Inr (st, v)) \<and>
    ((\<exists>x. co_Get ops EpochKey s = Inr x) \<longrightarrow> s' = cond_run ops (cs 0) s) \<and>
    (co_Get ops EpochKey s = Inl ErrCondNotFound \<longrightarrow> st_Count st = initial \<and> st_Target st = initial \<and> st_Epoch st = 0)"
proof -
  let ?st = "\<lparr>st_Epoch = 0, st_Count = initial, st_Target = initial, st_Plan = PlanNone\<rparr>"
  obtain q t where p: "co_PutIfAbsent ops EpochKey (State_Encode ?st) s = (q, t)" by fastforce
  show ?thesis
  proof (cases q)
    case (Inr v)
    with assms(4) p have "st = ?st" "s' = t" by (auto simp: Arbiter_Seed_def Let_def)
    moreover from put_ok [OF p [unfolded Inr] assms(1,2)]
    have "co_Get ops EpochKey s = Inl ErrCondNotFound" "co_Get ops EpochKey t = Inr (State_Encode ?st, v)"
      by (auto simp: cond_written_def)
    moreover have "state_ok ?st" using assms(3) by (simp add: state_ok_def)
    ultimately show ?thesis using Decode_Encode by (auto simp: Arbiter_Read_iff)
  next
    case (Inl e)
    with assms(4) p have e: "e = ErrPrecondition"
      by (auto simp: Arbiter_Seed_def Let_def split: cond_error.splits)
    from put_error p Inl have "t = s" by blast
    moreover from put_exists p Inl e obtain x where "co_Get ops EpochKey s = Inr x" by blast
    ultimately show ?thesis using assms(4) p Inl e
      by (auto simp: Arbiter_Seed_def Let_def env_ops_def split: sum.splits)
  qed
qed

end

section \<open>Properties\<close>

lemma mem_reached:
  "length cs0 + m < 2 ^ 64 - 1 \<Longrightarrow> s = cond_run mem_cond_ops cs0 NewMemConditionalStore \<Longrightarrow>
     mem_inv s \<and> m < mem_room s"
  using mem_cs.run_room [of NewMemConditionalStore cs0] by auto

text \<open>Without contention every call on a seeded store makes its step.\<close>

lemma mem_cas_uncontended:
  "Mem_Get k s = Inr (d, v) \<Longrightarrow>
     \<exists>w s'. co_CompareAndSet mem_cond_ops k d2 v s = (Inr w, s') \<and> Mem_Get k s' = Inr (d2, w)"
  by (auto simp: mem_cond_ops_def Mem_Get_def Mem_CompareAndSet_def nextVersion_def Let_def split: option.splits)

lemma mem_Read_iff:
  "Arbiter_Read (NewArbiter mem_cond_ops) s = Inr (cur, v) \<longleftrightarrow>
     (\<exists>d. Mem_Get EpochKey s = Inr (d, v) \<and> DecodeState d = Inr cur)"
  by (simp add: Arbiter_Read_iff) (simp add: mem_cond_ops_def)

lemma mem_Advance_uncontended:
  assumes "Arbiter_Read (NewArbiter mem_cond_ops) s = Inr (cur, v)" "planNext cur = Inr (next, True)"
  shows "\<exists>s' w. Arbiter_Advance (NewArbiter mem_cond_ops) (env_ops mem_cond_ops (\<lambda>_. [])) s = (Inr (next, True), s') \<and>
    Arbiter_Read (NewArbiter mem_cond_ops) s' = Inr (next, w)"
proof -
  from assms(1) obtain d where d: "Mem_Get EpochKey s = Inr (d, v)" by (auto simp: mem_Read_iff)
  have ok: "state_ok next" using planNext_step_ok [OF Arbiter_Read_ok [OF assms(1)] assms(2)] .
  from mem_cas_uncontended [OF d, of "State_Encode next"] obtain w s' where
    c: "co_CompareAndSet mem_cond_ops EpochKey (State_Encode next) v s = (Inr w, s')"
    and g: "Mem_Get EpochKey s' = Inr (State_Encode next, w)" by blast
  have "Arbiter_Advance (NewArbiter mem_cond_ops) (env_ops mem_cond_ops (\<lambda>_. [])) s = (Inr (next, True), s')"
    using assms c by (simp add: Arbiter_Advance_def env_ops_def cond_run_def)
  moreover have "Arbiter_Read (NewArbiter mem_cond_ops) s' = Inr (next, w)"
    using g Decode_Encode [OF ok] by (simp add: mem_Read_iff)
  ultimately show ?thesis by blast
qed

lemma mem_Retarget_uncontended:
  assumes "Arbiter_Read (NewArbiter mem_cond_ops) s = Inr (cur, v)" "uc_n (st_Target cur) \<noteq> uc_n target"
  shows "\<exists>s'. Arbiter_Retarget (NewArbiter mem_cond_ops) (env_ops mem_cond_ops (\<lambda>_. [])) target s
    = (Inr (cur\<lparr>st_Target := target\<rparr>), s')"
proof -
  from assms(1) obtain d where d: "Mem_Get EpochKey s = Inr (d, v)" by (auto simp: mem_Read_iff)
  from mem_cas_uncontended [OF d, of "State_Encode (cur\<lparr>st_Target := target\<rparr>)"] assms show ?thesis
    by (auto simp: Arbiter_Retarget_def retargetAttempts_def eval_nat_numeral env_ops_def cond_run_def)
qed

lemma mem_Seed_fresh:
  "\<exists>s'. Arbiter_Seed (NewArbiter mem_cond_ops) env initial NewMemConditionalStore =
     (Inr \<lparr>st_Epoch = 0, st_Count = initial, st_Target = initial, st_Plan = PlanNone\<rparr>, s')"
  by (simp add: Arbiter_Seed_def mem_cond_ops_def Mem_PutIfAbsent_def NewMemConditionalStore_def nextVersion_def Let_def)

lemma mem_seeded_Read:
  "state_ok st \<Longrightarrow> \<exists>v. Arbiter_Read (NewArbiter mem_cond_ops)
     (cond_run mem_cond_ops [PutOp EpochKey (State_Encode st)] NewMemConditionalStore) = Inr (st, v)"
  unfolding mem_Read_iff
  by (simp add: cond_run_def mem_cond_ops_def Mem_PutIfAbsent_def NewMemConditionalStore_def
      nextVersion_def Mem_Get_def Decode_Encode Let_def)

lemma demo_counts:
  "unit_count_ok (UnitCount 2)" "unit_count_ok (UnitCount 4)" "unit_count_ok (UnitCount 8)" "unit_count_ok (UnitCount 16)"
  unfolding unit_count_ok_def
  by ((rule exI [of _ 1], simp), (rule exI [of _ 2], simp), (rule exI [of _ 3], simp), (rule exI [of _ 4], simp))

text \<open>The wire form of the agreed state is stable and fails closed. Every well-formed state is read
  back from its own bytes exactly; and whatever bytes are decoded successfully, the counts in the
  result are legal unit counts.\<close>

theorem state_wire_roundtrip:
  "(state_ok st \<longrightarrow> DecodeState (State_Encode st) = Inr st) \<and>
   (DecodeState b = Inr st' \<longrightarrow> state_ok st')"
  using Decode_Encode Decode_ok by blast



text \<open>C22: An \<^verbatim>\<open>Advance\<close> is one agreed step, whatever the other nodes do meanwhile. If the call reports
  that it performed the advance, the stored state was the state it read from its read until its
  write, and the write moved it to exactly the next planned generation, so no generation is skipped
  or performed twice. If the call reports anything else it changed nothing: the store holds what the
  others left, and the state it returns is the one stored then.\<close>

theorem advance_is_one_agreed_step:
  assumes "length cs0 + length (cs 0) < 2 ^ 64 - 1"
    and "s = cond_run mem_cond_ops cs0 NewMemConditionalStore"
    and "Arbiter_Advance (NewArbiter mem_cond_ops) (env_ops mem_cond_ops cs) s = (r, s')"
  shows "case r of
      Inr (st, True) \<Rightarrow> \<exists>cur. planNext cur = Inr (st, True) \<and> agreed_change mem_cond_ops cur st (cs 0) s s'
    | Inr (st, False) \<Rightarrow>
        (s' = s \<or> s' = cond_run mem_cond_ops (cs 0 @ cs 1) s) \<and>
        (\<exists>v. Arbiter_Read (NewArbiter mem_cond_ops) s' = Inr (st, v))
    | Inl e \<Rightarrow> \<exists>n. s' = cond_run mem_cond_ops (take n (cs 0 @ cs 1)) s"
proof (cases r)
  case (Inl e)
  have "s' = cond_run mem_cond_ops (take n (cs 0 @ cs 1)) s"
    if "s' = s \<and> n = 0 \<or> s' = cond_run mem_cond_ops (cs 0) s \<and> n = length (cs 0) \<or>
      s' = cond_run mem_cond_ops (cs 1) (cond_run mem_cond_ops (cs 0) s) \<and> n = length (cs 0 @ cs 1)" for n
    using that by (auto simp: cond_run_def)
  with mem_cs.Advance_not_won [OF assms(3)] Inl show ?thesis by auto
next
  case (Inr x)
  obtain st b where x: "x = (st, b)" by fastforce
  show ?thesis
  proof (cases b)
    case True
    with mem_cs.Advance_won [of s cs st s'] mem_reached [OF assms(1,2)] assms(3) Inr x show ?thesis by auto
  next
    case False
    from Inr x False have r: "r = Inr (st, False)" by simp
    have "s' = s \<or> s' = cond_run mem_cond_ops (cs 0 @ cs 1) s"
      using assms(3) unfolding r
      by (auto simp: Arbiter_Advance_def env_ops_def Let_def cond_run_def dest!: mem_cs.cas_error
          split: sum.splits prod.splits if_splits cond_error.splits)
    with mem_cs.Advance_not_won [OF assms(3)] r show ?thesis by auto
  qed
qed

theorem advance_is_one_agreed_step_witness:
  "let s = cond_run mem_cond_ops
       [PutOp EpochKey (State_Encode \<lparr>st_Epoch = 0, st_Count = UnitCount 2, st_Target = UnitCount 8, st_Plan = PlanNone\<rparr>)]
       NewMemConditionalStore;
     (r, s') = Arbiter_Advance (NewArbiter mem_cond_ops) (env_ops mem_cond_ops (\<lambda>_. [])) s;
     st = \<lparr>st_Epoch = 1, st_Count = UnitCount 4, st_Target = UnitCount 8, st_Plan = PlanSplit\<rparr>
   in r = Inr (st, True) \<and> (\<exists>cur. planNext cur = Inr (st, True) \<and> agreed_change mem_cond_ops cur st [] s s')"
proof -
  let ?old = "\<lparr>st_Epoch = 0, st_Count = UnitCount 2, st_Target = UnitCount 8, st_Plan = PlanNone\<rparr>"
  let ?pre = "[PutOp EpochKey (State_Encode ?old)]" and ?cs = "\<lambda>_::nat. [] :: cond_op list"
  let ?s = "cond_run mem_cond_ops ?pre NewMemConditionalStore"
  let ?st = "\<lparr>st_Epoch = 1, st_Count = UnitCount 4, st_Target = UnitCount 8, st_Plan = PlanSplit\<rparr>"
  have "state_ok ?old" by (simp add: state_ok_def demo_counts)
  from mem_seeded_Read [OF this] obtain v where v: "Arbiter_Read (NewArbiter mem_cond_ops) ?s = Inr (?old, v)" by blast
  have p: "planNext ?old = Inr (?st, True)" using Double_exp [of 1] by (simp add: planNext_def)
  from mem_Advance_uncontended [OF v p] obtain s' where
    a: "Arbiter_Advance (NewArbiter mem_cond_ops) (env_ops mem_cond_ops ?cs) ?s = (Inr (?st, True), s')" by blast
  have "length ?pre + length (?cs 0) < 2 ^ 64 - 1" by simp
  from advance_is_one_agreed_step [OF this refl a] a show ?thesis by (simp add: Let_def)
qed

text \<open>\<^verbatim>\<open>Retarget\<close> changes the target and nothing else, atomically, whatever the others do. When it
  succeeds, the state it returns has the requested target; either that state was already stored, or
  there is an attempt whose write replaced the state read by the same state with the new target,
  nobody having written in between. It reports exhaustion only when the stored state was changed by
  somebody else between the read and the write of every single one of its eight attempts.\<close>

theorem retarget_is_one_agreed_step:
  assumes "length cs0 + (\<Sum>k\<leftarrow>[0..<2 * retargetAttempts]. length (cs k)) < 2 ^ 64 - 1"
    and "s = cond_run mem_cond_ops cs0 NewMemConditionalStore" and "unit_count_ok target"
    and "Arbiter_Retarget (NewArbiter mem_cond_ops) (env_ops mem_cond_ops cs) target s = (r, s')"
    and "at = (\<lambda>k. fold (env_ops mem_cond_ops cs) [0..<k] s)"
  shows "(\<forall>st. r = Inr st \<longrightarrow> st_Target st = target \<and>
      (\<exists>j<retargetAttempts.
         s' = at (2 * j + 1) \<and> (\<exists>v. Arbiter_Read (NewArbiter mem_cond_ops) s' = Inr (st, v)) \<or>
         (\<exists>cur. st = cur\<lparr>st_Target := target\<rparr> \<and>
            agreed_change mem_cond_ops cur st (cs (2 * j + 1)) (at (2 * j + 1)) s'))) \<and>
    (\<forall>l. r = Inl (RetargetExhausted l) \<longrightarrow>
      (\<forall>j<retargetAttempts. Mem_Get EpochKey (at (2 * j + 1)) \<noteq> Mem_Get EpochKey (at (2 * j + 2))))"
proof (intro conjI allI impI)
  have get: "Mem_Get = co_Get mem_cond_ops" by (simp add: mem_cond_ops_def)
  note loop = assms(4) [unfolded Arbiter_Retarget_def]
  from mem_reached [OF assms(1,2)]
  have inv: "mem_inv s" "(\<Sum>k\<leftarrow>[2 * 0..<2 * (0 + retargetAttempts)]. length (cs k)) < mem_room s" by auto
  fix st assume "r = Inr st"
  from mem_cs.retarget_loop_won [OF inv assms(3) loop [unfolded this]]
  show "st_Target st = target" and "\<exists>j<retargetAttempts.
         s' = at (2 * j + 1) \<and> (\<exists>v. Arbiter_Read (NewArbiter mem_cond_ops) s' = Inr (st, v)) \<or>
         (\<exists>cur. st = cur\<lparr>st_Target := target\<rparr> \<and>
            agreed_change mem_cond_ops cur st (cs (2 * j + 1)) (at (2 * j + 1)) s')"
    unfolding assms(5) by auto
next
  note loop = assms(4) [unfolded Arbiter_Retarget_def]
  fix l j assume r: "r = Inl (RetargetExhausted l)" and j: "j < retargetAttempts"
  from mem_cs.retarget_loop_exhausted [OF loop [unfolded r], of j] j
  show "Mem_Get EpochKey (at (2 * j + 1)) \<noteq> Mem_Get EpochKey (at (2 * j + 2))"
    unfolding assms(5) by (auto simp: mem_cond_ops_def)
qed

text \<open>Seeding agrees. A successful \<^verbatim>\<open>Seed\<close> returns the state that is stored when it returns. If a
  state was stored already it is adopted and nothing is written; only on an unseeded store does the
  call write its own epoch-0 state. Hence of two nodes seeding different counts, with no other
  operation in between, the second returns the first one's state.\<close>

theorem seed_agrees:
  assumes "length cs0 < 2 ^ 64 - 1"
    and "s = cond_run mem_cond_ops cs0 NewMemConditionalStore" and "unit_count_ok initial"
    and "Arbiter_Seed (NewArbiter mem_cond_ops) (env_ops mem_cond_ops cs) initial s = (Inr st, s')"
  shows "(\<exists>v. Arbiter_Read (NewArbiter mem_cond_ops) s' = Inr (st, v)) \<and>
    (Mem_Get EpochKey s \<noteq> Inl ErrCondNotFound \<longrightarrow> s' = cond_run mem_cond_ops (cs 0) s) \<and>
    (Mem_Get EpochKey s = Inl ErrCondNotFound \<longrightarrow>
       st = \<lparr>st_Epoch = 0, st_Count = initial, st_Target = initial, st_Plan = PlanNone\<rparr>) \<and>
    Arbiter_Seed (NewArbiter mem_cond_ops) (env_ops mem_cond_ops (\<lambda>_. [])) other s' = (Inr st, s')"
proof -
  have get: "co_Get mem_cond_ops = Mem_Get" by (simp add: mem_cond_ops_def)
  from mem_reached [of cs0 0, OF _ assms(2)] assms(1) have inv: "mem_inv s" "0 < mem_room s" by auto
  note spec = mem_cs.Seed_spec [OF inv assms(3,4), unfolded get]
  have nf: "Mem_Get EpochKey s = Inl ErrCondNotFound \<or> (\<exists>x. Mem_Get EpochKey s = Inr x)"
    by (auto simp: Mem_Get_def split: option.splits)
  have st: "st = \<lparr>st_Epoch = 0, st_Count = initial, st_Target = initial, st_Plan = PlanNone\<rparr>"
    if "Mem_Get EpochKey s = Inl ErrCondNotFound"
    using assms(4) that by (auto simp: Arbiter_Seed_def mem_cond_ops_def Mem_PutIfAbsent_def Mem_Get_def
        Let_def nextVersion_def split: option.splits)
  from spec obtain v d where r: "Arbiter_Read (NewArbiter mem_cond_ops) s' = Inr (st, v)"
    and g: "Mem_Get EpochKey s' = Inr (d, v)" by (auto simp: Arbiter_Read_iff get)
  then have "Arbiter_Seed (NewArbiter mem_cond_ops) (env_ops mem_cond_ops (\<lambda>_. [])) other s' = (Inr st, s')"
    by (auto simp: Arbiter_Seed_def Let_def env_ops_def cond_run_def mem_cond_ops_def Mem_PutIfAbsent_def Mem_Get_def
        split: option.splits)
  with spec nf st r show ?thesis by auto
qed

end
