(* ===== verification/Gen_State.thy ===== *)
theory Gen_State
  imports Pending_Route Reshard
begin

text \<open>
  The generation-aware routing state of the online reshard: \<^verbatim>\<open>genState\<close> and its resolution of keys
  (\<^verbatim>\<open>src/pkg/cluster/multibackend_reshard.go\<close>), the step toward the agreed count (\<^verbatim>\<open>multibackend_reshard_arbiter.go\<close>),
  the two-generation legs of a write (\<^verbatim>\<open>multibackend_reshard_route.go\<close>), the positions a node should mount
  (\<^verbatim>\<open>multibackend_replicated.go\<close>) and the declared count (\<^verbatim>\<open>multibackend_reshard_declared.go\<close>). \<open>clone\<close> has no counterpart:
  values are not shared. The set of cut-over units is a list without duplicates.
\<close>

section \<open>The routing state\<close>

record genState =
  gs_gen :: Generation
  gs_count :: UnitCount
  gs_nextCount :: UnitCount
  gs_cutOver :: "UnitID list"

definition hasCutOver :: "genState \<Rightarrow> UnitID \<Rightarrow> bool" where
  "hasCutOver g u \<longleftrightarrow> u \<in> set (gs_cutOver g)"

definition initGenState :: "UnitCount \<Rightarrow> genState" where
  "initGenState unitCount = \<lparr>gs_gen = 0, gs_count = unitCount, gs_nextCount = UnitCount 0, gs_cutOver = []\<rparr>"

text \<open>\<^verbatim>\<open>next.cutOver[k] = struct{}{}\<close>.\<close>

definition cut_over :: "UnitID \<Rightarrow> genState \<Rightarrow> genState" where
  "cut_over k g = g\<lparr>gs_cutOver := List.insert k (gs_cutOver g)\<rparr>"

definition resolveGenUnit :: "genState \<Rightarrow> ShardHash \<Rightarrow> GenUnit" where
  "resolveGenUnit g h =
     (let k = UnitForHash h (gs_count g)
      in if hasCutOver g k then NewGenUnit (gs_gen g + 1) (UnitForHash h (gs_nextCount g))
         else NewGenUnit (gs_gen g) k)"

definition genUnitForKey :: "(bytes \<Rightarrow> u64) \<Rightarrow> (bytes \<Rightarrow> bytes) \<Rightarrow> genState \<Rightarrow> bytes \<Rightarrow> GenUnit" where
  "genUnitForKey xxhash_Sum64 shardKey gs key = resolveGenUnit gs (HashShardKey xxhash_Sum64 (shardKey key))"

text \<open>\<open>replicaLayout\<close> is whether storage is addressed by replica position.\<close>

definition replicaLayout :: "bool \<Rightarrow> int \<Rightarrow> bool" where
  "replicaLayout multi replicationFactor \<longleftrightarrow> multi \<and> replicationFactor > 1"

definition mountRefFor :: "bool \<Rightarrow> ReplicaUnit \<Rightarrow> MountRef" where
  "mountRefFor layout ru = (if layout then ReplicaMount ru else SoleMount (ru_Unit ru))"

definition placementGenUnitForKey ::
    "(bytes \<Rightarrow> u64) \<Rightarrow> (bytes \<Rightarrow> bytes) \<Rightarrow> bool \<Rightarrow> genState \<Rightarrow> bytes \<Rightarrow> GenUnit" where
  "placementGenUnitForKey xxhash_Sum64 shardKey layout gs key =
     (let h = HashShardKey xxhash_Sum64 (shardKey key)
      in if \<not> layout \<and> \<not> IsZero (gs_nextCount gs) then NewGenUnit (gs_gen gs) (UnitForHash h (gs_count gs))
         else resolveGenUnit gs h)"

section \<open>Steps toward the agreed count\<close>

definition allCutOver :: "genState \<Rightarrow> bool" where
  "allCutOver g \<longleftrightarrow> \<not> IsZero (gs_nextCount g) \<and> int (length (gs_cutOver g)) = uint (uc_n (gs_count g))"

definition reshardGenStep :: "genState \<Rightarrow> State \<Rightarrow> genState \<times> bool" where
  "reshardGenStep local S =
     (if \<not> IsZero (gs_nextCount local) then
        (if allCutOver local
         then (\<lparr>gs_gen = gs_gen local + 1, gs_count = gs_nextCount local, gs_nextCount = UnitCount 0, gs_cutOver = []\<rparr>, True)
         else (local, False))
      else if uc_n (st_Count S) > uc_n (gs_count local) then
        (case Double (gs_count local) of
           Inl _ \<Rightarrow> (local, False)
         | Inr nc \<Rightarrow> (local\<lparr>gs_nextCount := nc\<rparr>, True))
      else if uc_n (st_Count S) < uc_n (gs_count local) then
        (case Halve (gs_count local) of
           Inl _ \<Rightarrow> (local, False)
         | Inr nc \<Rightarrow> (local\<lparr>gs_nextCount := nc\<rparr>, True))
      else (local, False))"

definition shouldAdvanceArbiter :: "genState \<Rightarrow> State \<Rightarrow> bool" where
  "shouldAdvanceArbiter local S \<longleftrightarrow>
     IsZero (gs_nextCount local) \<and> uc_n (gs_count local) = uc_n (st_Count S) \<and> uc_n (st_Count S) \<noteq> uc_n (st_Target S)"

section \<open>The legs of a write in flight\<close>

definition legsAt :: "GenUnit \<Rightarrow> Node list \<Rightarrow> routedReplica list" where
  "legsAt gu members = map (\<lambda>i. routedReplica (members ! i) (NewReplicaUnit gu (of_nat i))) [0..<length members]"

definition membersOf :: "routedReplica list \<Rightarrow> Node list" where
  "membersOf legs = map rr_member legs"

record reshardLegs =
  rl_auth :: "routedReplica list"
  rl_supp :: "routedReplica list"
  rl_stableR :: int

text \<open>\<open>replicasOf\<close> is \<^verbatim>\<open>c.unitReplicas\<close>, \<open>h\<close> the hash of the key's shard key.\<close>

definition routedReplicasForReshard :: "(GenUnit \<Rightarrow> Node list) \<Rightarrow> genState \<Rightarrow> ShardHash \<Rightarrow> reshardLegs option" where
  "routedReplicasForReshard replicasOf gs h =
     (if IsZero (gs_nextCount gs) then None
      else
        (let k = UnitForHash h (gs_count gs);
             parentGU = NewGenUnit (gs_gen gs) k;
             otherGU = NewGenUnit (gs_gen gs + 1) (UnitForHash h (gs_nextCount gs));
             parentMembers = replicasOf parentGU
         in if length parentMembers = 0 then None
            else
              (let parentLegs = legsAt parentGU parentMembers;
                   otherLegs = (if uc_n (gs_nextCount gs) > uc_n (gs_count gs) then legsAt otherGU parentMembers
                                else legsAt otherGU (replicasOf otherGU))
               in Some (if hasCutOver gs k
                        then \<lparr>rl_auth = otherLegs, rl_supp = parentLegs, rl_stableR = int (length parentMembers)\<rparr>
                        else \<lparr>rl_auth = parentLegs, rl_supp = otherLegs, rl_stableR = int (length parentMembers)\<rparr>))))"

definition parentSlotMidSplit :: "genState \<Rightarrow> ReplicaUnit \<Rightarrow> bool" where
  "parentSlotMidSplit gs ru \<longleftrightarrow> \<not> IsZero (gs_nextCount gs) \<and> gu_Gen (ru_Unit ru) = gs_gen gs"

section \<open>The positions a node should mount\<close>

definition memberNodeIDs :: "Node list \<Rightarrow> NodeID list" where
  "memberNodeIDs s = map node_ID s"

definition ownedReplicaUnitsAt :: "Generation \<Rightarrow> UnitCount \<Rightarrow> NodeID \<Rightarrow> (GenUnit \<Rightarrow> Node list) \<Rightarrow> ReplicaUnit list" where
  "ownedReplicaUnitsAt gen count self replicaAt =
     (let replicas = (\<lambda>u. memberNodeIDs (replicaAt (NewGenUnit gen u)))
      in map (\<lambda>own. NewReplicaUnit (NewGenUnit gen (or_Unit own)) (or_Replica own)) (OwnedReplicaUnits self count (Some replicas)))"

definition splitChildrenVia :: "genState \<Rightarrow> NodeID \<Rightarrow> (GenUnit \<Rightarrow> Node list) \<Rightarrow> ReplicaUnit list" where
  "splitChildrenVia gs self replicaAt =
     concat (map (\<lambda>child.
        case ParentUnit child (gs_nextCount gs) of
          Inl _ \<Rightarrow> []
        | Inr parent \<Rightarrow>
            (case first_index self (map node_ID (replicaAt (NewGenUnit (gs_gen gs) parent))) of
               None \<Rightarrow> []
             | Some slot \<Rightarrow> [NewReplicaUnit (NewGenUnit (gs_gen gs + 1) child) (of_nat slot)]))
        (IDs (gs_nextCount gs)))"

definition desiredReplicaUnitsVia :: "genState \<Rightarrow> NodeID \<Rightarrow> (GenUnit \<Rightarrow> Node list) \<Rightarrow> ReplicaUnit list" where
  "desiredReplicaUnitsVia gs self replicaAt =
     ownedReplicaUnitsAt (gs_gen gs) (gs_count gs) self replicaAt @
     (if IsZero (gs_nextCount gs) then []
      else if uc_n (gs_nextCount gs) > uc_n (gs_count gs) then splitChildrenVia gs self replicaAt
      else ownedReplicaUnitsAt (gs_gen gs + 1) (gs_nextCount gs) self replicaAt)"

section \<open>The declared count\<close>

fun declared_from :: "u32 \<Rightarrow> CoordMember list \<Rightarrow> u32 option" where
  "declared_from d [] = (if d = 0 then None else Some d)"
| "declared_from d (m # ms) =
     (if cm_DeclaredUnitCount m = 0 then None
      else if d = 0 then declared_from (cm_DeclaredUnitCount m) ms
      else if cm_DeclaredUnitCount m \<noteq> d then None
      else declared_from d ms)"

definition unanimousDeclaredCount :: "CoordMember list \<Rightarrow> u32 option" where
  "unanimousDeclaredCount members = declared_from 0 members"

text \<open>\<^verbatim>\<open>observeDeclaredReshardTarget\<close>: the arbiter and the view are \<open>None\<close> when they are not wired.\<close>

definition observeDeclaredReshardTarget ::
    "bool \<Rightarrow> 's Arbiter option \<Rightarrow> CoordMember list option \<Rightarrow> (nat \<Rightarrow> 's \<Rightarrow> 's) \<Rightarrow> genState \<Rightarrow> 's \<Rightarrow> 's" where
  "observeDeclaredReshardTarget declarative arbiter view env gs s =
     (if \<not> declarative then s
      else case (arbiter, view) of
          (Some a, Some members) \<Rightarrow>
            if \<not> IsZero (gs_nextCount gs) then s
            else (case Arbiter_Read a s of
                Inl _ \<Rightarrow> s
              | Inr (st, _) \<Rightarrow>
                  if uc_n (st_Count st) \<noteq> uc_n (st_Target st) then s
                  else (case unanimousDeclaredCount members of
                      None \<Rightarrow> s
                    | Some d \<Rightarrow>
                        if d = uc_n (st_Target st) then s
                        else (case NewUnitCount (uint d) of
                            Inl _ \<Rightarrow> s
                          | Inr target \<Rightarrow> snd (Arbiter_Retarget a env target s))))
        | _ \<Rightarrow> s)"

section \<open>Well-formed routing states\<close>

definition genState_ok :: "genState \<Rightarrow> bool" where
  "genState_ok g \<longleftrightarrow>
     unit_count_ok (gs_count g) \<and> distinct (gs_cutOver g) \<and> (\<forall>k\<in>set (gs_cutOver g). Contains (gs_count g) k) \<and>
     (if IsZero (gs_nextCount g) then gs_cutOver g = []
      else Double (gs_count g) = Inr (gs_nextCount g) \<or> Halve (gs_count g) = Inr (gs_nextCount g))"

lemma initGenState_ok: "unit_count_ok c \<Longrightarrow> genState_ok (initGenState c)"
  by (simp add: genState_ok_def initGenState_def IsZero_def)

lemma cut_over_ok: "genState_ok g \<Longrightarrow> \<not> IsZero (gs_nextCount g) \<Longrightarrow> Contains (gs_count g) k \<Longrightarrow> genState_ok (cut_over k g)"
  by (auto simp: genState_ok_def cut_over_def)

lemma Double_ok: "unit_count_ok c \<Longrightarrow> Double c = Inr d \<Longrightarrow> unit_count_ok d \<and> \<not> IsZero d \<and> uc_n c < uc_n d"
proof -
  assume "unit_count_ok c" "Double c = Inr d"
  then obtain k where k: "k < 30" "c = UnitCount (2 ^ k)" "d = UnitCount (2 ^ Suc k)" by (auto simp: Double_Inr_iff)
  have "unat (2 ^ j :: u32) = 2 ^ j" if "j \<le> 30" for j using that by (simp add: unat_exp)
  from this [of k] this [of "Suc k"] k show ?thesis
    by (auto simp: unit_count_ok_def IsZero_def word_less_nat_alt simp del: power_Suc intro: exI [of _ "Suc k"])
qed

lemma Halve_ok: "unit_count_ok c \<Longrightarrow> Halve c = Inr d \<Longrightarrow> unit_count_ok d \<and> \<not> IsZero d \<and> uc_n d < uc_n c"
proof -
  assume "unit_count_ok c" "Halve c = Inr d"
  then obtain k where k: "k < 30" "c = UnitCount (2 ^ Suc k)" "d = UnitCount (2 ^ k)" by (auto simp: Halve_Inr_iff)
  have "unat (2 ^ j :: u32) = 2 ^ j" if "j \<le> 30" for j using that by (simp add: unat_exp)
  from this [of k] this [of "Suc k"] k show ?thesis
    by (auto simp: unit_count_ok_def IsZero_def word_less_nat_alt simp del: power_Suc intro: exI [of _ k])
qed

lemma reshardGenStep_ok: "genState_ok g \<Longrightarrow> genState_ok (fst (reshardGenStep g S))"
  by (auto simp: reshardGenStep_def genState_ok_def IsZero_def split: sum.split dest: Double_ok Halve_ok)

section \<open>Every generation on the way\<close>

text \<open>One generation of a node's work: it enters the step, observes the cut-over of every old unit, and
  finalizes.\<close>

definition cut_all :: "genState \<Rightarrow> genState" where
  "cut_all g = fold cut_over (IDs (gs_count g)) g"

definition generation :: "State \<Rightarrow> genState \<Rightarrow> genState" where
  "generation S g = fst (reshardGenStep (cut_all (fst (reshardGenStep g S))) S)"

definition steady :: "Generation \<Rightarrow> UnitCount \<Rightarrow> genState" where
  "steady gen c = \<lparr>gs_gen = gen, gs_count = c, gs_nextCount = UnitCount 0, gs_cutOver = []\<rparr>"

lemma steadyI: "genState_ok g \<Longrightarrow> IsZero (gs_nextCount g) \<Longrightarrow> g = steady (gs_gen g) (gs_count g)"
  by (cases g; cases "gs_nextCount g") (auto simp: genState_ok_def steady_def IsZero_def)

lemma cut_over_fold:
  "fold cut_over ks g = g\<lparr>gs_cutOver := fold List.insert ks (gs_cutOver g)\<rparr>"
  by (induction ks arbitrary: g) (simp_all add: cut_over_def)

lemma length_fold_insert: "distinct (xs @ ys) \<Longrightarrow> length (fold List.insert ys xs) = length ys + length xs"
  by (induction ys arbitrary: xs) (auto simp: List.insert_def)

lemma IDs_facts: "length (IDs c) = unat (uc_n c)" "distinct (IDs c)"
proof -
  show "length (IDs c) = unat (uc_n c)" by (simp add: IDs_def)
  have "inj_on (of_nat :: nat \<Rightarrow> u32) {0..<unat (uc_n c)}"
  proof (rule inj_onI)
    have lt: "unat (uc_n c) < 2 ^ LENGTH(32)" by (rule unsigned_less)
    have u: "unat (of_nat z :: u32) = z" if "z \<in> {0..<unat (uc_n c)}" for z using lt that by (intro of_nat_inverse [OF refl]) simp
    fix x y assume xy: "x \<in> {0..<unat (uc_n c)}" "y \<in> {0..<unat (uc_n c)}" and e: "(of_nat x :: u32) = of_nat y"
    show "x = y" by (rule trans [OF u [OF xy(1), symmetric] trans [OF arg_cong [OF e, of unat] u [OF xy(2)]]])
  qed
  then show "distinct (IDs c)" by (simp add: IDs_def distinct_map)
qed

lemma cut_all_allCutOver: "gs_cutOver g = [] \<Longrightarrow> \<not> IsZero (gs_nextCount g) \<Longrightarrow> allCutOver (cut_all g)"
  using IDs_facts [of "gs_count g"] length_fold_insert [of "[]" "IDs (gs_count g)"]
  by (simp add: allCutOver_def cut_all_def cut_over_fold)

lemma cut_all_simps [simp]:
  "gs_gen (cut_all g) = gs_gen g" "gs_count (cut_all g) = gs_count g" "gs_nextCount (cut_all g) = gs_nextCount g"
  by (simp_all add: cut_all_def cut_over_fold)

lemma exp_less_u32: "j \<le> 30 \<Longrightarrow> k \<le> 30 \<Longrightarrow> (2 ^ j :: u32) < 2 ^ k \<longleftrightarrow> j < k"
  by (simp add: word_less_nat_alt unat_exp)

definition step_exp :: "nat \<Rightarrow> nat \<Rightarrow> nat" where
  "step_exp a b = (if a < b then Suc a else a - 1)"

lemma enter_exp:
  assumes "a \<le> 30" "b \<le> 30" "a \<noteq> b" "st_Count S = UnitCount (2 ^ b)"
  shows "reshardGenStep (steady gen (UnitCount (2 ^ a))) S =
    ((steady gen (UnitCount (2 ^ a)))\<lparr>gs_nextCount := UnitCount (2 ^ step_exp a b)\<rparr>, True)"
proof (cases "a < b")
  case True
  then have "Double (UnitCount (2 ^ a)) = Inr (UnitCount (2 ^ Suc a))" using assms by (intro Double_exp) simp
  then show ?thesis using True assms exp_less_u32 [of a b]
    by (simp add: reshardGenStep_def steady_def IsZero_def step_exp_def del: power_Suc)
next
  case False
  then obtain j where j: "a = Suc j" using assms(3) by (cases a) auto
  then have "Halve (UnitCount (2 ^ a)) = Inr (UnitCount (2 ^ j))" using assms Halve_exp [of j] by simp
  then show ?thesis using False j assms exp_less_u32 [of a b] exp_less_u32 [of b a]
    by (simp add: reshardGenStep_def steady_def IsZero_def step_exp_def del: power_Suc)
qed

lemma generation_exp:
  assumes "a \<le> 30" "b \<le> 30" "a \<noteq> b" "st_Count S = UnitCount (2 ^ b)"
  shows "generation S (steady gen (UnitCount (2 ^ a))) = steady (gen + 1) (UnitCount (2 ^ step_exp a b))"
proof -
  let ?g = "(steady gen (UnitCount (2 ^ a)))\<lparr>gs_nextCount := UnitCount (2 ^ step_exp a b)\<rparr>"
  have nz: "\<not> IsZero (gs_nextCount ?g)" using assms by (auto simp: IsZero_def step_exp_def simp del: power_Suc)
  moreover have "allCutOver (cut_all ?g)" by (rule cut_all_allCutOver) (use nz in \<open>auto simp: steady_def\<close>)
  ultimately show ?thesis unfolding generation_def enter_exp [OF assms]
    by (simp add: reshardGenStep_def) (simp add: steady_def)
qed

definition exp_at :: "nat \<Rightarrow> nat \<Rightarrow> nat \<Rightarrow> nat" where
  "exp_at a b i = (if a < b then a + i else a - i)"

lemma generations_exp:
  assumes "a \<le> 30" "b \<le> 30" "st_Count S = UnitCount (2 ^ b)" "i \<le> max a b - min a b"
  shows "(generation S ^^ i) (steady gen (UnitCount (2 ^ a))) = steady (gen + of_nat i) (UnitCount (2 ^ exp_at a b i))"
  using assms(4)
proof (induction i)
  case (Suc i)
  then have "exp_at a b i \<le> 30" "exp_at a b i \<noteq> b" "step_exp (exp_at a b i) b = exp_at a b (Suc i)"
    using assms by (auto simp: exp_at_def step_exp_def max_def min_def split: if_splits)
  with Suc generation_exp [of "exp_at a b i" b S "gen + of_nat i"] assms show ?case by (simp add: ac_simps)
qed (simp add: exp_at_def)

text \<open>C34: A node follows the agreed count one generation at a time and never skips one. From a steady state at 2^a units it
  reaches the agreed 2^b after exactly the distance of the exponents many generations, each of which enters the
  doubled or halved count of the node's own generation, whatever the agreed epoch is; on the way the node never
  races to advance the agreement, and at the agreed count it stays.\<close>

theorem agreed_count_reached:
  assumes "genState_ok g" "IsZero (gs_nextCount g)" "gs_count g = UnitCount (2 ^ a)" "st_Count S = UnitCount (2 ^ b)"
    and "a \<le> 30" "b \<le> 30"
  shows "(generation S ^^ (max a b - min a b)) g = steady (gs_gen g + of_nat (max a b - min a b)) (st_Count S) \<and>
    (\<forall>i<max a b - min a b.
      gs_gen ((generation S ^^ i) g) = gs_gen g + of_nat i \<and>
      gs_count ((generation S ^^ i) g) = UnitCount (2 ^ exp_at a b i) \<and>
      reshardGenStep ((generation S ^^ i) g) S =
        (((generation S ^^ i) g)\<lparr>gs_nextCount := UnitCount (2 ^ exp_at a b (Suc i))\<rparr>, True) \<and>
      \<not> shouldAdvanceArbiter ((generation S ^^ i) g) S) \<and>
    (\<forall>gen. reshardGenStep (steady gen (st_Count S)) S = (steady gen (st_Count S), False))"
proof (intro conjI allI impI)
  have g: "g = steady (gs_gen g) (UnitCount (2 ^ a))" using steadyI [OF assms(1,2)] assms(3) by simp
  note run = generations_exp [OF assms(5,6,4), of _ "gs_gen g", folded g]
  show "(generation S ^^ (max a b - min a b)) g = steady (gs_gen g + of_nat (max a b - min a b)) (st_Count S)"
    using run [of "max a b - min a b"] assms(4) by (simp add: exp_at_def max_def min_def split: if_splits)
  show "reshardGenStep (steady gen (st_Count S)) S = (steady gen (st_Count S), False)" for gen
    by (simp add: reshardGenStep_def steady_def IsZero_def)
  fix i assume i: "i < max a b - min a b"
  then have e: "exp_at a b i \<le> 30" "exp_at a b i \<noteq> b" "step_exp (exp_at a b i) b = exp_at a b (Suc i)"
    using assms(5,6) by (auto simp: exp_at_def step_exp_def max_def min_def split: if_splits)
  have ne: "(2 ^ exp_at a b i :: u32) \<noteq> 2 ^ b"
    using e exp_less_u32 [of "exp_at a b i" b] exp_less_u32 [of b "exp_at a b i"] assms(6) by (metis less_irrefl linorder_neqE_nat)
  have r: "(generation S ^^ i) g = steady (gs_gen g + of_nat i) (UnitCount (2 ^ exp_at a b i))" using i run [of i] by simp
  show "reshardGenStep ((generation S ^^ i) g) S =
        (((generation S ^^ i) g)\<lparr>gs_nextCount := UnitCount (2 ^ exp_at a b (Suc i))\<rparr>, True)"
    unfolding r using e enter_exp [of "exp_at a b i" b S] assms(4,6) by simp
  show "\<not> shouldAdvanceArbiter ((generation S ^^ i) g) S" unfolding r using ne assms(4) by (simp add: shouldAdvanceArbiter_def steady_def)
  show "gs_gen ((generation S ^^ i) g) = gs_gen g + of_nat i" "gs_count ((generation S ^^ i) g) = UnitCount (2 ^ exp_at a b i)"
    unfolding r by (simp_all add: steady_def)
qed

theorem agreed_count_reached_witness:
  "(generation \<lparr>st_Epoch = 9, st_Count = UnitCount 32, st_Target = UnitCount 64, st_Plan = PlanSplit\<rparr> ^^ 3) (initGenState (UnitCount 4)) =
     steady 3 (UnitCount 32)"
proof -
  have "unit_count_ok (UnitCount 4)" unfolding unit_count_ok_def by (rule exI [of _ 2]) simp
  with agreed_count_reached [of "initGenState (UnitCount 4)" 2
      "\<lparr>st_Epoch = 9, st_Count = UnitCount 32, st_Target = UnitCount 64, st_Plan = PlanSplit\<rparr>" 5] initGenState_ok [of "UnitCount 4"]
  have "(generation \<lparr>st_Epoch = 9, st_Count = UnitCount 32, st_Target = UnitCount 64, st_Plan = PlanSplit\<rparr> ^^ (max 2 5 - min 2 5))
      (initGenState (UnitCount 4)) = steady (0 + of_nat (max 2 5 - min 2 5)) (UnitCount 32)"
    by (simp add: initGenState_def IsZero_def)
  then show ?thesis by simp
qed

section \<open>Routing and mounting agree\<close>

lemma legsAt_mem:
  "leg \<in> set (legsAt gu ms) \<longleftrightarrow> (\<exists>i<length ms. leg = routedReplica (ms ! i) (NewReplicaUnit gu (of_nat i)))"
  by (auto simp: legsAt_def)

lemma owned_mem:
  assumes "\<And>gu. length (replicaAt gu) \<le> 256" "\<And>gu. distinct (map node_ID (replicaAt gu))"
    and "i < length (replicaAt (NewGenUnit gen u))" "Contains c u"
  shows "NewReplicaUnit (NewGenUnit gen u) (of_nat i) \<in> set (ownedReplicaUnitsAt gen c (node_ID (replicaAt (NewGenUnit gen u) ! i)) replicaAt)"
proof -
  let ?ms = "replicaAt (NewGenUnit gen u)" and ?R = "\<lambda>u. memberNodeIDs (replicaAt (NewGenUnit gen u))"
  have i: "unat (of_nat i :: u8) = i"
    using assms(1) [of "NewGenUnit gen u"] assms(3) by (intro of_nat_inverse [OF refl]) simp
  have "map node_ID ?ms ! j \<noteq> map node_ID ?ms ! i" if "j < i" for j
    using assms(2) [of "NewGenUnit gen u"] assms(3) that nth_eq_iff_index_eq [of "map node_ID ?ms" j i] by simp
  then have "OwnedReplica u (of_nat i) \<in> set (OwnedReplicaUnits (node_ID (?ms ! i)) c (Some ?R))"
    using assms(1,3,4) i by (subst OwnedReplicaUnits_exact) (auto simp: memberNodeIDs_def)
  then show ?thesis unfolding ownedReplicaUnitsAt_def Let_def by force
qed

lemma IDs_mem: "Contains c u \<Longrightarrow> u \<in> set (IDs c)"
  by (auto simp: IDs_def Contains_def word_less_nat_alt intro!: image_eqI [of _ _ "unat u"])

lemma split_child_mem:
  assumes "unit_count_ok c" "Double c = Inr c2" "gs_count gs = c" "gs_nextCount gs = c2"
    and "distinct (map node_ID (replicaAt (NewGenUnit (gs_gen gs) (UnitForHash h c))))"
    and "i < length (replicaAt (NewGenUnit (gs_gen gs) (UnitForHash h c)))"
  shows "NewReplicaUnit (NewGenUnit (gs_gen gs + 1) (UnitForHash h c2)) (of_nat i) \<in>
    set (splitChildrenVia gs (node_ID (replicaAt (NewGenUnit (gs_gen gs) (UnitForHash h c)) ! i)) replicaAt)"
proof -
  let ?k = "UnitForHash h c" and ?child = "UnitForHash h c2"
  let ?ms = "replicaAt (NewGenUnit (gs_gen gs) ?k)"
  have "ChildUnits ?k c = Inr (?k, ?k + uc_n c)" using UnitForHash_Contains [OF assms(1)] assms(2) by (simp add: ChildUnits_def)
  from ChildUnits_bisect [OF assms(1) this assms(2), of h] have p: "ParentUnit ?child c2 = Inr ?k" by auto
  have "first_index (node_ID (?ms ! i)) (map node_ID ?ms) = Some i"
    using assms(5,6) by (auto simp: first_index_Some_iff distinct_conv_nth)
  moreover have "?child \<in> set (IDs c2)" using IDs_mem UnitForHash_Contains Double_ok [OF assms(1,2)] by blast
  ultimately show ?thesis unfolding splitChildrenVia_def using p assms(3,4) by (auto intro!: bexI [of _ ?child])
qed

text \<open>C33: While a reshard is in flight, every position a write is sent to is one that the addressed node itself wants
  mounted: for the authoritative and the supplementary legs of any key, in a split (children at the slots of
  the parent) and in a merge (survivors at their own placement), the position of the leg is in the desired set
  that the node of the leg computes from the same routing state and placement. The authoritative legs are those of the
  unit the key resolves to, and the supplementary ones those of the other generation.\<close>

theorem reshard_legs_are_mounted:
  assumes "genState_ok gs" "routedReplicasForReshard replicasOf gs h = Some legs"
    and "\<And>gu. length (replicasOf gu) \<le> 256" "\<And>gu. distinct (map node_ID (replicasOf gu))"
  shows "(\<forall>leg\<in>set (rl_auth legs @ rl_supp legs). rr_ru leg \<in> set (desiredReplicaUnitsVia gs (node_ID (rr_member leg)) replicasOf)) \<and>
    (\<forall>leg\<in>set (rl_auth legs). ru_Unit (rr_ru leg) = resolveGenUnit gs h) \<and>
    (\<forall>leg\<in>set (rl_supp legs). ru_Unit (rr_ru leg) \<noteq> resolveGenUnit gs h)"
proof (intro conjI)
  let ?k = "UnitForHash h (gs_count gs)" and ?o = "UnitForHash h (gs_nextCount gs)"
  let ?pg = "NewGenUnit (gs_gen gs) ?k" and ?og = "NewGenUnit (gs_gen gs + 1) ?o"
  have ok: "unit_count_ok (gs_count gs)" "\<not> IsZero (gs_nextCount gs)"
    and d: "Double (gs_count gs) = Inr (gs_nextCount gs) \<or> Halve (gs_count gs) = Inr (gs_nextCount gs)"
    using assms(1,2) by (auto simp: genState_ok_def routedReplicasForReshard_def split: if_splits)
  have grow: "uc_n (gs_nextCount gs) > uc_n (gs_count gs) \<Longrightarrow> Double (gs_count gs) = Inr (gs_nextCount gs)"
    using d Halve_ok [OF ok(1)] by fastforce
  have nok: "unit_count_ok (gs_nextCount gs)" using d Double_ok [OF ok(1)] Halve_ok [OF ok(1)] by blast
  define other where "other = (if uc_n (gs_nextCount gs) > uc_n (gs_count gs) then legsAt ?og (replicasOf ?pg) else legsAt ?og (replicasOf ?og))"
  have legs: "(rl_auth legs, rl_supp legs) = (if hasCutOver gs ?k then (other, legsAt ?pg (replicasOf ?pg)) else (legsAt ?pg (replicasOf ?pg), other))"
    using assms(2) ok(2) by (auto simp: routedReplicasForReshard_def other_def Let_def split: if_splits)
  have parent: "rr_ru leg \<in> set (desiredReplicaUnitsVia gs (node_ID (rr_member leg)) replicasOf)"
    if "leg \<in> set (legsAt ?pg (replicasOf ?pg))" for leg
    using that owned_mem [of replicasOf, OF assms(3,4)] UnitForHash_Contains [OF ok(1)]
    by (auto simp: legsAt_mem desiredReplicaUnitsVia_def)
  have oth: "rr_ru leg \<in> set (desiredReplicaUnitsVia gs (node_ID (rr_member leg)) replicasOf)" if lo: "leg \<in> set other" for leg
  proof (cases "uc_n (gs_nextCount gs) > uc_n (gs_count gs)")
    case True
    then obtain i where "i < length (replicasOf ?pg)" and leg: "leg = routedReplica (replicasOf ?pg ! i) (NewReplicaUnit ?og (of_nat i))"
      using lo by (auto simp: other_def legsAt_mem)
    then have "NewReplicaUnit ?og (of_nat i) \<in> set (splitChildrenVia gs (node_ID (replicasOf ?pg ! i)) replicasOf)"
      by (intro split_child_mem [OF ok(1) grow [OF True] refl refl assms(4)])
    then show ?thesis using True ok(2) leg by (simp add: desiredReplicaUnitsVia_def)
  next
    case False
    then obtain i where "i < length (replicasOf ?og)" and leg: "leg = routedReplica (replicasOf ?og ! i) (NewReplicaUnit ?og (of_nat i))"
      using lo by (auto simp: other_def legsAt_mem)
    then have "NewReplicaUnit ?og (of_nat i) \<in> set (ownedReplicaUnitsAt (gs_gen gs + 1) (gs_nextCount gs) (node_ID (replicasOf ?og ! i)) replicasOf)"
      by (intro owned_mem [of replicasOf, OF assms(3,4)] UnitForHash_Contains [OF nok])
    then show ?thesis using False ok(2) leg by (simp add: desiredReplicaUnitsVia_def)
  qed
  show "\<forall>leg\<in>set (rl_auth legs @ rl_supp legs). rr_ru leg \<in> set (desiredReplicaUnitsVia gs (node_ID (rr_member leg)) replicasOf)"
    using legs parent oth by (auto split: if_splits)
  show "\<forall>leg\<in>set (rl_auth legs). ru_Unit (rr_ru leg) = resolveGenUnit gs h"
    using legs by (auto simp: other_def legsAt_mem resolveGenUnit_def NewReplicaUnit_def Let_def split: if_splits)
  show "\<forall>leg\<in>set (rl_supp legs). ru_Unit (rr_ru leg) \<noteq> resolveGenUnit gs h"
    using legs by (auto simp: other_def legsAt_mem resolveGenUnit_def NewReplicaUnit_def NewGenUnit_def Let_def split: if_splits)
qed

theorem reshard_legs_are_mounted_witness:
  "\<exists>legs. routedReplicasForReshard (\<lambda>_. [Node ''a'' [], Node ''b'' []])
      \<lparr>gs_gen = 2, gs_count = UnitCount 4, gs_nextCount = UnitCount 8, gs_cutOver = [1]\<rparr> 5 = Some legs \<and>
    (\<forall>leg\<in>set (rl_auth legs). ru_Unit (rr_ru leg) = NewGenUnit 3 5)"
proof -
  let ?gs = "\<lparr>gs_gen = 2, gs_count = UnitCount 4, gs_nextCount = UnitCount 8, gs_cutOver = [1]\<rparr>"
  have "unit_count_ok (UnitCount 4)" unfolding unit_count_ok_def by (rule exI [of _ 2]) simp
  moreover have "Double (UnitCount 4) = Inr (UnitCount 8)" using Double_exp [of 2] by simp
  ultimately have ok: "genState_ok ?gs" by (simp add: genState_ok_def Contains_def IsZero_def)
  have h: "UnitForHash 5 (UnitCount 4) = 1" "UnitForHash 5 (UnitCount 8) = 5" by (simp_all add: UnitForHash_def unit_mask_def)
  obtain legs where "routedReplicasForReshard (\<lambda>_. [Node ''a'' [], Node ''b'' []]) ?gs 5 = Some legs"
    by (simp add: routedReplicasForReshard_def IsZero_def Let_def)
  with reshard_legs_are_mounted [OF ok this] h show ?thesis by (simp add: resolveGenUnit_def hasCutOver_def)
qed

end
