(* ===== verification/Overlap.thy ===== *)
theory Overlap
  imports Mount_Table Shared_Factory Gen_State
begin

text \<open>
  The overlap hand-off of a node with the replica layout (\<^verbatim>\<open>src/pkg/cluster/multibackend_overlap.go\<close>,
  \<^verbatim>\<open>multibackend_overlap_leave.go\<close>, \<^verbatim>\<open>multibackend_overlap_join.go\<close> and the mount paths of
  \<^verbatim>\<open>multibackend_replicated.go\<close>): opening and serving a position, draining it, releasing it on the
  successor's marker, the reconcile pass that drives both halves, the boot pass and the leave gate.

  The definitions take the dictionary of a factory. A node's state is its mount table, what its factory
  holds and the shared storage; goroutines it starts are recorded in \<open>nd_spawned\<close> in the order of the \<^verbatim>\<open>go\<close>
  statements. Logging and the wall-clock fields of the log lines are left out.
\<close>

section \<open>State\<close>

type_synonym opened_backend = "MountRef \<times> Epoch"

datatype spawn =
    FlushDisplaced "opened_backend handle" | DrainPoller | AcquireLoop ReplicaUnit
  | ScheduleReconcile "int option" | ForgetFlushState "opened_backend handle"
  | PurgeTombstones ReplicaUnit | OnUnitMounted ReplicaUnit | PublishRoles

record ('h, 'w) node =
  nd_table :: "opened_backend mountTable"
  nd_handle :: 'h
  nd_world :: 'w
  nd_selfJoining :: bool
  nd_spawned :: "spawn list"

definition spawn :: "spawn \<Rightarrow> ('h, 'w) node \<Rightarrow> ('h, 'w) node" where
  "spawn a s = s\<lparr>nd_spawned := nd_spawned s @ [a]\<rparr>"

definition upd_table :: "(opened_backend mountTable \<Rightarrow> opened_backend mountTable) \<Rightarrow> ('h, 'w) node \<Rightarrow> ('h, 'w) node" where
  "upd_table f s = s\<lparr>nd_table := f (nd_table s)\<rparr>"

definition factory_open :: "('h, 'w) factory_ops \<Rightarrow> MountRef \<Rightarrow> Epoch \<Rightarrow> ('h, 'w) node \<Rightarrow> (string + Epoch) \<times> ('h, 'w) node" where
  "factory_open ops m e s =
     (case fo_OpenUnit ops m e (nd_handle s, nd_world s) of (r, h, w) \<Rightarrow> (r, s\<lparr>nd_handle := h, nd_world := w\<rparr>))"

definition factory_close :: "('h, 'w) factory_ops \<Rightarrow> MountRef \<Rightarrow> ('h, 'w) node \<Rightarrow> ('h, 'w) node" where
  "factory_close ops m s =
     (case fo_CloseUnit ops m (nd_handle s, nd_world s) of (_, h, w) \<Rightarrow> s\<lparr>nd_handle := h, nd_world := w\<rparr>)"

definition acquireBaseEpoch :: Epoch where
  "acquireBaseEpoch = 1"

definition epochAtOpen :: Epoch where
  "epochAtOpen = 0"

section \<open>Epochs and markers\<close>

definition openEpochForReplica :: "('h, 'w) factory_ops \<Rightarrow> ReplicaUnit \<Rightarrow> ('h, 'w) node \<Rightarrow> Epoch" where
  "openEpochForReplica ops ru s =
     (case fo_DurableEpoch ops (ReplicaMount ru) (nd_world s) of Inl _ \<Rightarrow> 0 | Inr e \<Rightarrow> e)"

definition ownOpenEpoch :: "('h, 'w) factory_ops \<Rightarrow> ReplicaUnit \<Rightarrow> ('h, 'w) node \<Rightarrow> Epoch" where
  "ownOpenEpoch ops ru s =
     (case openEpochOf ru (nd_table s) of Some e \<Rightarrow> e | None \<Rightarrow> openEpochForReplica ops ru s)"

definition writeServingMarker :: "('h, 'w) factory_ops \<Rightarrow> ReplicaUnit \<Rightarrow> Epoch \<Rightarrow> ('h, 'w) node \<Rightarrow> ('h, 'w) node" where
  "writeServingMarker ops ru epoch s =
     s\<lparr>nd_world := snd (fo_WriteServingMarker ops (ReplicaMount ru) epoch (nd_world s))\<rparr>"

definition publishServingMarker :: "('h, 'w) factory_ops \<Rightarrow> ReplicaUnit \<Rightarrow> Epoch \<Rightarrow> ('h, 'w) node \<Rightarrow> ('h, 'w) node" where
  "publishServingMarker ops ru epoch s =
     (let epoch = (if epoch = 0 then ownOpenEpoch ops ru s else epoch) in writeServingMarker ops ru epoch s)"

definition run_effect :: "('h, 'w) factory_ops \<Rightarrow> effect \<Rightarrow> ('h, 'w) node \<Rightarrow> ('h, 'w) node" where
  "run_effect ops eff s =
     (case eff of
        Publish ru e site \<Rightarrow> publishServingMarker ops ru e s
      | Purge ru \<Rightarrow> spawn (PurgeTombstones ru) s
      | NotifyMounted ru \<Rightarrow> spawn (OnUnitMounted ru) s)"

section \<open>Becoming an owner\<close>

definition mountServingOrRelease ::
    "('h, 'w) factory_ops \<Rightarrow> ReplicaUnit \<Rightarrow> opened_backend handle \<Rightarrow> Epoch \<Rightarrow> string \<Rightarrow> ('h, 'w) node \<Rightarrow> bool \<times> ('h, 'w) node" where
  "mountServingOrRelease ops ru b opened site s =
     (case mountServing ru b opened site (nd_table s) of
        (out, effs, t) \<Rightarrow>
          (let s = fold (run_effect ops) effs (s\<lparr>nd_table := t\<rparr>)
           in if outcome_mounted out then (True, s)
              else
                (let msg = (if out = MountBlockedByDrain
                      then site @ '': REFUSED - this node holds '' @ ReplicaUnit_String ru @ '' in a draining phase; '' @
                           ''mounting it here would end that drain with no successor serving it''
                      else site @ '': superseded - Close ran during the open, '' @
                           ''so the position was opened and released rather than mounted'')
                 in (False, factory_close ops (ReplicaMount ru) (upd_table (recordAcquireErr ru msg) s)))))"

text \<open>The open of both acquire paths: on a refusal, close the stale handle and open once more.\<close>

definition open_resync :: "('h, 'w) factory_ops \<Rightarrow> ReplicaUnit \<Rightarrow> ('h, 'w) node \<Rightarrow> (string + Epoch) \<times> ('h, 'w) node" where
  "open_resync ops ru s =
     (case factory_open ops (ReplicaMount ru) acquireBaseEpoch s of
        (Inr e, s) \<Rightarrow> (Inr e, s)
      | (Inl _, s) \<Rightarrow> factory_open ops (ReplicaMount ru) acquireBaseEpoch (factory_close ops (ReplicaMount ru) s))"

definition acquireReplicaUnitOverlapBlocking ::
    "('h, 'w) factory_ops \<Rightarrow> ReplicaUnit \<Rightarrow> ('h, 'w) node \<Rightarrow> string option \<times> ('h, 'w) node" where
  "acquireReplicaUnitOverlapBlocking ops ru s =
     (case open_resync ops ru s of
        (Inl err, s) \<Rightarrow> (Some err, upd_table (recordAcquireErr ru err) s)
      | (Inr e, s) \<Rightarrow>
          (None, snd (mountServingOrRelease ops ru (Raw (ReplicaMount ru, e)) e ''overlap''
                        (upd_table (clearAcquireErr ru) s))))"

definition acquireReplicaUnit :: "('h, 'w) factory_ops \<Rightarrow> ReplicaUnit \<Rightarrow> ('h, 'w) node \<Rightarrow> ('h, 'w) node" where
  "acquireReplicaUnit ops ru s =
     (case open_resync ops ru s of
        (Inl err, s) \<Rightarrow> upd_table (recordAcquireErr ru err) s
      | (Inr e, s) \<Rightarrow>
          snd (mountServingOrRelease ops ru (Raw (ReplicaMount ru, e)) e ''acquire'' (upd_table (clearAcquireErr ru) s)))"

definition beginAcquire :: "ReplicaUnit \<Rightarrow> ('h, 'w) node \<Rightarrow> ('h, 'w) node" where
  "beginAcquire ru s = upd_table (setPhase ru (HandoffState PhaseAcquiring 0)) s"

definition acquireReplicaUnitOverlap :: "ReplicaUnit \<Rightarrow> ('h, 'w) node \<Rightarrow> ('h, 'w) node" where
  "acquireReplicaUnitOverlap ru s =
     (case startAcquire ru (nd_table s) of
        (False, t) \<Rightarrow> s\<lparr>nd_table := t\<rparr>
      | (True, t) \<Rightarrow> spawn (AcquireLoop ru) (s\<lparr>nd_table := t\<rparr>))"

definition finishStuckFlipIfNeeded :: "('h, 'w) factory_ops \<Rightarrow> ReplicaUnit \<Rightarrow> ('h, 'w) node \<Rightarrow> ('h, 'w) node" where
  "finishStuckFlipIfNeeded ops ru s =
     (case finishStuckGainer ru (nd_table s) of (_, effs, t) \<Rightarrow> fold (run_effect ops) effs (s\<lparr>nd_table := t\<rparr>))"

section \<open>Giving a position up\<close>

definition releaseReplicaUnit :: "('h, 'w) factory_ops \<Rightarrow> ReplicaUnit \<Rightarrow> ('h, 'w) node \<Rightarrow> ('h, 'w) node" where
  "releaseReplicaUnit ops ru s = factory_close ops (ReplicaMount ru) (upd_table (forgetOpenEpoch ru \<circ> unmount ru) s)"

definition reclaimDrainingPosition :: "ReplicaUnit \<Rightarrow> ('h, 'w) node \<Rightarrow> ('h, 'w) node" where
  "reclaimDrainingPosition ru s = upd_table (reclaimDrain ru) s"

definition flushDisplaced :: "opened_backend handle \<Rightarrow> ('h, 'w) node \<Rightarrow> ('h, 'w) node" where
  "flushDisplaced b s = (if mt_closed (nd_table s) then s else spawn (FlushDisplaced b) s)"

definition beginDrain :: "('h, 'w) factory_ops \<Rightarrow> ReplicaUnit \<Rightarrow> ('h, 'w) node \<Rightarrow> ('h, 'w) node" where
  "beginDrain ops ru s =
     (let opn = ownOpenEpoch ops ru s
      in case armDrain ru opn (nd_table s) of
           (None, t) \<Rightarrow> s\<lparr>nd_table := t\<rparr>
         | (Some b, t) \<Rightarrow> spawn DrainPoller (flushDisplaced b (s\<lparr>nd_table := t\<rparr>)))"

definition drainCheck :: "('h, 'w) factory_ops \<Rightarrow> ReplicaUnit \<Rightarrow> ('h, 'w) node \<Rightarrow> ('h, 'w) node" where
  "drainCheck ops ru s =
     (let state = phaseOf ru (nd_table s)
      in if hs_Phase state \<noteq> PhaseDraining then s
         else case clearOrphanedDrain ru (nd_table s) of
                (True, t) \<Rightarrow> s\<lparr>nd_table := t\<rparr>
              | (False, t) \<Rightarrow>
                  (case fo_ReadServingMarker ops (ReplicaMount ru) (nd_world s) of
                     Inl _ \<Rightarrow> s
                   | Inr m \<Rightarrow>
                       (let ready = (case m of None \<Rightarrow> False | Some markerEpoch \<Rightarrow> markerEpoch > hs_OpenEpoch state)
                        in if \<not> Releasable state ready then s
                           else case releaseDrained ru (nd_table s) of
                                  (None, t) \<Rightarrow> s\<lparr>nd_table := t\<rparr>
                                | (Some b, t) \<Rightarrow>
                                    factory_close ops (ReplicaMount ru) (spawn (ForgetFlushState b) (s\<lparr>nd_table := t\<rparr>)))))"

definition runDrainChecks ::
    "('h, 'w) factory_ops \<Rightarrow> (ReplicaUnit list \<Rightarrow> ReplicaUnit list) \<Rightarrow> ('h, 'w) node \<Rightarrow> ('h, 'w) node" where
  "runDrainChecks ops iter s = fold (drainCheck ops) (drainingPositions iter (nd_table s)) s"

definition evictStaleMount :: "ReplicaUnit \<Rightarrow> opened_backend handle \<Rightarrow> ('h, 'w) node \<Rightarrow> ('h, 'w) node" where
  "evictStaleMount ru failed s =
     (case evictIfSame ru failed (nd_table s) of
        (True, t) \<Rightarrow> spawn (ScheduleReconcile None) (s\<lparr>nd_table := t\<rparr>)
      | (False, t) \<Rightarrow> s\<lparr>nd_table := t\<rparr>)"

section \<open>The reconcile pass\<close>

definition desiresUnitElsewhereUnmounted ::
    "ReplicaUnit \<Rightarrow> ReplicaUnit list \<Rightarrow> ReplicaUnit list \<Rightarrow> ReplicaUnit list \<Rightarrow> bool" where
  "desiresUnitElsewhereUnmounted ru curSet penSet mountedSet \<longleftrightarrow>
     list_ex (\<lambda>cand. ru_Unit cand = ru_Unit ru \<and> cand \<noteq> ru \<and> cand \<notin> set mountedSet) curSet \<or>
     list_ex (\<lambda>cand. ru_Unit cand = ru_Unit ru \<and> cand \<noteq> ru \<and> cand \<notin> set mountedSet) penSet"

text \<open>\<open>replicasOf\<close> is the live placement of a unit.\<close>

definition heldForMissingSuccessorMarker ::
    "('h, 'w) factory_ops \<Rightarrow> genState \<Rightarrow> (GenUnit \<Rightarrow> NodeID list) \<Rightarrow> ReplicaUnit \<Rightarrow> ('h, 'w) node \<Rightarrow> bool" where
  "heldForMissingSuccessorMarker ops gs replicasOf ru s =
     (if \<not> IsZero (gs_nextCount gs) then False
      else if gu_Gen (ru_Unit ru) \<noteq> gs_gen gs then False
      else if unat (ru_Replica ru) \<ge> length (replicasOf (ru_Unit ru)) then False
      else
        (let own = ownOpenEpoch ops ru s
         in case fo_ReadServingMarker ops (ReplicaMount ru) (nd_world s) of
              Inl _ \<Rightarrow> True
            | Inr None \<Rightarrow> False
            | Inr (Some epoch) \<Rightarrow> epoch \<le> own))"

definition reclaim_half :: "ReplicaUnit list \<Rightarrow> ReplicaUnit list \<Rightarrow> ReplicaUnit \<Rightarrow> ('h, 'w) node \<Rightarrow> ('h, 'w) node" where
  "reclaim_half current pending ru s =
     (if ru \<notin> set current then s
      else if ru \<notin> set pending then s
      else if IsLoser (hs_Phase (phaseOf ru (nd_table s))) then reclaimDrainingPosition ru s else s)"

definition drain_half ::
    "('h, 'w) factory_ops \<Rightarrow> genState \<Rightarrow> (GenUnit \<Rightarrow> NodeID list) \<Rightarrow> ReplicaUnit list \<Rightarrow> ReplicaUnit list \<Rightarrow> ReplicaUnit list \<Rightarrow>
     ReplicaUnit \<Rightarrow> ('h, 'w) node \<Rightarrow> ('h, 'w) node" where
  "drain_half ops gs replicasOf current pending mounted ru s =
     (if ru \<in> set current then
        (if ru \<in> set pending then s
         else if hs_Phase (phaseOf ru (nd_table s)) \<noteq> PhaseZero then s
         else beginDrain ops ru s)
      else if ru \<in> set pending then s
      else if hs_Phase (phaseOf ru (nd_table s)) \<noteq> PhaseZero then s
      else if desiresUnitElsewhereUnmounted ru current pending mounted then s
      else if heldForMissingSuccessorMarker ops gs replicasOf ru s then s
      else releaseReplicaUnit ops ru s)"

text \<open>One position of an acquire half, once its half's own skip did not apply.\<close>

definition acquire_position ::
    "('h, 'w) factory_ops \<Rightarrow> ReplicaUnit list \<Rightarrow> ReplicaUnit \<Rightarrow> ('h, 'w) node \<Rightarrow> ('h, 'w) node" where
  "acquire_position ops mounted ru s =
     (if ru \<in> set mounted then finishStuckFlipIfNeeded ops ru s
      else
        (let st = phaseOf ru (nd_table s)
         in if IsLoser (hs_Phase st) then s
            else if IsGainer (hs_Phase st) then acquireReplicaUnitOverlap ru s
            else acquireReplicaUnitOverlap ru (beginAcquire ru s)))"

definition acquire_pending_half ::
    "('h, 'w) factory_ops \<Rightarrow> ReplicaUnit list \<Rightarrow> ReplicaUnit list \<Rightarrow> ReplicaUnit \<Rightarrow> ('h, 'w) node \<Rightarrow> ('h, 'w) node" where
  "acquire_pending_half ops current mounted ru s =
     (if ru \<in> set current then s else acquire_position ops mounted ru s)"

definition acquire_current_half ::
    "('h, 'w) factory_ops \<Rightarrow> ReplicaUnit list \<Rightarrow> ReplicaUnit list \<Rightarrow> ReplicaUnit \<Rightarrow> ('h, 'w) node \<Rightarrow> ('h, 'w) node" where
  "acquire_current_half ops pending mounted ru s =
     (if ru \<notin> set pending then s else acquire_position ops mounted ru s)"

definition reconcileReplicaUnitsOverlap ::
    "('h, 'w) factory_ops \<Rightarrow> (ReplicaUnit list \<Rightarrow> ReplicaUnit list) \<Rightarrow> genState \<Rightarrow> (GenUnit \<Rightarrow> NodeID list) \<Rightarrow>
     ReplicaUnit list \<Rightarrow> ReplicaUnit list \<Rightarrow> ('h, 'w) node \<Rightarrow> ('h, 'w) node" where
  "reconcileReplicaUnitsOverlap ops iter gs replicasOf current pending s =
     (let mounted = mountedList iter (nd_table s);
          s = fold (reclaim_half current pending) mounted s;
          s = fold (drain_half ops gs replicasOf current pending mounted) mounted s;
          s = fold (acquire_pending_half ops current mounted) pending s
      in fold (acquire_current_half ops pending mounted) current s)"

definition reconcileReplicaUnitsCleanCut ::
    "('h, 'w) factory_ops \<Rightarrow> (ReplicaUnit list \<Rightarrow> ReplicaUnit list) \<Rightarrow> ReplicaUnit list \<Rightarrow> ('h, 'w) node \<Rightarrow> ('h, 'w) node" where
  "reconcileReplicaUnitsCleanCut ops iter desired s =
     (let mounted = mountedList iter (nd_table s);
          s = fold (\<lambda>ru s. if ru \<in> set desired then s else releaseReplicaUnit ops ru s) mounted s
      in fold (\<lambda>ru s. if ru \<in> set mounted then s else acquireReplicaUnit ops ru s) desired s)"

section \<open>Boot, join and leave\<close>

definition setSelfJoining :: "bool \<Rightarrow> ('h, 'w) node \<Rightarrow> ('h, 'w) node" where
  "setSelfJoining v s = (if nd_selfJoining s = v then s else spawn PublishRoles (s\<lparr>nd_selfJoining := v\<rparr>))"

text \<open>One position of the boot pass; the number counts the deferred ones.\<close>

definition boot_position :: "('h, 'w) factory_ops \<Rightarrow> ReplicaUnit \<Rightarrow> nat \<times> ('h, 'w) node \<Rightarrow> nat \<times> ('h, 'w) node" where
  "boot_position ops ru ds =
     (let (deferred, s) = ds;
          served = (case fo_ReadServingMarker ops (ReplicaMount ru) (nd_world s) of
                      Inr (Some epoch) \<Rightarrow> if epoch > 0 then Some epoch else None
                    | _ \<Rightarrow> None)
      in case served of
           Some epoch \<Rightarrow>
             (deferred + 1,
              upd_table (recordAcquireErr ru (''boot-deferred: a peer is serving this position (serving marker epoch '' @
                format_uint (unat epoch) @ ''); not fenced - reconcile hands off after convergence'')) s)
         | None \<Rightarrow>
             (deferred,
              case factory_open ops (ReplicaMount ru) epochAtOpen s of
                (Inl err, s) \<Rightarrow> upd_table (recordAcquireErr ru err) s
              | (Inr e, s) \<Rightarrow>
                  snd (mountServingOrRelease ops ru (Raw (ReplicaMount ru, e)) e ''boot'' (upd_table (clearAcquireErr ru) s))))"

definition mountReplicaUnits ::
    "('h, 'w) factory_ops \<Rightarrow> ReplicaUnit list \<Rightarrow> (bool \<Rightarrow> int \<times> int) \<Rightarrow> ('h, 'w) node \<Rightarrow> ('h, 'w) node" where
  "mountReplicaUnits ops units peerJoiningCounts s =
     (let (deferred, s) = fold (boot_position ops) units (0, s);
          st = \<lparr>bs_Deferred = int deferred, bs_Peers = 0, bs_JoiningPeers = 0, bs_SelfJoining = nd_selfJoining s\<rparr>;
          s = setSelfJoining (Joining st) s;
          (peers, joining) = peerJoiningCounts (nd_selfJoining s);
          act = BootWarmUp (st\<lparr>bs_Peers := peers, bs_JoiningPeers := joining\<rparr>)
      in if ba_Reason act = BootStaleJoining then s
         else if ba_Prompt act then spawn (ScheduleReconcile (Some 0)) s
         else s)"

definition promptAcquireFreshPositions ::
    "('h, 'w) factory_ops \<Rightarrow> bool \<Rightarrow> ReplicaUnit list \<Rightarrow> ('h, 'w) node \<Rightarrow> ('h, 'w) node" where
  "promptAcquireFreshPositions ops multiReplicated desired s =
     (if \<not> multiReplicated \<or> nd_selfJoining s \<or> mt_closed (nd_table s) then s
      else fold (\<lambda>ru s.
             if backendFor ru (nd_table s) \<noteq> None then s
             else case fo_ReadServingMarker ops (ReplicaMount ru) (nd_world s) of
                    Inl _ \<Rightarrow> s
                  | Inr (Some epoch) \<Rightarrow> if epoch > 0 then s else acquireReplicaUnitOverlap ru s
                  | Inr None \<Rightarrow> acquireReplicaUnitOverlap ru s) desired s)"

definition allPendingPositionsMounted :: "ReplicaUnit list \<Rightarrow> ('h, 'w) node \<Rightarrow> bool" where
  "allPendingPositionsMounted pending s = (if pending = [] then True else allMounted pending (nd_table s))"

definition maintainJoiningState :: "ReplicaUnit list \<Rightarrow> ('h, 'w) node \<Rightarrow> ('h, 'w) node" where
  "maintainJoiningState pending s =
     (if \<not> nd_selfJoining s then s
      else if allPendingPositionsMounted pending s then setSelfJoining False s else s)"

definition positionsAwaitingSuccessor ::
    "('h, 'w) factory_ops \<Rightarrow> (ReplicaUnit list \<Rightarrow> ReplicaUnit list) \<Rightarrow> ('h, 'w) node \<Rightarrow> ReplicaUnit list" where
  "positionsAwaitingSuccessor ops iter s =
     filter (\<lambda>ru. case fo_ReadServingMarker ops (ReplicaMount ru) (nd_world s) of
                    Inl _ \<Rightarrow> True
                  | Inr None \<Rightarrow> True
                  | Inr (Some markerEpoch) \<Rightarrow> markerEpoch \<le> ownOpenEpoch ops ru s)
       (mountedList iter (nd_table s))"

definition allOwnedPositionsHandedOff ::
    "('h, 'w) factory_ops \<Rightarrow> (ReplicaUnit list \<Rightarrow> ReplicaUnit list) \<Rightarrow> ('h, 'w) node \<Rightarrow> bool" where
  "allOwnedPositionsHandedOff ops iter s \<longleftrightarrow> length (positionsAwaitingSuccessor ops iter s) = 0"

end
