(* ===== verification/Handoff_Fleet.thy ===== *)
theory Handoff_Fleet
  imports Overlap
begin

text \<open>
  Any number of nodes hand positions over to each other through one shared storage. The theory splits the
  node operations of \<open>Overlap\<close> at the points where the code releases the mount table's mutex or does I/O,
  interleaves them over all nodes, lets nodes crash and restart, and proves that a drain is released
  only when another node serves the position at a later open.

  The one operation kept whole although the code reads its input before taking the mutex is
  \<^verbatim>\<open>beginDrain\<close>; what a serving transition of the same position inside that window would do is the lemma
  \<open>stale_gate\<close>.
\<close>

section \<open>The pieces of the drain check\<close>

definition drain_poll :: "('h, 'w) factory_ops \<Rightarrow> ReplicaUnit \<Rightarrow> ('h, 'w) node \<Rightarrow> bool \<times> ('h, 'w) node" where
  "drain_poll ops ru s =
     (let state = phaseOf ru (nd_table s)
      in if hs_Phase state \<noteq> PhaseDraining then (False, s)
         else case clearOrphanedDrain ru (nd_table s) of
                (True, t) \<Rightarrow> (False, s\<lparr>nd_table := t\<rparr>)
              | (False, t) \<Rightarrow>
                  (case fo_ReadServingMarker ops (ReplicaMount ru) (nd_world s) of
                     Inl _ \<Rightarrow> (False, s)
                   | Inr m \<Rightarrow>
                       (Releasable state (case m of None \<Rightarrow> False | Some markerEpoch \<Rightarrow> markerEpoch > hs_OpenEpoch state), s)))"

definition drain_release :: "('h, 'w) factory_ops \<Rightarrow> ReplicaUnit \<Rightarrow> ('h, 'w) node \<Rightarrow> ('h, 'w) node" where
  "drain_release ops ru s =
     (case releaseDrained ru (nd_table s) of
        (None, t) \<Rightarrow> s\<lparr>nd_table := t\<rparr>
      | (Some b, t) \<Rightarrow> factory_close ops (ReplicaMount ru) (spawn (ForgetFlushState b) (s\<lparr>nd_table := t\<rparr>)))"

lemma drainCheck_split:
  "drainCheck ops ru s = (case drain_poll ops ru s of (False, s) \<Rightarrow> s | (True, s) \<Rightarrow> drain_release ops ru s)"
proof -
  obtain r t where c: "clearOrphanedDrain ru (nd_table s) = (r, t)" by fastforce
  show ?thesis
    by (cases "hs_Phase (phaseOf ru (nd_table s)) = PhaseDraining"; cases r; cases "fo_ReadServingMarker ops (ReplicaMount ru) (nd_world s)")
      (simp_all add: drainCheck_def drain_poll_def drain_release_def c Let_def split: bool.split)
qed

section \<open>The fleet\<close>

record ('h, 'w) hfleet =
  hf_world :: 'w
  hf_table :: "NodeID \<Rightarrow> opened_backend mountTable"
  hf_handle :: "NodeID \<Rightarrow> 'h"
  hf_opening :: "NodeID \<Rightarrow> ReplicaUnit \<rightharpoonup> Epoch"
  hf_publishing :: "NodeID \<Rightarrow> (ReplicaUnit \<times> Epoch) set"
  hf_poll :: "NodeID \<Rightarrow> ReplicaUnit option"
  hf_served :: "(NodeID \<times> ReplicaUnit \<times> Epoch) set"

text \<open>\<open>hf_opening\<close>: an acquire goroutine that has opened the position and not yet flipped it; \<open>hf_publishing\<close>: a
  serving transition whose marker is not yet written; \<open>hf_poll\<close>: a drain check, holding the reconcile
  mutex, that has seen a sufficient marker and not yet released; \<open>hf_served\<close>: the history of serving
  transitions.\<close>

definition nview :: "('h, 'w) hfleet \<Rightarrow> NodeID \<Rightarrow> ('h, 'w) node" where
  "nview g n = \<lparr>nd_table = hf_table g n, nd_handle = hf_handle g n, nd_world = hf_world g, nd_selfJoining = False, nd_spawned = []\<rparr>"

definition nput :: "('h, 'w) hfleet \<Rightarrow> NodeID \<Rightarrow> ('h, 'w) node \<Rightarrow> ('h, 'w) hfleet" where
  "nput g n s = g\<lparr>hf_world := nd_world s, hf_table := (hf_table g)(n := nd_table s), hf_handle := (hf_handle g)(n := nd_handle s)\<rparr>"

definition serves :: "NodeID \<Rightarrow> ReplicaUnit \<Rightarrow> Epoch \<Rightarrow> ('h, 'w) hfleet \<Rightarrow> ('h, 'w) hfleet" where
  "serves n ru e g = g\<lparr>hf_publishing := (hf_publishing g)(n := insert (ru, e) (hf_publishing g n)),
     hf_served := insert (n, ru, e) (hf_served g)\<rparr>"

definition set_opening :: "NodeID \<Rightarrow> ReplicaUnit \<Rightarrow> Epoch option \<Rightarrow> ('h, 'w) hfleet \<Rightarrow> ('h, 'w) hfleet" where
  "set_opening n ru e g = g\<lparr>hf_opening := (hf_opening g)(n := (hf_opening g n)(ru := e))\<rparr>"

definition set_poll :: "NodeID \<Rightarrow> ReplicaUnit option \<Rightarrow> ('h, 'w) hfleet \<Rightarrow> ('h, 'w) hfleet" where
  "set_poll n p g = g\<lparr>hf_poll := (hf_poll g)(n := p)\<rparr>"

definition published :: "NodeID \<Rightarrow> ReplicaUnit \<Rightarrow> Epoch \<Rightarrow> ('h, 'w) hfleet \<Rightarrow> ('h, 'w) hfleet" where
  "published n ru e g = g\<lparr>hf_publishing := (hf_publishing g)(n := hf_publishing g n - {(ru, e)})\<rparr>"

inductive hstep :: "('h, 'w) factory_ops \<Rightarrow> (ReplicaUnit \<Rightarrow> 'w \<Rightarrow> Epoch) \<Rightarrow> ('h, 'w) hfleet \<Rightarrow> ('h, 'w) hfleet \<Rightarrow> bool"
  for ops :: "('h, 'w) factory_ops" and durable :: "ReplicaUnit \<Rightarrow> 'w \<Rightarrow> Epoch" where
  begin_acquire: "hf_poll g n = None \<Longrightarrow> \<not> IsLoser (hs_Phase (phaseOf ru (hf_table g n))) \<Longrightarrow>
    hstep ops durable g (nput g n (beginAcquire ru (nview g n)))"
| begin_drain: "hf_poll g n = None \<Longrightarrow> hstep ops durable g (nput g n (beginDrain ops ru (nview g n)))"
| reclaim: "hf_poll g n = None \<Longrightarrow> hstep ops durable g (nput g n (reclaimDrainingPosition ru (nview g n)))"
| clean_cut: "hf_poll g n = None \<Longrightarrow> hs_Phase (phaseOf ru (hf_table g n)) = PhaseZero \<Longrightarrow>
    hstep ops durable g (nput g n (releaseReplicaUnit ops ru (nview g n)))"
| finish_stuck: "hf_poll g n = None \<Longrightarrow> finishStuckGainer ru (hf_table g n) = (r, effs, t) \<Longrightarrow>
    hstep ops durable g ((if r then serves n ru (ownOpenEpoch ops ru (nview g n)) else id)
      (nput g n ((nview g n)\<lparr>nd_table := t\<rparr>)))"
| poll: "hf_poll g n = None \<Longrightarrow> drain_poll ops ru (nview g n) = (ready, s) \<Longrightarrow>
    hstep ops durable g (set_poll n (if ready then Some ru else None) (nput g n s))"
| release: "hf_poll g n = Some ru \<Longrightarrow>
    hstep ops durable g (set_poll n None (nput g n (drain_release ops ru (nview g n))))"
| start: "hstep ops durable g (nput g n (acquireReplicaUnitOverlap ru (nview g n)))"
| open_unit: "ru \<in> set (mt_inFlight (hf_table g n)) \<Longrightarrow> hf_opening g n ru = None \<Longrightarrow> durable ru (hf_world g) \<noteq> -1 \<Longrightarrow>
    factory_open ops (ReplicaMount ru) e (nview g n) = (r, s) \<Longrightarrow>
    hstep ops durable g (set_opening n ru (case r of Inl _ \<Rightarrow> None | Inr opened \<Rightarrow> Some opened) (nput g n s))"
| close: "hstep ops durable g (nput g n (factory_close ops (ReplicaMount ru) (nview g n)))"
| flip: "hf_opening g n ru = Some e \<Longrightarrow>
    mountServing ru (Raw (ReplicaMount ru, e)) e site (hf_table g n) = (out, effs, t) \<Longrightarrow>
    hstep ops durable g ((if outcome_mounted out then serves n ru e else id)
      (set_opening n ru None (nput g n ((nview g n)\<lparr>nd_table := t\<rparr>))))"
| publish: "(ru, e) \<in> hf_publishing g n \<Longrightarrow>
    hstep ops durable g (published n ru e (nput g n (publishServingMarker ops ru e (nview g n))))"
| finish: "hf_opening g n ru = None \<Longrightarrow> hstep ops durable g (nput g n (upd_table (finishAcquire ru) (nview g n)))"
| evict: "hstep ops durable g (nput g n (evictStaleMount ru h (nview g n)))"
| note_error: "hstep ops durable g (nput g n (upd_table (recordAcquireErr ru msg) (nview g n)))"
| clear_error: "hstep ops durable g (nput g n (upd_table (clearAcquireErr ru) (nview g n)))"
| shut: "hstep ops durable g (nput g n (upd_table (\<lambda>t. t\<lparr>mt_closed := True\<rparr>) (nview g n)))"
| take_all: "mt_closed (hf_table g n) \<Longrightarrow> hstep ops durable g (nput g n (upd_table (\<lambda>t. snd (takeAll iter t)) (nview g n)))"
| restart: "hstep ops durable g (g\<lparr>hf_table := (hf_table g)(n := table_init table_zero), hf_handle := (hf_handle g)(n := h0),
    hf_opening := (hf_opening g)(n := Map.empty), hf_publishing := (hf_publishing g)(n := {}), hf_poll := (hf_poll g)(n := None)\<rparr>)"

definition hfleet_init :: "'w \<Rightarrow> (NodeID \<Rightarrow> 'h) \<Rightarrow> ('h, 'w) hfleet" where
  "hfleet_init w hs = \<lparr>hf_world = w, hf_table = (\<lambda>_. table_init table_zero), hf_handle = hs,
     hf_opening = (\<lambda>_. Map.empty), hf_publishing = (\<lambda>_. {}), hf_poll = (\<lambda>_. None), hf_served = {}\<rparr>"

section \<open>The invariant\<close>

text \<open>What links one node's table to the history: a mount is at the node's latest serving transition, and a drain
  is gated on that mount's open epoch.\<close>

definition table_link :: "opened_backend mountTable \<Rightarrow> (ReplicaUnit \<times> Epoch) set \<Rightarrow> bool" where
  "table_link t served \<longleftrightarrow> table_ok t \<and> epochs_ok t \<and>
     (\<forall>ru e. backendFor ru t \<noteq> None \<longrightarrow> mt_openEpochs t ru = Some e \<longrightarrow> (ru, e) \<in> served \<and> (\<forall>e'. (ru, e') \<in> served \<longrightarrow> e' \<le> e)) \<and>
     (\<forall>ru st. backendFor ru t \<noteq> None \<longrightarrow> phase_entry ru t = Some st \<longrightarrow> hs_Phase st = PhaseDraining \<longrightarrow>
        mt_openEpochs t ru = Some (hs_OpenEpoch st))"

definition served_at :: "('h, 'w) hfleet \<Rightarrow> NodeID \<Rightarrow> (ReplicaUnit \<times> Epoch) set" where
  "served_at g n = {(ru, e). (n, ru, e) \<in> hf_served g}"

definition hinv :: "(ReplicaUnit \<Rightarrow> 'w \<Rightarrow> Epoch) \<Rightarrow> (ReplicaUnit \<Rightarrow> 'w \<Rightarrow> Epoch option) \<Rightarrow> ('h, 'w) hfleet \<Rightarrow> bool" where
  "hinv durable marker g \<longleftrightarrow>
     (\<forall>n. table_link (hf_table g n) (served_at g n)) \<and>
     (\<forall>n ru e. (n, ru, e) \<in> hf_served g \<longrightarrow> e \<le> durable ru (hf_world g) \<and> 0 < e) \<and>
     (\<forall>n ru e. hf_opening g n ru = Some e \<longrightarrow> e \<le> durable ru (hf_world g) \<and> 0 < e \<and> (\<forall>e'. (n, ru, e') \<in> hf_served g \<longrightarrow> e' < e)) \<and>
     (\<forall>n ru e. (ru, e) \<in> hf_publishing g n \<longrightarrow> (n, ru, e) \<in> hf_served g) \<and>
     (\<forall>ru e. marker ru (hf_world g) = Some e \<longrightarrow> (\<exists>n. (n, ru, e) \<in> hf_served g)) \<and>
     (\<forall>n ru st. hf_poll g n = Some ru \<longrightarrow> phase_entry ru (hf_table g n) = Some st \<longrightarrow> hs_Phase st = PhaseDraining \<longrightarrow>
        backendFor ru (hf_table g n) \<noteq> None \<longrightarrow> (\<exists>e. marker ru (hf_world g) = Some e \<and> hs_OpenEpoch st < e))"

text \<open>A change of the table that neither mounts nor arms.\<close>

definition calm :: "opened_backend mountTable \<Rightarrow> opened_backend mountTable \<Rightarrow> bool" where
  "calm t t' \<longleftrightarrow> (\<forall>ru. backendFor ru t' \<noteq> None \<longrightarrow>
     backendFor ru t' = backendFor ru t \<and> mt_openEpochs t' ru = mt_openEpochs t ru \<and>
     (\<forall>st. phase_entry ru t' = Some st \<longrightarrow> hs_Phase st = PhaseDraining \<longrightarrow> phase_entry ru t = Some st))"

text \<open>A change of the shared storage that raises epochs and markers, the latter to served epochs only.\<close>

definition world_grows ::
    "(ReplicaUnit \<Rightarrow> 'w \<Rightarrow> Epoch) \<Rightarrow> (ReplicaUnit \<Rightarrow> 'w \<Rightarrow> Epoch option) \<Rightarrow> (NodeID \<times> ReplicaUnit \<times> Epoch) set \<Rightarrow> 'w \<Rightarrow> 'w \<Rightarrow> bool" where
  "world_grows durable marker served w w' \<longleftrightarrow>
     (\<forall>ru. durable ru w \<le> durable ru w') \<and>
     (\<forall>ru e. marker ru w = Some e \<longrightarrow> (\<exists>e'. marker ru w' = Some e' \<and> e \<le> e')) \<and>
     (\<forall>ru e. marker ru w' = Some e \<longrightarrow> marker ru w = Some e \<or> (\<exists>n. (n, ru, e) \<in> served))"

lemma hinvD:
  assumes "hinv durable marker g"
  shows "table_link (hf_table g n) (served_at g n)"
    and "(n, ru, e) \<in> hf_served g \<Longrightarrow> e \<le> durable ru (hf_world g) \<and> 0 < e"
    and "hf_opening g n ru = Some e \<Longrightarrow> e \<le> durable ru (hf_world g) \<and> 0 < e"
    and "hf_opening g n ru = Some e \<Longrightarrow> (n, ru, e') \<in> hf_served g \<Longrightarrow> e' < e"
    and "(ru, e) \<in> hf_publishing g n \<Longrightarrow> (n, ru, e) \<in> hf_served g"
    and "marker ru (hf_world g) = Some e \<Longrightarrow> \<exists>n. (n, ru, e) \<in> hf_served g"
    and "hf_poll g n = Some ru \<Longrightarrow> phase_entry ru (hf_table g n) = Some st \<Longrightarrow> hs_Phase st = PhaseDraining \<Longrightarrow>
      backendFor ru (hf_table g n) \<noteq> None \<Longrightarrow> \<exists>e. marker ru (hf_world g) = Some e \<and> hs_OpenEpoch st < e"
  using assms unfolding hinv_def by blast+

lemma hinvI:
  assumes "\<And>n. table_link (hf_table g n) (served_at g n)"
    and "\<And>n ru e. (n, ru, e) \<in> hf_served g \<Longrightarrow> e \<le> durable ru (hf_world g) \<and> 0 < e"
    and "\<And>n ru e. hf_opening g n ru = Some e \<Longrightarrow> e \<le> durable ru (hf_world g) \<and> 0 < e"
    and "\<And>n ru e e'. hf_opening g n ru = Some e \<Longrightarrow> (n, ru, e') \<in> hf_served g \<Longrightarrow> e' < e"
    and "\<And>n ru e. (ru, e) \<in> hf_publishing g n \<Longrightarrow> (n, ru, e) \<in> hf_served g"
    and "\<And>ru e. marker ru (hf_world g) = Some e \<Longrightarrow> \<exists>n. (n, ru, e) \<in> hf_served g"
    and "\<And>n ru st. hf_poll g n = Some ru \<Longrightarrow> phase_entry ru (hf_table g n) = Some st \<Longrightarrow> hs_Phase st = PhaseDraining \<Longrightarrow>
      backendFor ru (hf_table g n) \<noteq> None \<Longrightarrow> \<exists>e. marker ru (hf_world g) = Some e \<and> hs_OpenEpoch st < e"
  shows "hinv durable marker g"
  using assms unfolding hinv_def by blast

lemma calm_refl [simp]: "calm t t"
  by (simp add: calm_def)

lemma world_grows_refl [simp]: "world_grows d m s w w"
  by (simp add: world_grows_def)

lemma table_link_calm: "table_link t served \<Longrightarrow> calm t t' \<Longrightarrow> table_ok t' \<Longrightarrow> epochs_ok t' \<Longrightarrow> table_link t' served"
  by (simp add: table_link_def calm_def) metis

lemma hinv_nput:
  assumes "hinv durable marker g" "calm (hf_table g n) (nd_table s)" "table_ok (nd_table s)" "epochs_ok (nd_table s)"
    "world_grows durable marker (hf_served g) (hf_world g) (nd_world s)"
  shows "hinv durable marker (nput g n s)"
proof -
  have tl: "table_link (hf_table (nput g n s) k) (served_at (nput g n s) k)" for k
    using assms(1-4) by (auto simp: hinv_def nput_def served_at_def intro: table_link_calm)
  have po: "\<exists>e. marker ru (nd_world s) = Some e \<and> hs_OpenEpoch st < e"
    if "hf_poll g k = Some ru" "phase_entry ru (hf_table (nput g n s) k) = Some st" "hs_Phase st = PhaseDraining"
      "backendFor ru (hf_table (nput g n s) k) \<noteq> None" for k ru st
  proof -
    have "phase_entry ru (hf_table g k) = Some st \<and> backendFor ru (hf_table g k) \<noteq> None"
      using that(2-4) assms(2) by (cases "k = n") (auto simp: nput_def calm_def)
    with assms(1) that(1,3) obtain e where "marker ru (hf_world g) = Some e" "hs_OpenEpoch st < e"
      unfolding hinv_def by blast
    with assms(5) show ?thesis unfolding world_grows_def by (meson order_less_le_trans)
  qed
  have w: "\<forall>ru. durable ru (hf_world g) \<le> durable ru (nd_world s)"
    "\<forall>ru e. marker ru (nd_world s) = Some e \<longrightarrow> marker ru (hf_world g) = Some e \<or> (\<exists>n. (n, ru, e) \<in> hf_served g)"
    using assms(5) by (auto simp: world_grows_def)
  note d = hinvD [OF assms(1)]
  show ?thesis
  proof (rule hinvI)
    fix k ru e
    show "e \<le> durable ru (hf_world (nput g n s)) \<and> 0 < e" if "(k, ru, e) \<in> hf_served (nput g n s)"
      using d(2) [of k ru e] that w(1) by (auto simp: nput_def intro: order_trans)
    show "e \<le> durable ru (hf_world (nput g n s)) \<and> 0 < e" if "hf_opening (nput g n s) k ru = Some e"
      using d(3) [of k ru e] that w(1) by (auto simp: nput_def intro: order_trans)
    show "\<exists>n'. (n', ru, e) \<in> hf_served (nput g n s)" if "marker ru (hf_world (nput g n s)) = Some e"
      using d(6) [of ru e] that w(2) by (auto simp: nput_def)
  qed (use tl po d(4,5) in \<open>auto simp: nput_def\<close>)
qed

section \<open>Table changes of the steps\<close>

lemma calm_ops [simp]:
  "calm t (setPhase ru (HandoffState PhaseAcquiring 0) t)"
  "calm t (dropPhase ru t)"
  "calm t (forgetOpenEpoch ru (unmount ru t))"
  "calm t (dropPhase ru (forgetOpenEpoch ru (unmount ru t)))"
  "calm t (finishAcquire ru t)"
  "calm t (recordAcquireErr ru msg t)"
  "calm t (clearAcquireErr ru t)"
  by (auto simp: calm_def)

lemma calm_fields [simp]:
  "calm t (t\<lparr>mt_closed := c\<rparr>)" "calm t (t\<lparr>mt_mounts := []\<rparr>)" "calm t (t\<lparr>mt_inFlight := fl\<rparr>)"
  by (auto simp: calm_def backendFor_def phase_entry_def)

lemma link_ok: "table_link t served \<Longrightarrow> table_ok t \<and> epochs_ok t"
  by (simp add: table_link_def)

text \<open>A step of the table that is calm keeps everything.\<close>

definition quiet :: "opened_backend mountTable \<Rightarrow> opened_backend mountTable \<Rightarrow> bool" where
  "quiet t t' \<longleftrightarrow> calm t t' \<and> (table_ok t \<and> epochs_ok t \<longrightarrow> table_ok t' \<and> epochs_ok t')"

lemma quietI: "table_step t evs t' \<Longrightarrow> calm t t' \<Longrightarrow> quiet t t'"
  using table_step_sound table_step_epochs unfolding quiet_def by blast

lemma quiet_refl [simp]: "quiet t t"
  by (simp add: quiet_def)

lemma quiet_reclaim: "quiet t (reclaimDrain ru t)"
  by (rule quietI [OF table_step.reclaim [OF refl]]) (use reclaimDrain_cases [of ru t] in auto)

lemma quiet_clear: "clearOrphanedDrain ru t = (r, t') \<Longrightarrow> quiet t t'"
  using clearOrphanedDrain_cases [of ru t r t'] by (intro quietI [OF table_step.clear_orphan]) auto

lemma quiet_stuck: "finishStuckGainer ru t = (r, effs, t') \<Longrightarrow> quiet t t'"
proof (rule quietI [OF table_step.finish_stuck], assumption)
  assume "finishStuckGainer ru t = (r, effs, t')"
  then obtain b where "dropStuckGainerPhase ru t = (b, t')"
    by (auto simp: finishStuckGainer_def Let_def split: prod.splits bool.splits)
  from dropStuckGainerPhase_cases [OF this] show "calm t t'" by auto
qed

lemma quiet_release: "releaseDrained ru t = (r, t') \<Longrightarrow> quiet t t'"
  using releaseDrained_cases [of ru t r t'] by (intro quietI [OF table_step.release]) auto

lemma quiet_evict: "evictIfSame ru h t = (r, t') \<Longrightarrow> quiet t t'"
  using evictIfSame_cases [of ru h t r t'] by (intro quietI [OF table_step.evict]) auto

lemma quiet_start: "startAcquire ru t = (r, t') \<Longrightarrow> quiet t t'"
  by (rule quietI [OF table_step.start], assumption) (auto simp: startAcquire_def split: if_splits)

lemma quiet_ops:
  "\<not> IsLoser (hs_Phase (phaseOf ru t)) \<Longrightarrow> quiet t (setPhase ru (HandoffState PhaseAcquiring 0) t)"
  "hs_Phase (phaseOf ru t) = PhaseZero \<Longrightarrow> quiet t (forgetOpenEpoch ru (unmount ru t))"
  "quiet t (finishAcquire ru t)"
  "quiet t (recordAcquireErr ru msg t)"
  "quiet t (clearAcquireErr ru t)"
  "quiet t (t\<lparr>mt_closed := True\<rparr>)"
  by (auto intro: quietI table_step.intros)

lemma quiet_take: "mt_closed t \<Longrightarrow> quiet t (snd (takeAll iter t))"
  by (rule quietI [OF table_step.take_all [of t iter "fst (takeAll iter t)"]]) (simp_all add: takeAll_def)

lemma quiet_link: "table_link t served \<Longrightarrow> quiet t t' \<Longrightarrow> table_link t' served"
  using table_link_calm link_ok unfolding quiet_def by blast

lemma hinv_quiet:
  assumes "hinv durable marker g" "quiet (hf_table g n) (nd_table s)"
    "world_grows durable marker (hf_served g) (hf_world g) (nd_world s)"
  shows "hinv durable marker (nput g n s)"
  using hinv_nput [OF assms(1), of n s] assms(2,3) link_ok [OF hinvD(1) [OF assms(1), of n]] by (simp add: quiet_def)

section \<open>Storage changes of the steps\<close>

context backend_factory
begin

lemma grows_open:
  assumes "factory_open ops (ReplicaMount ru) e s = (r, s')" "durable ru (nd_world s) \<noteq> -1"
  shows "world_grows durable marker served (nd_world s) (nd_world s')"
proof -
  obtain r' h w where o: "fo_OpenUnit ops (ReplicaMount ru) e (nd_handle s, nd_world s) = (r', h, w)" by (metis prod_cases3)
  with assms(1) have "nd_world s' = w" by (auto simp: factory_open_def)
  moreover have "durable k (nd_world s) \<le> durable k w" for k
    using open_mono [OF o assms(2)] open_frame [OF o] by (cases "k = ru") auto
  ultimately show ?thesis using open_marker [OF o] by (simp add: world_grows_def)
qed

lemma grows_close: "world_grows durable marker served (nd_world s) (nd_world (factory_close ops (ReplicaMount ru) s))"
proof -
  obtain r h w where o: "fo_CloseUnit ops (ReplicaMount ru) (nd_handle s, nd_world s) = (r, h, w)" by (metis prod_cases3)
  from close_frame [OF o] show ?thesis by (simp add: factory_close_def o world_grows_def)
qed

lemma grows_mark:
  assumes "(n, ru, e) \<in> served"
  shows "world_grows durable marker served (nd_world s) (nd_world (writeServingMarker ops ru e s))"
proof -
  obtain r w where o: "fo_WriteServingMarker ops (ReplicaMount ru) e (nd_world s) = (r, w)" by fastforce
  note f = mark_frame [OF o]
  have m: "marker ru w = marker ru (nd_world s) \<or> marker ru w = Some (case marker ru (nd_world s) of None \<Rightarrow> e | Some c \<Rightarrow> max c e)"
    using mark_ok [of ru e "nd_world s" w] mark_error [of ru e "nd_world s" _ w] o by (cases r) auto
  have "\<exists>e'. marker k w = Some e' \<and> c \<le> e'" if "marker k (nd_world s) = Some c" for k c
    using f [of k] m that by (cases "k = ru") auto
  moreover have "marker k (nd_world s) = Some c \<or> (\<exists>n. (n, k, c) \<in> served)" if "marker k w = Some c" for k c
    using f [of k] m that assms by (cases "k = ru") (auto simp: max_def split: option.splits if_splits)
  ultimately show ?thesis using f by (simp add: world_grows_def writeServingMarker_def o)
qed

end

section \<open>The invariant is kept\<close>

lemma fleet_fields [simp]:
  "hf_world (nput g n s) = nd_world s" "hf_table (nput g n s) = (hf_table g)(n := nd_table s)"
  "hf_opening (nput g n s) = hf_opening g" "hf_publishing (nput g n s) = hf_publishing g"
  "hf_poll (nput g n s) = hf_poll g" "hf_served (nput g n s) = hf_served g"
  "served_at (nput g n s) k = served_at g k"
  "nd_table (nview g n) = hf_table g n" "nd_world (nview g n) = hf_world g" "nd_handle (nview g n) = hf_handle g n"
  "hf_handle (nput g n s) = (hf_handle g)(n := nd_handle s)"
  by (simp_all add: nput_def nview_def served_at_def)

lemma node_fields [simp]:
  "nd_table (spawn a s) = nd_table s" "nd_world (spawn a s) = nd_world s" "nd_handle (spawn a s) = nd_handle s"
  "nd_table (upd_table f s) = f (nd_table s)" "nd_world (upd_table f s) = nd_world s"
  "nd_handle (upd_table f s) = nd_handle s"
  "nd_table (factory_close ops m s) = nd_table s"
  by (simp_all add: spawn_def upd_table_def factory_close_def split: prod.split)

lemma hinv_set_poll:
  assumes "hinv durable marker g"
    "\<And>ru st. p = Some ru \<Longrightarrow> phase_entry ru (hf_table g n) = Some st \<Longrightarrow> hs_Phase st = PhaseDraining \<Longrightarrow>
       backendFor ru (hf_table g n) \<noteq> None \<Longrightarrow> \<exists>e. marker ru (hf_world g) = Some e \<and> hs_OpenEpoch st < e"
  shows "hinv durable marker (set_poll n p g)"
  using hinvD [OF assms(1)] assms(2) by (intro hinvI) (auto simp: set_poll_def served_at_def split: if_splits)

lemma hinv_published: "hinv durable marker g \<Longrightarrow> hinv durable marker (published n ru e g)"
  by (rule hinvI; frule hinvD; auto simp: published_def served_at_def split: if_splits dest: hinvD)

lemma hinv_serves_again:
  assumes "hinv durable marker g" "(n, ru, e) \<in> hf_served g"
  shows "hinv durable marker (serves n ru e g)"
proof -
  have s: "serves n ru e g = g\<lparr>hf_publishing := (hf_publishing g)(n := insert (ru, e) (hf_publishing g n))\<rparr>"
    using assms(2) by (simp add: serves_def insert_absorb)
  show ?thesis
    unfolding s using hinvD [OF assms(1)] assms(2) by (intro hinvI) (auto simp: served_at_def split: if_splits)
qed

lemma hinv_set_opening:
  assumes "hinv durable marker g"
    "\<And>e. o' = Some e \<Longrightarrow> e \<le> durable ru (hf_world g) \<and> 0 < e \<and> (\<forall>e'. (n, ru, e') \<in> hf_served g \<longrightarrow> e' < e)"
  shows "hinv durable marker (set_opening n ru o' g)"
  using hinvD [OF assms(1)] assms(2)
  by (intro hinvI) (auto simp: set_opening_def served_at_def split: if_splits)

text \<open>The serving transition: the table records an open epoch above everything this node served before.\<close>

lemma link_flip:
  assumes "table_link t served" "draining ru t = 0" "\<forall>e'. (ru, e') \<in> served \<longrightarrow> e' < e"
    "t' = dropPhase ru (mountLocked ru (Raw b) (recordOpenEpoch ru e t))" "table_ok t'" "epochs_ok t'"
  shows "table_link t' (insert (ru, e) served)"
  unfolding table_link_def
proof (intro conjI allI impI)
  fix k e'
  assume "backendFor k t' \<noteq> None" "mt_openEpochs t' k = Some e'"
  with assms show "(k, e') \<in> insert (ru, e) served" by (auto simp: table_link_def split: if_splits)
next
  fix k e' e''
  assume "backendFor k t' \<noteq> None" "mt_openEpochs t' k = Some e'" "(k, e'') \<in> insert (ru, e) served"
  with assms show "e'' \<le> e'" by (cases "k = ru") (auto simp: table_link_def less_imp_le)
next
  fix k st
  assume "backendFor k t' \<noteq> None" "phase_entry k t' = Some st" "hs_Phase st = PhaseDraining"
  with assms show "mt_openEpochs t' k = Some (hs_OpenEpoch st)" by (cases "k = ru") (auto simp: table_link_def)
qed (use assms in auto)

lemma link_arm:
  assumes "table_link t served" "mt_openEpochs t ru = Some e" "t' = setPhase ru (HandoffState PhaseDraining e) t"
    "table_ok t'" "epochs_ok t'"
  shows "table_link t' served"
  using assms by (simp add: table_link_def)

lemma hinv_arm:
  assumes inv: "hinv durable marker g" and p: "hf_poll g n = None"
    and a: "armDrain ru (ownOpenEpoch ops ru (nview g n)) (hf_table g n) = (r, t)"
  shows "hinv durable marker (nput g n ((nview g n)\<lparr>nd_table := t\<rparr>))"
proof -
  let ?t = "hf_table g n" and ?e = "ownOpenEpoch ops ru (nview g n)"
  note l = hinvD(1) [OF inv, of n]
  have ok: "table_ok t" "epochs_ok t"
    using table_step_sound [OF table_step.arm [OF a]] table_step_epochs [OF table_step.arm [OF a]] link_ok [OF l] by blast+
  have "table_link t (served_at g n)"
    using armDrain_cases [OF a]
  proof (elim disjE exE conjE)
    fix h assume "backendFor ru ?t = Some h" and t: "t = setPhase ru (HandoffState PhaseDraining ?e) ?t"
    then have "mt_openEpochs ?t ru = Some ?e"
      using link_ok [OF l] by (auto simp: epochs_ok_def ownOpenEpoch_def openEpochOf_def split: option.splits)
    then show ?thesis by (rule link_arm [OF l _ t ok])
  qed (simp add: l)
  then show ?thesis
    using hinvD [OF inv] p by (intro hinvI) (auto split: if_splits)
qed

lemma hinv_flip:
  assumes inv: "hinv durable marker g" and o: "hf_opening g n ru = Some e"
    and m: "mountServing ru (Raw b) e site (hf_table g n) = (out, effs, t)"
  shows "hinv durable marker ((if outcome_mounted out then serves n ru e else id)
           (set_opening n ru None (nput g n ((nview g n)\<lparr>nd_table := t\<rparr>))))"
    (is "hinv _ _ ?g'")
proof -
  let ?t = "hf_table g n"
  note l = hinvD(1) [OF inv, of n]
  have ok: "table_ok t" "epochs_ok t"
    using table_step_sound [OF table_step.serve [OF m]] table_step_epochs [OF table_step.serve [OF m]] link_ok [OF l] by blast+
  obtain t1 where i: "installServing ru (Raw b) e ?t = (out, t1)" and t: "t = t1"
    using m by (auto simp: mountServing_def split: prod.splits if_splits)
  from installServing_cases [OF i] t consider (no) "t = ?t" "\<not> outcome_mounted out"
    | (yes) "outcome_mounted out" "draining ru ?t = 0" "t = dropPhase ru (mountLocked ru (Raw b) (recordOpenEpoch ru e ?t))"
    by (auto simp: outcome_mounted_def)
  then show ?thesis
  proof cases
    case no
    then show ?thesis
      by (auto intro!: hinv_set_opening hinv_quiet [OF inv])
  next
    case yes
    have "table_link t (insert (ru, e) (served_at g n))"
      using hinvD(4) [OF inv o] by (intro link_flip [OF l yes(2) _ yes(3) ok]) (auto simp: served_at_def)
    moreover have "served_at ?g' k = (if k = n then insert (ru, e) (served_at g n) else served_at g k)" for k
      using yes(1) by (auto simp: served_at_def serves_def set_opening_def)
    ultimately have "table_link (hf_table ?g' k) (served_at ?g' k)" for k
      using hinvD(1) [OF inv, of k] yes(1) by (simp add: serves_def set_opening_def)
    moreover have "phase_entry k t = Some st \<Longrightarrow> backendFor k t \<noteq> None \<Longrightarrow> phase_entry k ?t = Some st \<and> backendFor k ?t \<noteq> None" for k st
      using yes(3) by (auto split: if_splits)
    moreover have "\<exists>n'. (n', k, e') \<in> hf_served ?g'" if "marker k (hf_world ?g') = Some e'" for k e'
    proof -
      have "marker k (hf_world g) = Some e'" using that yes(1) by (simp add: serves_def set_opening_def)
      with hinvD(6) [OF inv, of k e'] obtain n' where "(n', k, e') \<in> hf_served g" by blast
      with yes(1) show ?thesis by (simp add: serves_def set_opening_def) blast
    qed
    ultimately show ?thesis
      using yes(1) hinvD(2-5,7) [OF inv] hinvD(3) [OF inv o]
      by (intro hinvI) (auto simp: serves_def set_opening_def split: if_splits)
  qed
qed

lemma drain_poll_cases:
  assumes "drain_poll ops ru s = (ready, s')"
  shows "nd_world s' = nd_world s" "quiet (nd_table s) (nd_table s')"
    "ready \<Longrightarrow> \<exists>m. fo_ReadServingMarker ops (ReplicaMount ru) (nd_world s) = Inr (Some m) \<and>
       hs_OpenEpoch (phaseOf ru (nd_table s)) < m \<and> nd_table s' = nd_table s"
proof -
  obtain r t where c: "clearOrphanedDrain ru (nd_table s) = (r, t)" by fastforce
  note q = quiet_clear [OF c]
  show "nd_world s' = nd_world s" "quiet (nd_table s) (nd_table s')"
    using assms q by (cases r; auto simp: drain_poll_def c Let_def split: if_splits sum.splits)+
  assume ready
  with assms have "drain_poll ops ru s = (True, s')" by simp
  then have "s' = s \<and> (\<exists>m. fo_ReadServingMarker ops (ReplicaMount ru) (nd_world s) = Inr (Some m) \<and> hs_OpenEpoch (phaseOf ru (nd_table s)) < m)"
    by (cases r) (auto simp: drain_poll_def c Let_def Releasable_def split: if_splits sum.splits option.splits)
  then show "\<exists>m. fo_ReadServingMarker ops (ReplicaMount ru) (nd_world s) = Inr (Some m) \<and>
      hs_OpenEpoch (phaseOf ru (nd_table s)) < m \<and> nd_table s' = nd_table s" by blast
qed

context backend_factory
begin

lemma hinv_open:
  assumes inv: "hinv durable marker g" and d: "durable ru (hf_world g) \<noteq> -1"
    and f: "factory_open ops (ReplicaMount ru) e (nview g n) = (r, s)"
  shows "hinv durable marker (set_opening n ru (case r of Inl _ \<Rightarrow> None | Inr opened \<Rightarrow> Some opened) (nput g n s))"
proof -
  obtain h w where o: "fo_OpenUnit ops (ReplicaMount ru) e (hf_handle g n, hf_world g) = (r, h, w)"
    and s: "s = (nview g n)\<lparr>nd_handle := h, nd_world := w\<rparr>"
    using f by (auto simp: factory_open_def split: prod.splits)
  have "hinv durable marker (nput g n s)"
    using grows_open [OF f] d by (intro hinv_quiet [OF inv]) (simp_all add: s)
  then show ?thesis
  proof (rule hinv_set_opening)
    fix opened
    assume "(case r of Inl _ \<Rightarrow> None | Inr opened \<Rightarrow> Some opened) = Some opened"
    then have "r = Inr opened" by (cases r) auto
    with open_ok d o have *: "durable ru (hf_world g) < opened" "durable ru w = opened" by blast+
    have "e' < opened" if "(n, ru, e') \<in> hf_served g" for e'
      using hinvD(2) [OF inv that] *(1) by auto
    with * show "opened \<le> durable ru (hf_world (nput g n s)) \<and> 0 < opened \<and>
        (\<forall>e'. (n, ru, e') \<in> hf_served (nput g n s) \<longrightarrow> e' < opened)"
      by (auto simp: s word_gt_0)
  qed
qed

lemma hinv_poll:
  assumes inv: "hinv durable marker g" and p: "drain_poll ops ru (nview g n) = (ready, s)"
  shows "hinv durable marker (set_poll n (if ready then Some ru else None) (nput g n s))"
proof (rule hinv_set_poll)
  note c = drain_poll_cases [OF p]
  show "hinv durable marker (nput g n s)" by (rule hinv_quiet [OF inv]) (use c(1,2) in auto)
  fix ru' st
  assume a: "(if ready then Some ru else None) = Some ru'" "phase_entry ru' (hf_table (nput g n s) n) = Some st"
  then have r: "ready" "ru' = ru" by (auto split: if_splits)
  with c(3) obtain m where m: "fo_ReadServingMarker ops (ReplicaMount ru) (hf_world g) = Inr (Some m)"
    "hs_OpenEpoch (phaseOf ru (hf_table g n)) < m" "nd_table s = hf_table g n" by auto
  with a(2) r(2) have "hs_OpenEpoch st < m" by (simp add: phaseOf_entry)
  with mark_read [OF m(1)] c(1) r(2) show "\<exists>e. marker ru' (hf_world (nput g n s)) = Some e \<and> hs_OpenEpoch st < e"
    by (metis fleet_fields(1,9))
qed

lemma hinv_stuck:
  assumes inv: "hinv durable marker g" and f: "finishStuckGainer ru (hf_table g n) = (r, effs, t)"
  shows "hinv durable marker ((if r then serves n ru (ownOpenEpoch ops ru (nview g n)) else id)
      (nput g n ((nview g n)\<lparr>nd_table := t\<rparr>)))"
proof -
  have h: "hinv durable marker (nput g n ((nview g n)\<lparr>nd_table := t\<rparr>))"
    using quiet_stuck [OF f] by (intro hinv_quiet [OF inv]) auto
  show ?thesis
  proof (cases r)
    case True
    with f obtain t' where "dropStuckGainerPhase ru (hf_table g n) = (True, t')"
      by (auto simp: finishStuckGainer_def Let_def split: prod.splits bool.splits)
    from dropStuckGainerPhase_cases [OF this] have b: "backendFor ru (hf_table g n) \<noteq> None" by auto
    with link_ok [OF hinvD(1) [OF inv, of n]] obtain e where e: "mt_openEpochs (hf_table g n) ru = Some e"
      by (auto simp: epochs_ok_def)
    with b hinvD(1) [OF inv, of n] have "(n, ru, e) \<in> hf_served g" by (auto simp: table_link_def served_at_def)
    with e h True show ?thesis by (auto simp: ownOpenEpoch_def openEpochOf_def intro: hinv_serves_again)
  qed (use h in auto)
qed

lemma hinv_release:
  assumes inv: "hinv durable marker g"
  shows "hinv durable marker (set_poll n None (nput g n (drain_release ops ru (nview g n))))"
proof (rule hinv_set_poll)
  obtain r t where c: "releaseDrained ru (hf_table g n) = (r, t)" by fastforce
  let ?s = "spawn (ForgetFlushState (the r)) ((nview g n)\<lparr>nd_table := t\<rparr>)"
  show "hinv durable marker (nput g n (drain_release ops ru (nview g n)))"
    by (rule hinv_quiet [OF inv])
      (use quiet_release [OF c] grows_close [of _ ?s ru] in \<open>auto simp: drain_release_def c split: option.splits\<close>)
qed simp

end

context backend_factory
begin

lemma hstep_inv:
  assumes "hstep ops durable g g'" "hinv durable marker g"
  shows "hinv durable marker g'"
  using assms(1)
proof cases
  case (begin_acquire n ru)
  then show ?thesis by (auto simp: beginAcquire_def intro!: hinv_quiet [OF assms(2)] quiet_ops)
next
  case (begin_drain n ru)
  obtain r t where a: "armDrain ru (ownOpenEpoch ops ru (nview g n)) (hf_table g n) = (r, t)" by fastforce
  have "nput g n (beginDrain ops ru (nview g n)) = nput g n ((nview g n)\<lparr>nd_table := t\<rparr>)"
    by (simp add: beginDrain_def a Let_def nput_def flushDisplaced_def spawn_def split: option.split)
  with hinv_arm [OF assms(2) begin_drain(2) a] begin_drain(1) show ?thesis by simp
next
  case (reclaim n ru)
  then show ?thesis by (auto simp: reclaimDrainingPosition_def intro!: hinv_quiet [OF assms(2)] quiet_reclaim)
next
  case (clean_cut n ru)
  let ?s = "upd_table (forgetOpenEpoch ru \<circ> unmount ru) (nview g n)"
  show ?thesis
    unfolding clean_cut(1) releaseReplicaUnit_def
    by (rule hinv_quiet [OF assms(2)]) (use clean_cut grows_close [of _ ?s ru] in \<open>auto intro: quiet_ops\<close>)
next
  case (finish_stuck n ru r effs t)
  then show ?thesis using hinv_stuck [OF assms(2) finish_stuck(3)] by simp
next
  case (poll n ru ready s)
  then show ?thesis using hinv_poll [OF assms(2) poll(3)] by simp
next
  case (release n ru)
  then show ?thesis using hinv_release [OF assms(2)] by simp
next
  case (start n ru)
  obtain r t where a: "startAcquire ru (hf_table g n) = (r, t)" by fastforce
  then show ?thesis
    unfolding start(1) using quiet_start [OF a]
    by (intro hinv_quiet [OF assms(2)]) (auto simp: acquireReplicaUnitOverlap_def split: bool.splits)
next
  case (open_unit ru n e r s)
  then show ?thesis using hinv_open [OF assms(2) open_unit(4,5)] by simp
next
  case (close n ru)
  then show ?thesis using grows_close [of _ "nview g n" ru] by (auto intro!: hinv_quiet [OF assms(2)])
next
  case (flip n ru e site out effs t)
  then show ?thesis using hinv_flip [OF assms(2) flip(2,3)] by simp
next
  case (publish ru e n)
  have s: "(n, ru, e) \<in> hf_served g" by (rule hinvD(5) [OF assms(2) publish(2)])
  with hinvD(2) [OF assms(2) s] have "publishServingMarker ops ru e (nview g n) = writeServingMarker ops ru e (nview g n)"
    by (auto simp: publishServingMarker_def)
  with grows_mark [OF s, of "nview g n"] show ?thesis
    unfolding publish(1) by (auto intro!: hinv_published hinv_quiet [OF assms(2)] simp: writeServingMarker_def)
next
  case (finish n ru)
  then show ?thesis by (auto intro!: hinv_quiet [OF assms(2)] quiet_ops)
next
  case (evict n ru h)
  obtain r t where a: "evictIfSame ru h (hf_table g n) = (r, t)" by fastforce
  then show ?thesis
    unfolding evict(1) using quiet_evict [OF a]
    by (intro hinv_quiet [OF assms(2)]) (auto simp: evictStaleMount_def split: bool.splits)
next
  case (restart n h0)
  have "table_link (table_init table_zero) served" for served
    using init_ok by (auto simp: table_link_def table_init_def table_zero_def backendFor_def)
  then show ?thesis
    unfolding restart(1) using hinvD [OF assms(2)]
    by (intro hinvI) (auto simp: served_at_def split: if_splits)
qed (auto intro!: hinv_quiet [OF assms(2)] quiet_ops quiet_take)

lemma hinv_init: "(\<And>ru. marker ru w = None) \<Longrightarrow> hinv durable marker (hfleet_init w hs)"
  using init_ok by (intro hinvI)
    (auto simp: hfleet_init_def served_at_def table_link_def table_init_def table_zero_def backendFor_def)

lemma hinv_run:
  assumes "(hstep ops durable)\<^sup>*\<^sup>* (hfleet_init w hs) g" "\<And>ru. marker ru w = None"
  shows "hinv durable marker g"
  using assms(1) by (induction rule: rtranclp_induct) (auto intro: hinv_init assms(2) hstep_inv)

text \<open>A drain that its check is about to release has a successor: the marker that justified it was written for a
  serving transition of another node, at an open above this node's own.\<close>

lemma release_has_successor:
  assumes "hinv durable marker g" "hf_poll g n = Some ru" "releaseDrained ru (hf_table g n) = (Some h, t)"
  shows "\<exists>n' e e'. n' \<noteq> n \<and> openEpochOf ru (hf_table g n) = Some e \<and> e < e' \<and> (n', ru, e') \<in> hf_served g \<and>
    marker ru (hf_world g) = Some e'"
proof -
  let ?t = "hf_table g n"
  note l = hinvD(1) [OF assms(1), of n]
  from releaseDrained_cases [OF assms(3)] have b: "backendFor ru ?t \<noteq> None" and "draining ru ?t = 1" by auto
  then obtain st where st: "phase_entry ru ?t = Some st" "hs_Phase st = PhaseDraining"
    using draining_phase link_ok [OF l] by (fastforce simp: draining_def split: option.splits)
  with b l have e: "mt_openEpochs ?t ru = Some (hs_OpenEpoch st)" by (auto simp: table_link_def)
  obtain e' where m: "marker ru (hf_world g) = Some e'" "hs_OpenEpoch st < e'"
    using hinvD(7) [OF assms(1,2) st b] by blast
  with hinvD(6) [OF assms(1), of ru e'] obtain n' where n': "(n', ru, e') \<in> hf_served g" by blast
  have "n' \<noteq> n"
    using n' m(2) l b e unfolding table_link_def served_at_def by (auto simp: leD)
  with e m n' show ?thesis by (auto simp: openEpochOf_def)
qed

end

section \<open>The property on the shared factory\<close>

definition fleet_start :: "(Handle, Backing) hfleet" where
  "fleet_start = hfleet_init NewBacking (\<lambda>_. NewHandle)"


definition demo_mounted :: "Epoch \<Rightarrow> opened_backend mountTable" where
  "demo_mounted e = (table_init table_zero)\<lparr>mt_inFlight := [demo_ru], mt_mounts := [(demo_ru, Healing demo_ru (ReplicaMount demo_ru, e))],
     mt_openEpochs := [demo_ru \<mapsto> e]\<rparr>"

text \<open>One node acquires the position: it starts, opens, makes the serving transition and publishes it.\<close>

lemma demo_open:
  assumes "hf_table g n = table_init table_zero" "hf_handle g n = NewHandle" "hf_opening g n = Map.empty"
    "bk_replicaDurableEpoch demo_ru (hf_world g) \<noteq> -1" "e = bk_replicaDurableEpoch demo_ru (hf_world g) + 1"
    "bk_openFaults (hf_world g) = Map.empty"
  shows "\<exists>g'. (hstep shared_factory_ops bk_replicaDurableEpoch)\<^sup>*\<^sup>* g g' \<and>
    hf_table g' = (hf_table g)(n := (table_init table_zero)\<lparr>mt_inFlight := [demo_ru]\<rparr>) \<and> hf_opening g' n demo_ru = Some e \<and>
    hf_poll g' = hf_poll g \<and> (\<forall>k. k \<noteq> n \<longrightarrow> hf_handle g' k = hf_handle g k \<and> hf_opening g' k = hf_opening g k) \<and>
    bk_replicaDurableEpoch demo_ru (hf_world g') = e \<and> bk_openFaults (hf_world g') = Map.empty \<and>
    bk_servingMarkers (hf_world g') = bk_servingMarkers (hf_world g)"
proof -
  let ?step = "hstep shared_factory_ops bk_replicaDurableEpoch"
  define g1 where "g1 = nput g n (acquireReplicaUnitOverlap demo_ru (nview g n))"
  obtain r s where f: "factory_open shared_factory_ops (ReplicaMount demo_ru) 1 (nview g1 n) = (r, s)" by fastforce
  have g1: "hf_opening g1 = hf_opening g" "hf_world g1 = hf_world g" "hf_handle g1 = hf_handle g" "hf_poll g1 = hf_poll g"
    "hf_table g1 = (hf_table g)(n := (table_init table_zero)\<lparr>mt_inFlight := [demo_ru]\<rparr>)"
    using assms(1) by (auto simp: g1_def acquireReplicaUnitOverlap_def startAcquire_def table_init_def table_zero_def)
  have "e \<noteq> 0" using assms(4,5) by (metis add_eq_0_iff2)
  then have "1 \<le> e" using unat_gt_0 [of e] by (simp add: word_le_nat_alt Suc_le_eq)
  then have r: "r = Inr e" "nd_table s = hf_table g1 n" "bk_replicaDurableEpoch demo_ru (nd_world s) = e"
    "bk_openFaults (nd_world s) = Map.empty" "bk_servingMarkers (nd_world s) = bk_servingMarkers (hf_world g)"
    using f g1 assms
    by (auto simp: factory_open_def shared_factory_ops_def OpenUnit_def ReplicaMount_def OpenReplicaUnit_def NewHandle_def
        bk_acquireReplica_def acquireLocked_def bk_replicaDurableEpoch_def get0_def Let_def not_less split: if_splits)
  have "?step g g1" unfolding g1_def by (rule hstep.start)
  moreover have "?step g1 (set_opening n demo_ru (case r of Inl _ \<Rightarrow> None | Inr opened \<Rightarrow> Some opened) (nput g1 n s))"
    by (rule hstep.open_unit [OF _ _ _ f]) (use g1 assms in auto)
  ultimately have "?step\<^sup>*\<^sup>* g (set_opening n demo_ru (Some e) (nput g1 n s))" using r(1) by auto
  then show ?thesis using r g1 by (intro exI conjI) (assumption, auto simp: set_opening_def)
qed

lemma demo_serve:
  assumes "hf_table g n = (table_init table_zero)\<lparr>mt_inFlight := [demo_ru]\<rparr>" "hf_opening g n demo_ru = Some e" "e \<noteq> 0"
    "\<And>c. bk_servingMarkers (hf_world g) demo_ru = Some c \<Longrightarrow> c < e"
  shows "\<exists>g'. (hstep shared_factory_ops bk_replicaDurableEpoch)\<^sup>*\<^sup>* g g' \<and>
    hf_table g' = (hf_table g)(n := demo_mounted e) \<and> hf_poll g' = hf_poll g \<and>
    (\<forall>k. k \<noteq> n \<longrightarrow> hf_handle g' k = hf_handle g k \<and> hf_opening g' k = hf_opening g k) \<and>
    bk_replicaDurableEpoch demo_ru (hf_world g') = bk_replicaDurableEpoch demo_ru (hf_world g) \<and>
    bk_openFaults (hf_world g') = bk_openFaults (hf_world g) \<and> bk_readServingMarker demo_ru (hf_world g') = Some e"
proof -
  let ?step = "hstep shared_factory_ops bk_replicaDurableEpoch"
  define g1 where "g1 = serves n demo_ru e (set_opening n demo_ru None (nput g n ((nview g n)\<lparr>nd_table := demo_mounted e\<rparr>)))"
  define g2 where "g2 = published n demo_ru e (nput g1 n (publishServingMarker shared_factory_ops demo_ru e (nview g1 n)))"
  obtain effs where "mountServing demo_ru (Raw (ReplicaMount demo_ru, e)) e ''acquire'' (hf_table g n) =
      (MountedPhaseResolved, effs, demo_mounted e)"
    by (simp add: assms(1) mountServing_def installServing_def table_init_def table_zero_def phaseOf_def
      zero_HandoffState_def IsLoser_def Let_def outcome_mounted_def decorate_def newFencedSelfHealing_def NextOnReady_def
      backendFor_def dropPhase_def mountLocked_def recordOpenEpoch_def clearAcquireErr_def demo_mounted_def)
  from hstep.flip [where ops = shared_factory_ops and durable = bk_replicaDurableEpoch, OF assms(2) this]
  have "?step g g1" by (simp add: g1_def outcome_mounted_def)
  moreover have "?step g1 g2"
    unfolding g2_def by (rule hstep.publish) (simp add: g1_def serves_def)
  ultimately have "?step\<^sup>*\<^sup>* g g2" by auto
  moreover have "hf_table g2 = (hf_table g)(n := demo_mounted e)" "hf_poll g2 = hf_poll g"
    "\<forall>k. k \<noteq> n \<longrightarrow> hf_handle g2 k = hf_handle g k \<and> hf_opening g2 k = hf_opening g k"
    by (simp_all add: g2_def g1_def published_def serves_def set_opening_def publishServingMarker_def writeServingMarker_def)
  moreover have "hf_world g2 = bk_writeServingMarker demo_ru e (hf_world g)"
    using assms(3) by (simp add: g2_def g1_def published_def serves_def set_opening_def publishServingMarker_def
        writeServingMarker_def shared_factory_ops_def WriteServingMarker_def ReplicaMount_def)
  ultimately show ?thesis
    using assms(4) by (intro exI [of _ g2])
      (auto simp: bk_writeServingMarker_def bk_replicaDurableEpoch_def bk_readServingMarker_def Let_def split: option.splits)
qed

lemma demo_acquire:
  assumes "hf_table g n = table_init table_zero" "hf_handle g n = NewHandle" "hf_opening g n = Map.empty"
    "e = bk_replicaDurableEpoch demo_ru (hf_world g) + 1" "e \<noteq> 0" "bk_openFaults (hf_world g) = Map.empty"
    "\<And>c. bk_servingMarkers (hf_world g) demo_ru = Some c \<Longrightarrow> c < e"
  shows "\<exists>g'. (hstep shared_factory_ops bk_replicaDurableEpoch)\<^sup>*\<^sup>* g g' \<and>
    hf_table g' = (hf_table g)(n := demo_mounted e) \<and> hf_poll g' = hf_poll g \<and>
    (\<forall>k. k \<noteq> n \<longrightarrow> hf_handle g' k = hf_handle g k \<and> hf_opening g' k = hf_opening g k) \<and>
    bk_replicaDurableEpoch demo_ru (hf_world g') = e \<and>
    bk_openFaults (hf_world g') = Map.empty \<and> bk_readServingMarker demo_ru (hf_world g') = Some e"
proof -
  have "bk_replicaDurableEpoch demo_ru (hf_world g) \<noteq> -1" using assms(4,5) by auto
  from demo_open [OF assms(1-3) this assms(4,6)] obtain g1 where
    g1: "(hstep shared_factory_ops bk_replicaDurableEpoch)\<^sup>*\<^sup>* g g1"
      "hf_table g1 = (hf_table g)(n := (table_init table_zero)\<lparr>mt_inFlight := [demo_ru]\<rparr>)" "hf_opening g1 n demo_ru = Some e"
      "hf_poll g1 = hf_poll g" "\<forall>k. k \<noteq> n \<longrightarrow> hf_handle g1 k = hf_handle g k \<and> hf_opening g1 k = hf_opening g k"
      "bk_replicaDurableEpoch demo_ru (hf_world g1) = e" "bk_openFaults (hf_world g1) = Map.empty"
      "bk_servingMarkers (hf_world g1) = bk_servingMarkers (hf_world g)" by blast
  have "hf_table g1 n = (table_init table_zero)\<lparr>mt_inFlight := [demo_ru]\<rparr>" using g1(2) by simp
  from demo_serve [OF this g1(3) assms(5)] g1(8) assms(7) obtain g2 where
    "(hstep shared_factory_ops bk_replicaDurableEpoch)\<^sup>*\<^sup>* g1 g2" "hf_table g2 = (hf_table g1)(n := demo_mounted e)"
      "hf_poll g2 = hf_poll g1" "\<forall>k. k \<noteq> n \<longrightarrow> hf_handle g2 k = hf_handle g1 k \<and> hf_opening g2 k = hf_opening g1 k"
      "bk_replicaDurableEpoch demo_ru (hf_world g2) = bk_replicaDurableEpoch demo_ru (hf_world g1)"
      "bk_openFaults (hf_world g2) = bk_openFaults (hf_world g1)" "bk_readServingMarker demo_ru (hf_world g2) = Some e"
    by metis
  with g1 show ?thesis by (intro exI [of _ g2]) (auto intro: rtranclp_trans)
qed

text \<open>Node a serves at epoch 1, node b at epoch 2; a starts to drain and its check sees b's marker.\<close>

definition demo_leaving :: "opened_backend mountTable" where
  "demo_leaving = setPhase demo_ru (HandoffState PhaseDraining 1) (demo_mounted 1)"

lemma demo_leaving_fields:
  "phaseOf demo_ru demo_leaving = HandoffState PhaseDraining 1"
  "clearOrphanedDrain demo_ru demo_leaving = (False, demo_leaving)"
proof -
  have b: "backendFor demo_ru demo_leaving = Some (Healing demo_ru (ReplicaMount demo_ru, 1))"
    "phase_entry demo_ru demo_leaving = Some (HandoffState PhaseDraining 1)"
    by (simp_all add: demo_leaving_def demo_mounted_def backendFor_def setPhase_def phase_entry_def table_init_def)
  then show "phaseOf demo_ru demo_leaving = HandoffState PhaseDraining 1" by (simp add: phaseOf_entry)
  from b show "clearOrphanedDrain demo_ru demo_leaving = (False, demo_leaving)"
    by (simp add: clearOrphanedDrain_def map_of_phases)
qed

lemma demo_handoff:
  "\<exists>g. (hstep shared_factory_ops bk_replicaDurableEpoch)\<^sup>*\<^sup>* fleet_start g \<and> hf_poll g ''a'' = Some demo_ru \<and> hf_table g ''a'' = demo_leaving"
proof -
  let ?step = "hstep shared_factory_ops bk_replicaDurableEpoch"
  have "\<exists>g1. ?step\<^sup>*\<^sup>* fleet_start g1 \<and> hf_table g1 = (hf_table fleet_start)(''a'' := demo_mounted 1) \<and>
      hf_poll g1 = hf_poll fleet_start \<and> (\<forall>k. k \<noteq> ''a'' \<longrightarrow> hf_handle g1 k = hf_handle fleet_start k \<and> hf_opening g1 k = hf_opening fleet_start k) \<and>
      bk_replicaDurableEpoch demo_ru (hf_world g1) = 1 \<and> bk_openFaults (hf_world g1) = Map.empty \<and>
      bk_readServingMarker demo_ru (hf_world g1) = Some 1"
    by (rule demo_acquire) (simp_all add: fleet_start_def hfleet_init_def NewBacking_def bk_replicaDurableEpoch_def get0_def)
  then obtain g1 where g1: "?step\<^sup>*\<^sup>* fleet_start g1" "hf_table g1 = (hf_table fleet_start)(''a'' := demo_mounted 1)"
      "hf_poll g1 = hf_poll fleet_start" "hf_handle g1 ''b'' = NewHandle" "hf_opening g1 ''b'' = Map.empty"
      "bk_replicaDurableEpoch demo_ru (hf_world g1) = 1" "bk_openFaults (hf_world g1) = Map.empty"
      "bk_servingMarkers (hf_world g1) demo_ru = Some 1"
    by (auto simp: fleet_start_def hfleet_init_def bk_readServingMarker_def)
  have "\<exists>g2. ?step\<^sup>*\<^sup>* g1 g2 \<and> hf_table g2 = (hf_table g1)(''b'' := demo_mounted 2) \<and>
      hf_poll g2 = hf_poll g1 \<and> (\<forall>k. k \<noteq> ''b'' \<longrightarrow> hf_handle g2 k = hf_handle g1 k \<and> hf_opening g2 k = hf_opening g1 k) \<and>
      bk_replicaDurableEpoch demo_ru (hf_world g2) = 2 \<and> bk_openFaults (hf_world g2) = Map.empty \<and>
      bk_readServingMarker demo_ru (hf_world g2) = Some 2"
    by (rule demo_acquire) (use g1 in \<open>simp_all add: fleet_start_def hfleet_init_def\<close>)
  then obtain g2 where g2: "?step\<^sup>*\<^sup>* g1 g2" "hf_table g2 ''a'' = demo_mounted 1" "hf_poll g2 ''a'' = None"
      "bk_readServingMarker demo_ru (hf_world g2) = Some 2"
    using g1 by (auto simp: fleet_start_def hfleet_init_def)
  define g3 where "g3 = nput g2 ''a'' (beginDrain shared_factory_ops demo_ru (nview g2 ''a''))"
  have g3: "?step g2 g3" unfolding g3_def by (rule hstep.begin_drain [OF g2(3)])
  have f3: "hf_table g3 ''a'' = demo_leaving" "hf_poll g3 ''a'' = None" "hf_world g3 = hf_world g2"
    using g2 by (auto simp: g3_def beginDrain_def ownOpenEpoch_def openEpochOf_def demo_mounted_def armDrain_def phaseOf_def
        table_init_def backendFor_def zero_HandoffState_def NextOnDrain_def flushDisplaced_def demo_leaving_def
        table_zero_def Let_def)
  have "drain_poll shared_factory_ops demo_ru (nview g3 ''a'') = (True, nview g3 ''a'')"
    using f3 g2(4) demo_leaving_fields
    by (simp add: drain_poll_def shared_factory_ops_def ReadServingMarker_def ReplicaMount_def Releasable_def Let_def)
  from hstep.poll [OF f3(2) this] have "?step g3 (set_poll ''a'' (Some demo_ru) (nput g3 ''a'' (nview g3 ''a'')))" by simp
  then have "?step\<^sup>*\<^sup>* fleet_start (set_poll ''a'' (Some demo_ru) (nput g3 ''a'' (nview g3 ''a'')))"
    using g1(1) g2(1) g3 by (meson rtranclp.rtrancl_into_rtrancl rtranclp_trans)
  then show ?thesis using f3 by (intro exI conjI) (assumption, simp_all add: set_poll_def)
qed


section \<open>The window inside beginDrain\<close>

text \<open>\<^verbatim>\<open>beginDrain\<close> reads the open epoch before it takes the table's mutex. When the position is served anew in
  between, at a later open, the drain is armed below the mount's own epoch, and the marker this very
  node publishes for the new open is then enough to release it.\<close>

lemma stale_gate:
  assumes "mountServing ru b e2 site t = (out, effs, t1)" "outcome_mounted out" "e1 < e2"
  shows "\<exists>h t2. armDrain ru e1 t1 = (Some h, t2) \<and> openEpochOf ru t2 = Some e2 \<and>
    Releasable (phaseOf ru t2) (hs_OpenEpoch (phaseOf ru t2) < e2)"
proof -
  obtain t0 where i: "installServing ru b e2 t = (out, t0)" "t1 = t0"
    using assms(1) by (auto simp: mountServing_def split: prod.splits if_splits)
  from installServing_cases [OF i(1)] assms(2) i(2)
  have "t1 = dropPhase ru (mountLocked ru b (recordOpenEpoch ru e2 t))" by (auto simp: outcome_mounted_def)
  then show ?thesis
    using assms(3) by (simp add: armDrain_def phaseOf_entry zero_HandoffState_def NextOnDrain_def Releasable_def openEpochOf_def)
qed

end
