(* ===== verification/Settle.thy ===== *)
theory Settle
  imports Decide
begin

text \<open>
  The settle timer of a cluster node (\<^verbatim>\<open>scheduleReconcileIn\<close>, \<^verbatim>\<open>runScheduledReconcile\<close> in
  \<^verbatim>\<open>src/pkg/cluster/multibackend_rebalance.go\<close>, the timer part of \<^verbatim>\<open>Close\<close> in \<^verbatim>\<open>cluster.go\<close>) as a step
  relation: arming, firing, the callback's critical section, the callback's end and the close are
  interleaved in any order. Timers are numbered; \<open>se_live\<close> are armed and have not fired,
  \<open>se_fired\<close> have fired and their callback has not reached \<^verbatim>\<open>settleMu\<close> yet, \<open>se_running\<close> are past it and
  running their reconcile pass.
\<close>

record settle =
  se_timer :: "nat option"
  se_immediate :: bool
  se_pending :: int
  se_closed :: bool
  se_live :: "nat set"
  se_fired :: "nat set"
  se_running :: "nat set"
  se_delay :: "nat \<Rightarrow> int"
  se_next :: nat

definition settle_init :: settle where
  "settle_init = \<lparr>se_timer = None, se_immediate = False, se_pending = 0, se_closed = False,
     se_live = {}, se_fired = {}, se_running = {}, se_delay = (\<lambda>_. 0), se_next = 0\<rparr>"

text \<open>\<^verbatim>\<open>time.Timer.Stop\<close>: true iff it stops a timer that has neither fired nor been stopped.\<close>

definition timer_Stop :: "nat \<Rightarrow> settle \<Rightarrow> bool \<times> settle" where
  "timer_Stop t s = (t \<in> se_live s, s\<lparr>se_live := se_live s - {t}\<rparr>)"

text \<open>\<^verbatim>\<open>time.AfterFunc\<close>: a new live timer.\<close>

definition after_func :: "int \<Rightarrow> settle \<Rightarrow> nat \<times> settle" where
  "after_func d s =
     (se_next s, s\<lparr>se_live := insert (se_next s) (se_live s), se_delay := (se_delay s)(se_next s := d),
                   se_next := Suc (se_next s)\<rparr>)"

text \<open>The critical section of \<^verbatim>\<open>scheduleReconcileIn\<close>, and the whole function. A caller that has passed the
  \<^verbatim>\<open>closed\<close> test can still enter the section after a close, so the step relation uses the section.\<close>

definition schedule_locked :: "int \<Rightarrow> settle \<Rightarrow> settle" where
  "schedule_locked d s =
     (let (fired, s) = (case se_timer s of
                          None \<Rightarrow> (False, s)
                        | Some t \<Rightarrow> (let (stopped, s) = timer_Stop t s in (\<not> stopped, s)));
          cur = \<lparr>ss_Armed = (se_timer s \<noteq> None), ss_Immediate = se_immediate s, ss_Fired = fired\<rparr>;
          dec = SettleArm cur d;
          s = (if sd_NewObligation dec then s\<lparr>se_pending := se_pending s + 1\<rparr> else s);
          s = s\<lparr>se_immediate := sd_Immediate dec\<rparr>;
          (t, s) = after_func (sd_Delay dec) s
      in s\<lparr>se_timer := Some t\<rparr>)"

definition scheduleReconcileIn :: "int \<Rightarrow> settle \<Rightarrow> settle" where
  "scheduleReconcileIn d s = (if se_closed s then s else schedule_locked d s)"

text \<open>\<^verbatim>\<open>runScheduledReconcile\<close>: the critical section at its start, and the deferred decrement at its end.\<close>

definition run_begin :: "nat \<Rightarrow> settle \<Rightarrow> settle" where
  "run_begin t s =
     s\<lparr>se_timer := None, se_immediate := False,
       se_fired := se_fired s - {t}, se_running := insert t (se_running s)\<rparr>"

definition run_end :: "nat \<Rightarrow> settle \<Rightarrow> settle" where
  "run_end t s = s\<lparr>se_running := se_running s - {t}, se_pending := se_pending s - 1\<rparr>"

definition close_settle :: "settle \<Rightarrow> settle" where
  "close_settle s =
     (case se_timer s of
        None \<Rightarrow> s\<lparr>se_closed := True\<rparr>
      | Some t \<Rightarrow>
          (let (stopped, s) = timer_Stop t s;
               s = (if stopped then s\<lparr>se_pending := se_pending s - 1\<rparr> else s)
           in s\<lparr>se_timer := None, se_closed := True\<rparr>))"

inductive settle_step :: "settle \<Rightarrow> settle \<Rightarrow> bool" where
  arm: "0 \<le> d \<Longrightarrow> settle_step s (schedule_locked d s)"
| fire: "t \<in> se_live s \<Longrightarrow>
    settle_step s (s\<lparr>se_live := se_live s - {t}, se_fired := insert t (se_fired s)\<rparr>)"
| begin_run: "t \<in> se_fired s \<Longrightarrow> settle_step s (run_begin t s)"
| end_run: "t \<in> se_running s \<Longrightarrow> settle_step s (run_end t s)"
| close: "settle_step s (close_settle s)"

inductive_cases settle_stepE: "settle_step s t"

section \<open>The pending counter counts outstanding passes\<close>

definition settle_inv :: "settle \<Rightarrow> bool" where
  "settle_inv s \<longleftrightarrow>
     se_live s \<subseteq> {..<se_next s} \<and> se_fired s \<subseteq> {..<se_next s} \<and> se_running s \<subseteq> {..<se_next s} \<and>
     se_live s \<inter> se_fired s = {} \<and> se_live s \<inter> se_running s = {} \<and> se_fired s \<inter> se_running s = {} \<and>
     se_pending s = int (card (se_live s) + card (se_fired s) + card (se_running s)) \<and>
     (\<forall>t. se_timer s = Some t \<longrightarrow> (se_immediate s \<longleftrightarrow> se_delay s t = 0)) \<and>
     (\<forall>t. 0 \<le> se_delay s t)"

lemma settle_inv_finite:
  "settle_inv s \<Longrightarrow> finite (se_live s) \<and> finite (se_fired s) \<and> finite (se_running s)"
  unfolding settle_inv_def by (meson finite_lessThan finite_subset)

lemma card_removeE:
  assumes "finite A" "t \<in> A"
  obtains k where "card A = Suc k" "card (A - {t}) = k"
  using that card.remove [OF assms] by simp

lemma settle_inv_init: "settle_inv settle_init"
  by (simp add: settle_inv_def settle_init_def)

text \<open>The section in closed form: a live referenced timer is replaced and its obligation inherited,
  in every other case one more obligation and one more live timer.\<close>

lemma schedule_locked_eq:
  "schedule_locked d s =
     (let inh = (\<exists>t. se_timer s = Some t \<and> t \<in> se_live s);
          imm = (inh \<and> se_immediate s \<and> d > 0)
      in s\<lparr>se_timer := Some (se_next s), se_immediate := imm \<or> d = 0,
           se_pending := se_pending s + (if inh then 0 else 1),
           se_live := insert (se_next s) (se_live s - set_option (se_timer s)),
           se_delay := (se_delay s)(se_next s := if imm then 0 else d), se_next := Suc (se_next s)\<rparr>)"
  by (auto simp: schedule_locked_def timer_Stop_def after_func_def SettleArm_def Let_def
      intro!: settle.equality split: option.splits)

lemma settle_inv_arm:
  assumes inv: "settle_inv s" and "0 \<le> d"
  shows "settle_inv (schedule_locked d s)"
proof -
  let ?s = "schedule_locked d s" and ?L = "se_live s - set_option (se_timer s)"
  note fin = settle_inv_finite [OF inv]
  have new: "se_next s \<notin> se_live s" "se_next s \<notin> se_fired s" "se_next s \<notin> se_running s"
    using inv by (auto simp: settle_inv_def)
  have "int (card (insert (se_next s) ?L)) =
      int (card (se_live s)) + (if \<exists>t. se_timer s = Some t \<and> t \<in> se_live s then 0 else 1)"
  proof (cases "\<exists>t. se_timer s = Some t \<and> t \<in> se_live s")
    case True
    then obtain t where t: "se_timer s = Some t" "t \<in> se_live s" by blast
    then have "card (se_live s) = Suc (card (se_live s - {t}))" using fin by (intro card.remove) auto
    with t new fin show ?thesis by simp
  next
    case False
    then have "?L = se_live s" by (cases "se_timer s") auto
    with False new fin show ?thesis by simp
  qed
  with inv new assms(2) show ?thesis
    unfolding schedule_locked_eq settle_inv_def Let_def by auto
qed

lemma settle_inv_step: "settle_step s s' \<Longrightarrow> settle_inv s \<Longrightarrow> settle_inv s'"
proof (induction rule: settle_step.induct)
  case (arm d s)
  then show ?case by (simp add: settle_inv_arm)
next
  case (fire t s)
  have "card (se_live s) = Suc (card (se_live s - {t}))"
    using settle_inv_finite [OF fire(2)] fire(1) by (intro card.remove) auto
  moreover have "t \<notin> se_fired s" using fire by (auto simp: settle_inv_def)
  moreover note fire
  ultimately show ?case using settle_inv_finite [OF fire(2)] unfolding settle_inv_def by auto
next
  case (begin_run t s)
  have "card (se_fired s) = Suc (card (se_fired s - {t}))"
    using settle_inv_finite [OF begin_run(2)] begin_run(1) by (intro card.remove) auto
  moreover have "t \<notin> se_running s" using begin_run by (auto simp: settle_inv_def)
  moreover note begin_run
  ultimately show ?case
    using settle_inv_finite [OF begin_run(2)] unfolding settle_inv_def run_begin_def by auto
next
  case (end_run t s)
  then obtain k where "card (se_running s) = Suc k" "card (se_running s - {t}) = k"
    using settle_inv_finite by (metis card_removeE)
  with end_run(2) show ?case unfolding settle_inv_def run_end_def by auto
next
  case (close s)
  show ?case
  proof (cases "\<exists>t. se_timer s = Some t \<and> t \<in> se_live s")
    case True
    then obtain t where t: "se_timer s = Some t" "t \<in> se_live s" by blast
    then obtain k where "card (se_live s) = Suc k" "card (se_live s - {t}) = k"
      using settle_inv_finite [OF close] by (metis card_removeE)
    with t close show ?thesis unfolding settle_inv_def close_settle_def timer_Stop_def by auto
  next
    case False
    with close show ?thesis
      unfolding settle_inv_def close_settle_def timer_Stop_def by (auto split: option.splits)
  qed
qed

lemma settle_inv_reach: "settle_step\<^sup>*\<^sup>* settle_init s \<Longrightarrow> settle_inv s"
  by (induction rule: rtranclp_induct) (auto intro: settle_inv_init settle_inv_step)

text \<open>The pending counter is exact under every interleaving of arming, firing, running and closing:
  in every reachable state it equals the number of live timers plus the number of callbacks that
  have fired and not finished. So it never goes negative and is zero exactly when no pass is
  outstanding, which is what the idle wait tests.\<close>

theorem settle_pending_exact:
  assumes "settle_step\<^sup>*\<^sup>* settle_init s"
  shows "se_pending s = int (card (se_live s) + card (se_fired s) + card (se_running s)) \<and>
    0 \<le> se_pending s \<and>
    (se_pending s = 0 \<longleftrightarrow> se_live s = {} \<and> se_fired s = {} \<and> se_running s = {})"
proof -
  note inv = settle_inv_reach [OF assms]
  have p: "se_pending s = int (card (se_live s) + card (se_fired s) + card (se_running s))"
    using inv unfolding settle_inv_def by blast
  have "se_pending s = 0 \<longleftrightarrow> card (se_live s) = 0 \<and> card (se_fired s) = 0 \<and> card (se_running s) = 0"
    unfolding p by linarith
  also have "\<dots> \<longleftrightarrow> se_live s = {} \<and> se_fired s = {} \<and> se_running s = {}"
    using settle_inv_finite [OF inv] by simp
  finally show ?thesis using p by simp
qed

text \<open>A debounced arm never postpones a pending immediate one. Whatever was interleaved before, if
  the referenced timer is live and was armed with delay zero, then after any further arm the
  referenced timer is live and armed with delay zero; and an arm with delay zero always results in
  one.\<close>

theorem immediate_arm_not_postponed:
  assumes "settle_step\<^sup>*\<^sup>* settle_init s" and "0 \<le> d"
    and "d = 0 \<or> (\<exists>t. se_timer s = Some t \<and> t \<in> se_live s \<and> se_delay s t = 0)"
  shows "\<exists>t. se_timer (schedule_locked d s) = Some t \<and> t \<in> se_live (schedule_locked d s) \<and>
    se_delay (schedule_locked d s) t = 0"
  using settle_inv_reach [OF assms(1)] assms(2,3)
  unfolding schedule_locked_eq settle_inv_def Let_def by auto

text \<open>The close does not always stop the pending timer: a callback that fired before a re-arm clears the
  reference to the newer timer, which then stays live across the close.\<close>

lemma live_timer_survives_close:
  "\<exists>s. settle_step\<^sup>*\<^sup>* settle_init s \<and> se_closed s \<and> se_live s \<noteq> {}"
proof -
  define a where "a = schedule_locked 5 settle_init"
  define b where "b = a\<lparr>se_live := se_live a - {0}, se_fired := insert 0 (se_fired a)\<rparr>"
  define c where "c = schedule_locked 5 b"
  define d where "d = run_begin 0 c"
  note defs = a_def b_def c_def d_def schedule_locked_eq settle_init_def Let_def run_begin_def
  have "settle_step settle_init a" unfolding a_def by (rule settle_step.arm) simp
  moreover have "settle_step a b" unfolding b_def by (rule settle_step.fire) (simp add: defs)
  moreover have "settle_step b c" unfolding c_def by (rule settle_step.arm) simp
  moreover have "settle_step c d" unfolding d_def by (rule settle_step.begin_run) (simp add: defs)
  moreover have "settle_step d (close_settle d)" by (rule settle_step.close)
  ultimately have "settle_step\<^sup>*\<^sup>* settle_init (close_settle d)"
    by (meson rtranclp.rtrancl_into_rtrancl rtranclp.rtrancl_refl)
  moreover have "se_closed (close_settle d) \<and> se_live (close_settle d) \<noteq> {}"
    by (simp add: close_settle_def defs)
  ultimately show ?thesis by blast
qed

end
