(* ===== verification/Ring.thy ===== *)
theory Ring
  imports Units "HOL-Library.Multiset"
begin

text \<open>
  The placement ring (\<^verbatim>\<open>src/pkg/ring/ring.go\<close>) and the ring-input encoding of a unit
  (\<^verbatim>\<open>src/internal/placement/placement.go\<close>). The bounded-load consistent-hash library
  (\<^verbatim>\<open>buraksezer/consistent\<close>) is not part of the sources: its operations are the dictionary
  \<open>consistent\<close>, an argument of every definition that calls it, and what the code relies on is a
  hypothesis of the theorems. Go ranges over a map in no fixed order; \<open>iter\<close> is the order a rebuild
  happens to see.
\<close>

section \<open>The library as a parameter\<close>

text \<open>Members are hashed by their \<^verbatim>\<open>String()\<close>, which is the id. \<^const>\<open>None\<close> of \<open>cn_New\<close> is a panic inside the
  library, \<^const>\<open>None\<close> of the lookups an error (for the partition owner, a nil member).\<close>

record 'h consistent =
  cn_Empty :: 'h
  cn_New :: "string list \<Rightarrow> 'h option"
  cn_LocateKey :: "'h \<Rightarrow> bytes \<Rightarrow> string"
  cn_GetClosestN :: "'h \<Rightarrow> bytes \<Rightarrow> nat \<Rightarrow> string list option"
  cn_FindPartitionID :: "'h \<Rightarrow> bytes \<Rightarrow> nat"
  cn_GetPartitionOwner :: "'h \<Rightarrow> nat \<Rightarrow> string option"
  cn_GetClosestNForPartition :: "'h \<Rightarrow> nat \<Rightarrow> nat \<Rightarrow> string list option"

section \<open>The ring\<close>

definition partitionCount :: nat where
  "partitionCount = 271"

datatype Member = Member (mb_ID: string) (mb_Addr: string)

definition zero_Member :: Member where
  "zero_Member = Member [] []"

record 'h Ring =
  rg_hash :: 'h
  rg_members :: "(string \<times> Member) list"
  rg_rebuildPanics :: u64

definition New :: "'h consistent \<Rightarrow> 'h Ring" where
  "New lib = \<lparr>rg_hash = cn_Empty lib, rg_members = [], rg_rebuildPanics = 0\<rparr>"

definition rebuildHashLocked :: "'h consistent \<Rightarrow> (string list \<Rightarrow> string list) \<Rightarrow> 'h Ring \<Rightarrow> 'h Ring" where
  "rebuildHashLocked lib iter r =
     (if rg_members r = [] then r\<lparr>rg_hash := cn_Empty lib\<rparr>
      else case cn_New lib (iter (map (mb_ID \<circ> snd) (rg_members r))) of
          None \<Rightarrow> r\<lparr>rg_rebuildPanics := rg_rebuildPanics r + 1\<rparr>
        | Some h \<Rightarrow> r\<lparr>rg_hash := h\<rparr>)"

definition Add :: "'h consistent \<Rightarrow> (string list \<Rightarrow> string list) \<Rightarrow> Member \<Rightarrow> 'h Ring \<Rightarrow> 'h Ring" where
  "Add lib iter m r = rebuildHashLocked lib iter (r\<lparr>rg_members := AList.update (mb_ID m) m (rg_members r)\<rparr>)"

definition Remove :: "'h consistent \<Rightarrow> (string list \<Rightarrow> string list) \<Rightarrow> string \<Rightarrow> 'h Ring \<Rightarrow> 'h Ring" where
  "Remove lib iter i r =
     (if map_of (rg_members r) i = None then r
      else rebuildHashLocked lib iter (r\<lparr>rg_members := AList.delete i (rg_members r)\<rparr>))"

definition Members :: "'h Ring \<Rightarrow> Member list" where
  "Members r = sort_key mb_ID (map snd (rg_members r))"

definition Empty :: "'h Ring \<Rightarrow> bool" where
  "Empty r \<longleftrightarrow> length (rg_members r) = 0"

text \<open>The index expression \<^verbatim>\<open>r.members[id]\<close>: the zero member when absent.\<close>

definition member_at :: "'h Ring \<Rightarrow> string \<Rightarrow> Member" where
  "member_at r i = (case map_of (rg_members r) i of Some m \<Rightarrow> m | None \<Rightarrow> zero_Member)"

definition ShardKey :: "bytes \<Rightarrow> bytes" where
  "ShardKey key =
     (case dropWhile (\<lambda>b. b \<noteq> CHR ''{'') key of
        [] \<Rightarrow> key
      | _ # rest \<Rightarrow>
          (let tag = takeWhile (\<lambda>b. b \<noteq> CHR ''}'') rest
           in if length tag = length rest then key else if tag = [] then key else tag))"

definition LocateKey :: "'h consistent \<Rightarrow> 'h Ring \<Rightarrow> bytes \<Rightarrow> Member" where
  "LocateKey lib r key = member_at r (cn_LocateKey lib (rg_hash r) (ShardKey key))"

definition LocateKeyN :: "'h consistent \<Rightarrow> 'h Ring \<Rightarrow> bytes \<Rightarrow> int \<Rightarrow> Member list" where
  "LocateKeyN lib r key n =
     (if n \<le> 0 \<or> length (rg_members r) = 0 then []
      else
        (let want = min (nat n) (length (rg_members r))
         in case cn_GetClosestN lib (rg_hash r) (ShardKey key) want of
              None \<Rightarrow> []
            | Some raw \<Rightarrow> map (member_at r) raw))"

definition PartitionID :: "'h consistent \<Rightarrow> 'h Ring \<Rightarrow> bytes \<Rightarrow> u64" where
  "PartitionID lib r key = of_nat (cn_FindPartitionID lib (rg_hash r) (ShardKey key))"

definition Partitions :: "u64 list" where
  "Partitions = map of_nat [0..<partitionCount]"

definition Owner :: "'h consistent \<Rightarrow> 'h Ring \<Rightarrow> u64 \<Rightarrow> Member" where
  "Owner lib r partitionID =
     (if length (rg_members r) = 0 then zero_Member
      else if partitionID \<ge> of_nat partitionCount then zero_Member
      else case cn_GetPartitionOwner lib (rg_hash r) (unat partitionID) of
          None \<Rightarrow> zero_Member
        | Some i \<Rightarrow> member_at r i)"

definition ReplicasForPartition :: "'h consistent \<Rightarrow> 'h Ring \<Rightarrow> u64 \<Rightarrow> int \<Rightarrow> Member list" where
  "ReplicasForPartition lib r partitionID n =
     (if n \<le> 0 \<or> length (rg_members r) = 0 then []
      else if partitionID \<ge> of_nat partitionCount then []
      else
        (let want = min (nat n) (length (rg_members r))
         in case cn_GetClosestNForPartition lib (rg_hash r) (unat partitionID) want of
              None \<Rightarrow> []
            | Some raw \<Rightarrow> map (member_at r) raw))"

section \<open>The ring input of a unit (placement.go)\<close>

definition GenUnitBytes :: "GenUnit \<Rightarrow> bytes" where
  "GenUnitBytes gu = put_u64 (gu_Gen gu) @ put_u32 (gu_ID gu)"

section \<open>Sequences of membership changes\<close>

datatype ring_op = RAdd Member | RRemove string

fun ring_step :: "'h consistent \<Rightarrow> (string list \<Rightarrow> string list) \<Rightarrow> ring_op \<Rightarrow> 'h Ring \<Rightarrow> 'h Ring" where
  "ring_step lib iter (RAdd m) r = Add lib iter m r"
| "ring_step lib iter (RRemove i) r = Remove lib iter i r"

definition ring_run :: "'h consistent \<Rightarrow> (string list \<Rightarrow> string list) \<Rightarrow> ring_op list \<Rightarrow> 'h Ring" where
  "ring_run lib iter ops = fold (ring_step lib iter) ops (New lib)"

text \<open>The documented behaviour of the library the theorems name: a build from a non-empty member list
  succeeds and depends on the members only, not on their order; the closest-\<open>n\<close> lookup returns \<open>n\<close>
  distinct members, the owner of the key first, whenever there are that many.\<close>

definition lib_total :: "'h consistent \<Rightarrow> bool" where
  "lib_total lib \<longleftrightarrow> (\<forall>xs. xs \<noteq> [] \<longrightarrow> cn_New lib xs \<noteq> None)"

definition lib_order_free :: "'h consistent \<Rightarrow> bool" where
  "lib_order_free lib \<longleftrightarrow> (\<forall>xs ys. mset xs = mset ys \<longrightarrow> cn_New lib xs = cn_New lib ys)"

definition lib_closest :: "'h consistent \<Rightarrow> bool" where
  "lib_closest lib \<longleftrightarrow>
     (\<forall>xs h k n. cn_New lib xs = Some h \<longrightarrow> distinct xs \<longrightarrow> 0 < n \<longrightarrow> n \<le> length xs \<longrightarrow>
        (\<exists>raw. cn_GetClosestN lib h k n = Some raw \<and> length raw = n \<and> distinct raw \<and> set raw \<subseteq> set xs \<and>
               hd raw = cn_LocateKey lib h k))"

text \<open>A runtime's iteration order is a permutation.\<close>

definition iter_perm :: "(string list \<Rightarrow> string list) \<Rightarrow> bool" where
  "iter_perm iter \<longleftrightarrow> (\<forall>xs. mset (iter xs) = mset xs)"

text \<open>The invariant of a ring after any changes: every member is stored under its own id, once, and the
  hash is the one built from exactly the current ids.\<close>

definition ring_ok :: "'h consistent \<Rightarrow> 'h Ring \<Rightarrow> bool" where
  "ring_ok lib r \<longleftrightarrow>
     distinct (map fst (rg_members r)) \<and> (\<forall>(i, m)\<in>set (rg_members r). mb_ID m = i) \<and>
     (if rg_members r = [] then rg_hash r = cn_Empty lib
      else \<exists>xs. mset xs = mset (map fst (rg_members r)) \<and> cn_New lib xs = Some (rg_hash r))"

section \<open>Lemmas\<close>

lemma ids_map: "\<forall>(i, m)\<in>set ms. mb_ID m = i \<Longrightarrow> map (mb_ID \<circ> snd) ms = map fst ms"
  by (induction ms) auto

lemma ring_ok_rebuild:
  assumes "lib_total lib" "iter_perm iter" "distinct (map fst (rg_members r))" "\<forall>(i, m)\<in>set (rg_members r). mb_ID m = i"
  shows "ring_ok lib (rebuildHashLocked lib iter r)"
proof (cases "rg_members r = []")
  case True
  with assms show ?thesis by (simp add: ring_ok_def rebuildHashLocked_def)
next
  case False
  let ?xs = "iter (map fst (rg_members r))"
  have m: "mset ?xs = mset (map fst (rg_members r))" using assms(2) by (simp add: iter_perm_def)
  with False have "?xs \<noteq> []" by auto
  with assms(1) obtain h where h: "cn_New lib ?xs = Some h" by (auto simp: lib_total_def)
  have "rebuildHashLocked lib iter r = r\<lparr>rg_hash := h\<rparr>"
    using False h by (simp add: rebuildHashLocked_def ids_map [OF assms(4)])
  with assms False m h show ?thesis by (auto simp: ring_ok_def)
qed

lemma ring_ok_step:
  assumes "lib_total lib" "iter_perm iter" "ring_ok lib r"
  shows "ring_ok lib (ring_step lib iter c r)"
proof (cases c)
  case (RAdd m)
  let ?r = "r\<lparr>rg_members := AList.update (mb_ID m) m (rg_members r)\<rparr>"
  have "distinct (map fst (rg_members ?r))" using assms(3) by (simp add: ring_ok_def distinct_update)
  moreover have "\<forall>(i, x)\<in>set (rg_members ?r). mb_ID x = i"
    using assms(3) set_alist_update [of "mb_ID m" m "rg_members r"] by (auto simp: ring_ok_def)
  ultimately show ?thesis using RAdd ring_ok_rebuild [OF assms(1,2)] by (simp add: Add_def)
next
  case (RRemove i)
  let ?r = "r\<lparr>rg_members := AList.delete i (rg_members r)\<rparr>"
  have "distinct (map fst (rg_members ?r))" using assms(3) by (simp add: ring_ok_def distinct_delete)
  moreover have "\<forall>(i, x)\<in>set (rg_members ?r). mb_ID x = i"
    using assms(3) by (auto simp: ring_ok_def set_alist_delete)
  ultimately show ?thesis using RRemove assms(3) ring_ok_rebuild [OF assms(1,2)] by (simp add: Remove_def)
qed

lemma ring_ok_run: "lib_total lib \<Longrightarrow> iter_perm iter \<Longrightarrow> ring_ok lib (ring_run lib iter ops)"
proof -
  assume a: "lib_total lib" "iter_perm iter"
  have "ring_ok lib (fold (ring_step lib iter) ops r)" if "ring_ok lib r" for r
    using that by (induction ops arbitrary: r) (simp_all add: ring_ok_step [OF a])
  moreover have "ring_ok lib (New lib)" by (simp add: ring_ok_def New_def)
  ultimately show ?thesis by (simp add: ring_run_def)
qed

lemma ring_ok_member_at:
  "ring_ok lib r \<Longrightarrow> i \<in> set (map fst (rg_members r)) \<Longrightarrow>
     mb_ID (member_at r i) = i \<and> map_of (rg_members r) i = Some (member_at r i)"
  by (force simp: ring_ok_def member_at_def dest: map_of_SomeD split: option.splits)

text \<open>A key's replicas are the right number of distinct live members, primary first. After any sequence
  of additions and removals, \<^verbatim>\<open>LocateKeyN\<close> returns exactly \<open>min n\<close> of the membership's size, pairwise
  distinct ids, each the current record (with its current address) of a member of the ring, and
  the first one is what \<^verbatim>\<open>LocateKey\<close> returns. (Hypotheses: the library builds without panicking and
  its closest-\<open>n\<close> lookup behaves as documented.)\<close>

theorem ring_replicas_wellformed:
  assumes "lib_total lib" "lib_closest lib" "iter_perm iter" "0 < n" "\<not> Empty (ring_run lib iter ops)"
  shows "let r = ring_run lib iter ops; ms = LocateKeyN lib r key n in
    length ms = min (nat n) (length (rg_members r)) \<and> distinct (map mb_ID ms) \<and>
    (\<forall>m\<in>set ms. map_of (rg_members r) (mb_ID m) = Some m) \<and> hd ms = LocateKey lib r key"
proof -
  let ?r = "ring_run lib iter ops"
  have ok: "ring_ok lib ?r" using assms(1,3) by (rule ring_ok_run)
  have ne: "rg_members ?r \<noteq> []" using assms(5) by (simp add: Empty_def)
  with ok obtain xs where xs: "mset xs = mset (map fst (rg_members ?r))" "cn_New lib xs = Some (rg_hash ?r)"
    by (auto simp: ring_ok_def)
  let ?w = "min (nat n) (length (rg_members ?r))"
  have "set xs = set (map fst (rg_members ?r))" using xs(1) by (rule mset_eq_setD)
  moreover have "length xs = length (rg_members ?r)" using mset_eq_length [OF xs(1)] by simp
  moreover have "distinct xs" using mset_eq_imp_distinct_iff [OF xs(1)] ok by (simp add: ring_ok_def)
  moreover have "0 < ?w" using ne assms(4) by simp
  ultimately obtain raw where raw: "cn_GetClosestN lib (rg_hash ?r) (ShardKey key) ?w = Some raw"
    "length raw = ?w" "distinct raw" "set raw \<subseteq> set (map fst (rg_members ?r))"
    "hd raw = cn_LocateKey lib (rg_hash ?r) (ShardKey key)"
    using assms(2) xs(2) unfolding lib_closest_def by (metis min.cobounded2)
  have L: "LocateKeyN lib ?r key n = map (member_at ?r) raw"
    using assms(4) ne raw(1) by (simp add: LocateKeyN_def Let_def)
  have at: "mb_ID (member_at ?r i) = i \<and> map_of (rg_members ?r) i = Some (member_at ?r i)" if "i \<in> set raw" for i
    using ring_ok_member_at [OF ok] raw(4) that by blast
  have "map mb_ID (map (member_at ?r) raw) = raw" using at by (simp add: map_idI)
  moreover have "hd (map (member_at ?r) raw) = LocateKey lib ?r key"
    using raw(2,5) \<open>0 < ?w\<close> by (cases raw) (simp_all add: LocateKey_def)
  ultimately show ?thesis using raw(2,3) at unfolding Let_def L by auto
qed

text \<open>A library that keeps the documented promises: sorted ids, closest first in that order.\<close>

definition demo_lib :: "string list consistent" where
  "demo_lib = \<lparr>cn_Empty = [], cn_New = (\<lambda>xs. Some (sort xs)), cn_LocateKey = (\<lambda>h _. hd h),
     cn_GetClosestN = (\<lambda>h _ n. Some (take n h)), cn_FindPartitionID = (\<lambda>_ _. 0),
     cn_GetPartitionOwner = (\<lambda>h _. Some (hd h)), cn_GetClosestNForPartition = (\<lambda>h _ n. Some (take n h))\<rparr>"

lemma demo_lib_ok: "lib_total demo_lib" "lib_closest demo_lib" "lib_order_free demo_lib"
proof -
  show "lib_closest demo_lib"
    by (auto simp: lib_closest_def demo_lib_def hd_take dest: in_set_takeD)
qed (simp_all add: lib_total_def lib_order_free_def demo_lib_def properties_for_sort)

lemma ring_ok_agree:
  assumes "lib_order_free lib" "ring_ok lib a" "ring_ok lib b" "map_of (rg_members a) = map_of (rg_members b)"
  shows "LocateKeyN lib a key n = LocateKeyN lib b key n" "LocateKey lib a key = LocateKey lib b key" "Empty a = Empty b"
proof -
  from assms(2,3) have d: "distinct (map fst (rg_members a))" "distinct (map fst (rg_members b))"
    by (simp_all add: ring_ok_def)
  have "set (map fst (rg_members a)) = set (map fst (rg_members b))"
    using assms(4) by (metis dom_map_of_conv_image_fst set_map)
  with d have m: "mset (map fst (rg_members a)) = mset (map fst (rg_members b))"
    by (simp only: set_eq_iff_mset_eq_distinct)
  then have len: "length (rg_members a) = length (rg_members b)" by (metis length_map mset_eq_length)
  have at: "member_at a = member_at b" using assms(4) by (auto simp: member_at_def)
  have h: "rg_hash a = rg_hash b"
  proof (cases "rg_members a = []")
    case True
    then have "rg_members b = []" using len by simp
    with True assms(2,3) show ?thesis by (simp add: ring_ok_def)
  next
    case False
    then have "rg_members b \<noteq> []" using len by auto
    with False assms(2,3) obtain xs ys where "mset xs = mset (map fst (rg_members a))" "cn_New lib xs = Some (rg_hash a)"
      "mset ys = mset (map fst (rg_members b))" "cn_New lib ys = Some (rg_hash b)"
      unfolding ring_ok_def by (auto split: if_splits)
    with m assms(1) show ?thesis unfolding lib_order_free_def by (metis option.inject)
  qed
  show "LocateKeyN lib a key n = LocateKeyN lib b key n" "LocateKey lib a key = LocateKey lib b key" "Empty a = Empty b"
    unfolding LocateKeyN_def LocateKey_def Empty_def at h len by simp_all
qed

text \<open>Nodes with the same membership place every key alike, whatever their histories. Two rings
  reached by different sequences of additions and removals, on runtimes that range over maps in
  different orders, but ending with the same members, answer every \<^verbatim>\<open>LocateKeyN\<close> and \<^verbatim>\<open>LocateKey\<close> query
  alike. (Hypotheses: the library builds without panicking, and independently of member order.)\<close>

theorem ring_agreement:
  assumes "lib_total lib" "lib_order_free lib" "iter_perm iter1" "iter_perm iter2"
    and "map_of (rg_members (ring_run lib iter1 ops1)) = map_of (rg_members (ring_run lib iter2 ops2))"
  shows "LocateKeyN lib (ring_run lib iter1 ops1) key n = LocateKeyN lib (ring_run lib iter2 ops2) key n \<and>
    LocateKey lib (ring_run lib iter1 ops1) key = LocateKey lib (ring_run lib iter2 ops2) key"
  using ring_ok_agree [OF assms(2) ring_ok_run [OF assms(1,3)] ring_ok_run [OF assms(1,4)] assms(5)] by blast

lemma ShardKey_cases:
  obtains (whole) "ShardKey key = key"
  | (tagged) pre tag post where "key = pre @ CHR ''{'' # tag @ CHR ''}'' # post" "CHR ''{'' \<notin> set pre"
      "CHR ''}'' \<notin> set tag" "tag \<noteq> []" "ShardKey key = tag"
proof (cases "dropWhile (\<lambda>b. b \<noteq> CHR ''{'') key")
  case Nil
  with whole show ?thesis by (simp add: ShardKey_def)
next
  case (Cons c rest)
  let ?tag = "takeWhile (\<lambda>b. b \<noteq> CHR ''}'') rest" and ?rest = "dropWhile (\<lambda>b. b \<noteq> CHR ''}'') rest"
  have c: "c = CHR ''{''" using hd_dropWhile [of "\<lambda>b. b \<noteq> CHR ''{''" key] Cons by simp
  have key: "key = takeWhile (\<lambda>b. b \<noteq> CHR ''{'') key @ CHR ''{'' # ?tag @ ?rest"
    using takeWhile_dropWhile_id [of "\<lambda>b. b \<noteq> CHR ''{''" key] Cons c by (metis takeWhile_dropWhile_id)
  show ?thesis
  proof (cases ?rest)
    case Nil
    then have "?tag = rest" using takeWhile_dropWhile_id [of "\<lambda>b. b \<noteq> CHR ''}''" rest] by simp
    with whole Cons show ?thesis by (simp add: ShardKey_def Let_def)
  next
    case (Cons d post)
    have d: "d = CHR ''}''" using hd_dropWhile [of "\<lambda>b. b \<noteq> CHR ''}''" rest] Cons by simp
    have "length ?tag + length ?rest = length rest"
      by (metis length_append takeWhile_dropWhile_id)
    then have "length ?tag \<noteq> length rest" using Cons by auto
    then have S: "ShardKey key = (if ?tag = [] then key else ?tag)"
      using \<open>dropWhile _ key = c # rest\<close> by (simp add: ShardKey_def Let_def)
    show ?thesis
    proof (cases "?tag = []")
      case True
      with whole S show ?thesis by simp
    next
      case False
      with tagged [of "takeWhile (\<lambda>b. b \<noteq> CHR ''{'') key" ?tag post] S key Cons d show ?thesis
        by (auto dest: set_takeWhileD)
    qed
  qed
qed

lemma ShardKey_tag:
  assumes "CHR ''{'' \<notin> set pre" "CHR ''}'' \<notin> set tag" "tag \<noteq> []"
  shows "ShardKey (pre @ CHR ''{'' # tag @ CHR ''}'' # post) = tag"
proof -
  have "dropWhile (\<lambda>b. b \<noteq> CHR ''{'') (pre @ CHR ''{'' # tag @ CHR ''}'' # post) = CHR ''{'' # tag @ CHR ''}'' # post"
    using assms(1) by (subst dropWhile_append2) auto
  moreover have "takeWhile (\<lambda>b. b \<noteq> CHR ''}'') (tag @ CHR ''}'' # post) = tag"
    using assms(2) by (subst takeWhile_append2) auto
  ultimately show ?thesis using assms(3) by (simp add: ShardKey_def Let_def)
qed

text \<open>The hash-tag rule. The shard key of a key is the text between its first opening brace and the first
  closing brace after it when that text is not empty, and in every other case the whole key; it is
  never empty unless the key is. So two keys with the same tag are located alike on every ring,
  whatever surrounds the tag.\<close>

theorem hash_tag_colocates:
  "(ShardKey key = key \<or>
    (\<exists>pre tag post. key = pre @ CHR ''{'' # tag @ CHR ''}'' # post \<and> CHR ''{'' \<notin> set pre \<and>
       CHR ''}'' \<notin> set tag \<and> tag \<noteq> [] \<and> ShardKey key = tag)) \<and>
   (CHR ''{'' \<notin> set pre1 \<and> CHR ''{'' \<notin> set pre2 \<and> CHR ''}'' \<notin> set t \<and> t \<noteq> [] \<longrightarrow>
    LocateKeyN lib r (pre1 @ CHR ''{'' # t @ CHR ''}'' # post1) n = LocateKeyN lib r (pre2 @ CHR ''{'' # t @ CHR ''}'' # post2) n)"
proof (intro conjI impI)
  show "ShardKey key = key \<or> (\<exists>pre tag post. key = pre @ CHR ''{'' # tag @ CHR ''}'' # post \<and> CHR ''{'' \<notin> set pre \<and>
       CHR ''}'' \<notin> set tag \<and> tag \<noteq> [] \<and> ShardKey key = tag)"
    by (rule ShardKey_cases [of key]) blast+
  assume "CHR ''{'' \<notin> set pre1 \<and> CHR ''{'' \<notin> set pre2 \<and> CHR ''}'' \<notin> set t \<and> t \<noteq> []"
  then show "LocateKeyN lib r (pre1 @ CHR ''{'' # t @ CHR ''}'' # post1) n = LocateKeyN lib r (pre2 @ CHR ''{'' # t @ CHR ''}'' # post2) n"
    by (simp add: LocateKeyN_def ShardKey_tag)
qed

text \<open>The ring input of a unit is not always passed through whole: a generation whose last byte is an opening
  brace, with a unit id holding a closing one, contains a hash tag.\<close>

lemma gen_unit_bytes_tag: "ShardKey (GenUnitBytes (GenUnit 123 125)) = [CHR 0x00, CHR 0x00, CHR 0x00]"
  by code_simp

end
