(* ===== verification/Retry_Wait.thy ===== *)
theory Retry_Wait
  imports Complex_Main Prelude
begin

text \<open>
  The wait between two attempts of a retry loop (\<^verbatim>\<open>pkg/cluster/retry_wait.go\<close>): its three shapes, the
  budget check and the clamp. Durations are 64-bit signed nanoseconds, written as integers with the
  wrap-around of \<^verbatim>\<open>*\<close> spelled out; a point in time is an integer, and the zero \<^verbatim>\<open>time.Time\<close> of a schedule without a
  deadline is \<open>None\<close>. The jitter factor of a wait is an argument, an exact rational in place of a \<^verbatim>\<open>float64\<close>.
\<close>

section \<open>Durations\<close>

definition int64 :: "int \<Rightarrow> int" where
  "int64 x = (x + 2 ^ 63) mod 2 ^ 64 - 2 ^ 63"

lemma int64_id: "- (2 ^ 63) \<le> x \<Longrightarrow> x < 2 ^ 63 \<Longrightarrow> int64 x = x"
  by (simp add: int64_def)

text \<open>\<^verbatim>\<open>time.Until\<close> saturates.\<close>

definition time_until :: "int \<Rightarrow> int \<Rightarrow> int" where
  "time_until deadline now = max (- (2 ^ 63)) (min (2 ^ 63 - 1) (deadline - now))"

definition millisecond :: int where
  "millisecond = 1000000"

section \<open>The schedule\<close>

datatype retryWaitResult = RetryWaitProceed | RetryWaitExhausted | RetryWaitCanceled

record retryWait =
  rw_next :: int
  rw_max :: int
  rw_deadline :: "int option"
  rw_capTerminates :: bool
  rw_jitter :: bool

definition newBudgetRetryWait :: "int \<Rightarrow> int \<Rightarrow> int \<Rightarrow> retryWait" where
  "newBudgetRetryWait base maxInterval deadline =
     \<lparr>rw_next = base, rw_max = maxInterval, rw_deadline = Some deadline, rw_capTerminates = False, rw_jitter = True\<rparr>"

definition newCappedRetryWait :: "int \<Rightarrow> int \<Rightarrow> retryWait" where
  "newCappedRetryWait base maxInterval =
     \<lparr>rw_next = base, rw_max = maxInterval, rw_deadline = None, rw_capTerminates = True, rw_jitter = True\<rparr>"

definition newConstantRetryWait :: "int \<Rightarrow> retryWait" where
  "newConstantRetryWait d =
     \<lparr>rw_next = d, rw_max = d, rw_deadline = None, rw_capTerminates = False, rw_jitter = False\<rparr>"

definition rw_interval :: "retryWait \<Rightarrow> int" where
  "rw_interval w = rw_next w"

definition rw_exhausted :: "int \<Rightarrow> retryWait \<Rightarrow> bool" where
  "rw_exhausted now w =
     (if rw_capTerminates w then rw_next w > rw_max w
      else case rw_deadline w of None \<Rightarrow> False | Some d \<Rightarrow> time_until d now \<le> 0)"

definition jitteredBackoff :: "rat \<Rightarrow> int \<Rightarrow> int" where
  "jitteredBackoff u d = (if d \<le> 0 then 0 else \<lfloor>of_int d * (1 / 2 + u * (1 / 2))\<rfloor>)"

definition rw_advance :: "retryWait \<Rightarrow> retryWait" where
  "rw_advance w =
     (let next = int64 (rw_next w * 2)
      in w\<lparr>rw_next := (if \<not> rw_capTerminates w \<and> next > rw_max w then rw_max w else next)\<rparr>)"

text \<open>How long a wait that is not exhausted sleeps, and the wait itself: \<open>cancel\<close> tells whether the cancel channel
  fires before the timer (never, for a nil channel). The number is the time slept when the timer fired.\<close>

definition rw_sleep :: "rat \<Rightarrow> int \<Rightarrow> retryWait \<Rightarrow> int" where
  "rw_sleep u now w =
     (let sleep = (if rw_jitter w then jitteredBackoff u (rw_next w) else rw_next w)
      in case rw_deadline w of
           None \<Rightarrow> sleep
         | Some d \<Rightarrow> let remaining = time_until d now in if sleep > remaining then remaining else sleep)"

definition rw_wait :: "rat \<Rightarrow> int \<Rightarrow> bool \<Rightarrow> retryWait \<Rightarrow> retryWaitResult \<times> int \<times> retryWait" where
  "rw_wait u now cancel w =
     (if rw_exhausted now w then (RetryWaitExhausted, 0, w)
      else if cancel then (RetryWaitCanceled, 0, w)
      else (RetryWaitProceed, rw_sleep u now w, rw_advance w))"

section \<open>Jitter and sleep\<close>

lemma jitter_bounds:
  assumes "0 \<le> u" "u < 1"
  shows "0 \<le> jitteredBackoff u d \<and> jitteredBackoff u d \<le> max 0 d \<and> d div 2 \<le> jitteredBackoff u d"
proof (cases "d \<le> 0")
  case False
  define f :: rat where "f = 1 / 2 + u * (1 / 2)"
  have f: "1 / 2 \<le> f" "f \<le> 1" using assms by (simp_all add: f_def)
  have d: "(0::rat) < of_int d" using False by simp
  from f have hi: "of_int d * f \<le> (of_int d :: rat)" using d by (simp add: mult_left_le)
  have "of_int d * (1 / 2) \<le> of_int d * f" using f(1) d by (simp add: mult_left_mono)
  then have lo: "of_int (d div 2) \<le> of_int d * f"
  proof -
    have "2 * (d div 2) \<le> d" by simp
    then have "of_int (2 * (d div 2)) \<le> (of_int d :: rat)" by (rule of_int_le_iff [THEN iffD2])
    with \<open>of_int d * (1 / 2) \<le> of_int d * f\<close> show ?thesis by simp
  qed
  have "jitteredBackoff u d = \<lfloor>of_int d * f\<rfloor>" using False by (simp add: jitteredBackoff_def f_def)
  moreover have "d div 2 \<le> \<lfloor>of_int d * f\<rfloor>" using lo by (simp add: le_floor_iff)
  moreover have "\<lfloor>of_int d * f\<rfloor> \<le> d" using floor_mono [OF hi] by simp
  ultimately show ?thesis using False by (smt (verit) pos_imp_zdiv_nonneg_iff)
qed (simp add: jitteredBackoff_def)

section \<open>The budgeted schedule\<close>

lemma advance_fields [simp]:
  "rw_max (rw_advance w) = rw_max w" "rw_deadline (rw_advance w) = rw_deadline w"
  "rw_capTerminates (rw_advance w) = rw_capTerminates w" "rw_jitter (rw_advance w) = rw_jitter w"
  by (simp_all add: rw_advance_def Let_def)

lemma advance_next:
  "rw_next (rw_advance w) =
     (if \<not> rw_capTerminates w \<and> int64 (rw_next w * 2) > rw_max w then rw_max w else int64 (rw_next w * 2))"
  by (simp add: rw_advance_def Let_def)

lemma advances_fields [simp]:
  "rw_max ((rw_advance ^^ k) w) = rw_max w" "rw_deadline ((rw_advance ^^ k) w) = rw_deadline w"
  "rw_capTerminates ((rw_advance ^^ k) w) = rw_capTerminates w" "rw_jitter ((rw_advance ^^ k) w) = rw_jitter w"
  by (induction k) simp_all

lemma budget_interval:
  assumes "0 < base" "base < 2 ^ 62" "0 < m" "m < 2 ^ 62"
  shows "rw_next ((rw_advance ^^ k) (newBudgetRetryWait base m dl)) = (if k = 0 then base else min (base * 2 ^ k) m)"
proof (induction k)
  case (Suc k)
  let ?n = "rw_next ((rw_advance ^^ k) (newBudgetRetryWait base m dl))"
  have n: "0 < ?n" "?n < 2 ^ 62" using Suc assms by auto
  then have "int64 (?n * 2) = ?n * 2" by (intro int64_id) auto
  then have "rw_next ((rw_advance ^^ Suc k) (newBudgetRetryWait base m dl)) = min (?n * 2) m"
    by (simp add: rw_advance_def Let_def newBudgetRetryWait_def)
  also have "\<dots> = min (base * 2 ^ Suc k) m" using Suc assms by (auto simp: min_def)
  finally show ?case by simp
qed (simp add: newBudgetRetryWait_def)

text \<open>A budgeted schedule stays inside its budget: the wait after the k-th interval is refused exactly when the
  deadline has passed, without sleeping; otherwise it sleeps a non-negative time that ends no later than the
  deadline and is at most the interval, which starts at the base, doubles and is clamped at the cap.\<close>

theorem budget_never_overslept:
  assumes "0 < base" "base < 2 ^ 62" "0 < m" "m < 2 ^ 62" "0 \<le> u" "u < 1"
    and "w = (rw_advance ^^ k) (newBudgetRetryWait base m dl)" "rw_wait u now False w = (r, slept, w')"
  shows "(r = RetryWaitExhausted \<longleftrightarrow> dl \<le> now) \<and> r \<noteq> RetryWaitCanceled \<and> 0 \<le> slept \<and> (now < dl \<longrightarrow> now + slept \<le> dl) \<and>
    slept \<le> rw_interval w \<and> rw_interval w = (if k = 0 then base else min (base * 2 ^ k) m) \<and>
    (r = RetryWaitExhausted \<longrightarrow> slept = 0 \<and> w' = w) \<and> (r = RetryWaitProceed \<longrightarrow> w' = rw_advance w)"
proof -
  have i: "rw_interval w = (if k = 0 then base else min (base * 2 ^ k) m)"
    unfolding rw_interval_def assms(7) by (rule budget_interval [OF assms(1-4)])
  then have "0 < rw_next w" using assms(1,3) by (auto simp: rw_interval_def)
  moreover have f: "rw_deadline w = Some dl" "\<not> rw_capTerminates w" "rw_jitter w"
    using assms(7) by (simp_all add: newBudgetRetryWait_def)
  moreover have "rw_exhausted now w \<longleftrightarrow> dl \<le> now"
    using f by (simp add: rw_exhausted_def time_until_def) (simp add: max_def min_def)
  moreover have "0 \<le> rw_sleep u now w \<and> now + rw_sleep u now w \<le> dl \<and> rw_sleep u now w \<le> rw_next w" if "now < dl"
  proof -
    have "0 < time_until dl now" "now + time_until dl now \<le> dl" using that by (simp_all add: time_until_def max_def min_def)
    then show ?thesis
      using f jitter_bounds [OF assms(5,6), of "rw_next w"] \<open>0 < rw_next w\<close> by (simp add: rw_sleep_def Let_def max_def)
  qed
  ultimately show ?thesis using assms(8) i by (auto simp: rw_wait_def rw_interval_def split: if_splits)
qed

section \<open>The capped schedule\<close>

lemma capped_interval:
  assumes "0 < base" "base * 2 ^ k < 2 ^ 63"
  shows "rw_next ((rw_advance ^^ k) (newCappedRetryWait base m)) = base * 2 ^ k"
  using assms(2)
proof (induction k)
  case (Suc k)
  have "0 \<le> base * 2 ^ k" using assms(1) by simp
  with Suc.prems have "base * 2 ^ k < 2 ^ 63" "- (2 ^ 63) \<le> base * 2 ^ k * 2" by simp_all
  moreover from this(2) have "int64 (base * 2 ^ k * 2) = base * 2 ^ k * 2" using Suc.prems by (intro int64_id) auto
  moreover have "rw_capTerminates ((rw_advance ^^ k) (newCappedRetryWait base m))" by (simp add: newCappedRetryWait_def)
  ultimately show ?case using Suc.IH by (simp add: advance_next)
qed (simp add: newCappedRetryWait_def)

lemma capped_exhausted: "rw_capTerminates w \<Longrightarrow> rw_exhausted now w \<longleftrightarrow> rw_next w > rw_max w"
  by (simp add: rw_exhausted_def)

end
