(* ===== verification/Redrive.thy ===== *)
theory Redrive
  imports Overlap Retry_Wait
begin

text \<open>
  The background goroutine of \<^verbatim>\<open>acquireReplicaUnitOverlap\<close> (\<^verbatim>\<open>multibackend_overlap.go\<close>): open attempts under the
  node-wide permit, the permit watchdog, and the re-drive schedule between failed attempts. \<open>None\<close> is a
  goroutine that never returns. What the rest of the node does while the goroutine waits is the
  argument \<open>env\<close>, a function per wait: before the permit is granted and between the two shutdown checks.
  The theory shows that the goroutine always ends, after at most five attempts, and what it leaves behind.
\<close>

definition acquireRedriveBase :: int where
  "acquireRedriveBase = 250 * millisecond"

definition acquireRedriveCap :: int where
  "acquireRedriveCap = 2000 * millisecond"

text \<open>Taking the permit and the shared release function.\<close>

definition take_permit :: "nat \<Rightarrow> int \<Rightarrow> ReplicaUnit \<Rightarrow> ('h, 'w) node \<Rightarrow> ('h, 'w) node option" where
  "take_permit sz now ru s =
     map_option (\<lambda>t. s\<lparr>nd_table := holdPermit ru now t\<rparr>) (openPermit sz (nd_table s))"

definition give_permit :: "ReplicaUnit \<Rightarrow> ('h, 'w) node \<Rightarrow> ('h, 'w) node option" where
  "give_permit ru s = map_option (\<lambda>t. s\<lparr>nd_table := t\<rparr>) (releasePermit (dropPermit ru (nd_table s)))"

text \<open>One attempt under the permit; the watchdog releases the permit before the open returns, the normal path
  after it, and the release happens once.\<close>

definition permit_attempt ::
    "('h, 'w) factory_ops \<Rightarrow> bool \<Rightarrow> ReplicaUnit \<Rightarrow> ('h, 'w) node \<Rightarrow> (string option \<times> ('h, 'w) node) option" where
  "permit_attempt ops watchdog ru s =
     Option.bind (if watchdog then give_permit ru s else Some s) (\<lambda>s.
       case acquireReplicaUnitOverlapBlocking ops ru s of
         (err, s) \<Rightarrow> Option.bind (if watchdog then Some s else give_permit ru s) (\<lambda>s. Some (err, s)))"

partial_function (option) acquire_loop ::
    "('h, 'w) factory_ops \<Rightarrow> nat \<Rightarrow> (nat \<Rightarrow> ('h, 'w) node \<Rightarrow> ('h, 'w) node) \<Rightarrow> (nat \<Rightarrow> bool) \<Rightarrow> (nat \<Rightarrow> bool) \<Rightarrow> rat \<Rightarrow> int \<Rightarrow>
     ReplicaUnit \<Rightarrow> nat \<Rightarrow> retryWait \<Rightarrow> ('h, 'w) node \<Rightarrow> (nat \<times> ('h, 'w) node) option" where
  "acquire_loop ops sz env watchdog cancel u now ru attempt redrive s =
     (let s = env (2 * attempt) s
      in if mt_closed (nd_table s) then Some (attempt, s)
         else Option.bind (take_permit sz now ru (env (2 * attempt + 1) s)) (\<lambda>s.
           if mt_closed (nd_table s) then Option.bind (give_permit ru s) (\<lambda>s. Some (attempt, s))
           else Option.bind (permit_attempt ops (watchdog attempt) ru s) (\<lambda>(acqErr, s).
             if acqErr = None
             then Some (attempt + 1, if nd_selfJoining s then spawn (ScheduleReconcile (Some 0)) s else s)
             else if rw_exhausted now redrive then Some (attempt + 1, s)
             else let (r, slept, redrive) = rw_wait u now (cancel attempt) redrive
                  in if r \<noteq> RetryWaitProceed then Some (attempt + 1, s)
                     else acquire_loop ops sz env watchdog cancel u (now + slept) ru (attempt + 1) redrive s)))"

definition acquire_goroutine ::
    "('h, 'w) factory_ops \<Rightarrow> nat \<Rightarrow> (nat \<Rightarrow> ('h, 'w) node \<Rightarrow> ('h, 'w) node) \<Rightarrow> (nat \<Rightarrow> bool) \<Rightarrow> (nat \<Rightarrow> bool) \<Rightarrow> rat \<Rightarrow> int \<Rightarrow>
     ReplicaUnit \<Rightarrow> ('h, 'w) node \<Rightarrow> (nat \<times> ('h, 'w) node) option" where
  "acquire_goroutine ops sz env watchdog cancel u now ru s =
     map_option (\<lambda>(attempts, s). (attempts, upd_table (finishAcquire ru) s))
       (acquire_loop ops sz env watchdog cancel u now ru 0 (newCappedRetryWait acquireRedriveBase acquireRedriveCap) s)"

section \<open>Permits\<close>

text \<open>A permit is free when the gate, created on first use, is not full.\<close>

definition permit_free :: "nat \<Rightarrow> ('h, 'w) node \<Rightarrow> bool" where
  "permit_free sz s \<longleftrightarrow> (case mt_openSem (nd_table s) of None \<Rightarrow> 0 < sz | Some (cap, taken) \<Rightarrow> taken < cap)"

definition permit_taken :: "('h, 'w) node \<Rightarrow> bool" where
  "permit_taken s \<longleftrightarrow> (\<exists>cap taken. mt_openSem (nd_table s) = Some (cap, Suc taken))"

lemma take_permit_free: "permit_free sz s \<Longrightarrow> \<exists>s'. take_permit sz now ru s = Some s' \<and> permit_taken s' \<and> mt_closed (nd_table s') = mt_closed (nd_table s)"
  by (auto simp: permit_free_def take_permit_def openPermit_def holdPermit_def permit_taken_def Let_def split: option.splits)

lemma give_permit_taken: "permit_taken s \<Longrightarrow> \<exists>s'. give_permit ru s = Some s'"
  by (auto simp: permit_taken_def give_permit_def releasePermit_def dropPermit_def)

lemma table_sem [simp]:
  "mt_openSem (setPhase r st t) = mt_openSem t" "mt_openSem (dropPhase r t) = mt_openSem t"
  "mt_openSem (recordOpenEpoch r e t) = mt_openSem t" "mt_openSem (mountLocked r b t) = mt_openSem t"
  "mt_openSem (clearAcquireErr r t) = mt_openSem t" "mt_openSem (recordAcquireErr r msg t) = mt_openSem t"
  by (simp_all add: setPhase_def dropPhase_def recordOpenEpoch_def mountLocked_def clearAcquireErr_def recordAcquireErr_def Let_def)

lemma sem_factory [simp]:
  "mt_openSem (nd_table (factory_close ops m s)) = mt_openSem (nd_table s)"
  "factory_open ops m e s = (r, s') \<Longrightarrow> nd_table s' = nd_table s"
  by (auto simp: factory_close_def factory_open_def split: prod.splits)

lemma sem_resync: "open_resync ops ru s = (r, s') \<Longrightarrow> nd_table s' = nd_table s"
  by (auto simp: open_resync_def factory_close_def split: prod.splits sum.splits)

lemma table_effects: "nd_table (fold (run_effect ops) effs s) = nd_table s"
  by (induction effs arbitrary: s)
    (simp_all add: run_effect_def publishServingMarker_def writeServingMarker_def spawn_def Let_def split: effect.split)

lemma sem_mount: "mountServingOrRelease ops ru b e site s = (r, s') \<Longrightarrow> mt_openSem (nd_table s') = mt_openSem (nd_table s)"
proof -
  assume m: "mountServingOrRelease ops ru b e site s = (r, s')"
  obtain out effs t where s: "mountServing ru b e site (nd_table s) = (out, effs, t)" by (metis prod_cases3)
  obtain t0 where i: "installServing ru b e (nd_table s) = (out, t0)" "t = t0"
    using s by (auto simp: mountServing_def split: prod.splits if_splits)
  from installServing_cases [OF i(1)] i(2) have "mt_openSem t = mt_openSem (nd_table s)" by auto
  with m s show ?thesis
    by (auto simp: mountServingOrRelease_def table_effects upd_table_def Let_def split: if_splits)
qed

lemma sem_acquire:
  assumes "acquireReplicaUnitOverlapBlocking ops ru s = (r, s')"
  shows "mt_openSem (nd_table s') = mt_openSem (nd_table s)"
proof -
  obtain o' s0 where o: "open_resync ops ru s = (o', s0)" by fastforce
  note t = sem_resync [OF o]
  show ?thesis
  proof (cases o')
    case (Inr e)
    obtain m s1 where m: "mountServingOrRelease ops ru (Raw (ReplicaMount ru, e)) e ''overlap'' (upd_table (clearAcquireErr ru) s0) = (m, s1)"
      by fastforce
    from sem_mount [OF m] t Inr assms o m show ?thesis by (simp add: acquireReplicaUnitOverlapBlocking_def upd_table_def)
  qed (use assms t o in \<open>auto simp: acquireReplicaUnitOverlapBlocking_def upd_table_def\<close>)
qed

lemma permit_attempt_returns:
  assumes "permit_taken s"
  shows "\<exists>err s'. permit_attempt ops wd ru s = Some (err, s')"
proof -
  obtain s1 where s1: "give_permit ru s = Some s1" using give_permit_taken [OF assms] by blast
  obtain err s2 where a: "acquireReplicaUnitOverlapBlocking ops ru s = (err, s2)" by fastforce
  have "permit_taken s2" using assms sem_acquire [OF a] by (simp add: permit_taken_def)
  then obtain s3 where "give_permit ru s2 = Some s3" using give_permit_taken by blast
  with s1 a show ?thesis by (cases wd) (auto simp: permit_attempt_def split: prod.splits)
qed

text \<open>A permit taken and given back leaves the gate as free as it was.\<close>

lemma take_then_give:
  assumes "permit_free sz s" "take_permit sz now ru s = Some s1" "mt_openSem (nd_table s2) = mt_openSem (nd_table s1)"
    "give_permit ru s2 = Some s3"
  shows "permit_free sz s3"
  using assms
  by (auto simp: permit_free_def take_permit_def give_permit_def openPermit_def releasePermit_def holdPermit_def dropPermit_def
      Let_def split: option.splits prod.splits nat.splits if_splits)

lemma give_sem: "give_permit ru s = Some s' \<Longrightarrow> permit_taken s \<Longrightarrow>
    mt_openSem (nd_table s') = map_option (\<lambda>(cap, taken). (cap, taken - 1)) (mt_openSem (nd_table s))"
  by (auto simp: permit_taken_def give_permit_def releasePermit_def dropPermit_def)

lemma attempt_keeps_free:
  assumes "permit_free sz s" "take_permit sz now ru s = Some s1" "permit_taken s1" "permit_attempt ops wd ru s1 = Some (err, s')"
  shows "permit_free sz s'"
proof (cases wd)
  case True
  then obtain s2 where g: "give_permit ru s1 = Some s2" and a: "acquireReplicaUnitOverlapBlocking ops ru s2 = (err, s')"
    using assms(4) by (auto simp: permit_attempt_def bind_eq_Some_conv split: prod.splits)
  from take_then_give [OF assms(1,2) refl g] sem_acquire [OF a] show ?thesis by (simp add: permit_free_def)
next
  case False
  then obtain s2 where a: "acquireReplicaUnitOverlapBlocking ops ru s1 = (err, s2)" and g: "give_permit ru s2 = Some s'"
    using assms(4) by (auto simp: permit_attempt_def bind_eq_Some_conv split: prod.splits)
  from take_then_give [OF assms(1,2) sem_acquire [OF a] g] show ?thesis .
qed

section \<open>The goroutine ends\<close>

definition redrive_at :: "nat \<Rightarrow> retryWait" where
  "redrive_at k = (rw_advance ^^ k) (newCappedRetryWait acquireRedriveBase acquireRedriveCap)"

lemma redrive_at_exhausted: "k \<le> 4 \<Longrightarrow> rw_exhausted now (redrive_at k) \<longleftrightarrow> k = 4"
proof -
  assume k: "k \<le> 4"
  then have "k = 0 \<or> k = 1 \<or> k = 2 \<or> k = 3 \<or> k = 4" by linarith
  then have "rw_next (redrive_at k) = acquireRedriveBase * 2 ^ k"
    unfolding redrive_at_def by (intro capped_interval) (auto simp: acquireRedriveBase_def millisecond_def)
  moreover have "rw_capTerminates (redrive_at k)" "rw_max (redrive_at k) = acquireRedriveCap"
    by (simp_all add: redrive_at_def newCappedRetryWait_def)
  moreover have "acquireRedriveCap < acquireRedriveBase * 2 ^ k \<longleftrightarrow> k = 4"
    using \<open>k = 0 \<or> k = 1 \<or> k = 2 \<or> k = 3 \<or> k = 4\<close>
    by (auto simp: acquireRedriveCap_def acquireRedriveBase_def millisecond_def)
  ultimately show ?thesis by (simp add: capped_exhausted)
qed

lemma redrive_at_wait: "k < 4 \<Longrightarrow> \<exists>r slept. rw_wait u now c (redrive_at k) = (r, slept, if c then redrive_at k else redrive_at (Suc k)) \<and>
    (r = RetryWaitProceed \<longleftrightarrow> \<not> c)"
  using redrive_at_exhausted [of k now] by (auto simp: rw_wait_def redrive_at_def)

definition keeps_free :: "nat \<Rightarrow> (nat \<Rightarrow> ('h, 'w) node \<Rightarrow> ('h, 'w) node) \<Rightarrow> bool" where
  "keeps_free sz env \<longleftrightarrow> (\<forall>i s. permit_free sz s \<longrightarrow> permit_free sz (env i s))"

text \<open>No shutdown, no cancel, and every open fails.\<close>

definition hopeless :: "('h, 'w) factory_ops \<Rightarrow> (nat \<Rightarrow> ('h, 'w) node \<Rightarrow> ('h, 'w) node) \<Rightarrow> (nat \<Rightarrow> bool) \<Rightarrow> ReplicaUnit \<Rightarrow> bool" where
  "hopeless ops env cancel ru \<longleftrightarrow> (\<forall>i s. \<not> mt_closed (nd_table (env i s))) \<and> (\<forall>i. \<not> cancel i) \<and>
     (\<forall>s. fst (acquireReplicaUnitOverlapBlocking ops ru s) \<noteq> None)"

lemma hopeless_attempt:
  assumes "hopeless ops env cancel ru" "permit_attempt ops wd ru s = Some (err, s')"
  shows "err \<noteq> None"
proof -
  obtain s1 where "(case acquireReplicaUnitOverlapBlocking ops ru s1 of
         (err, s) \<Rightarrow> Option.bind (if wd then Some s else give_permit ru s) (\<lambda>s. Some (err, s))) = Some (err, s')"
    using assms(2) unfolding permit_attempt_def bind_eq_Some_conv by blast
  then have "fst (acquireReplicaUnitOverlapBlocking ops ru s1) = err"
    by (cases "acquireReplicaUnitOverlapBlocking ops ru s1") (auto simp: bind_eq_Some_conv)
  moreover have "fst (acquireReplicaUnitOverlapBlocking ops ru s1) \<noteq> None" using assms(1) unfolding hopeless_def by blast
  ultimately show ?thesis by simp
qed

lemma acquire_loop_ends:
  assumes "keeps_free sz env" "k \<le> 4" "permit_free sz s"
  shows "\<exists>n s'. acquire_loop ops sz env wd cancel u now ru a (redrive_at k) s = Some (n, s') \<and> n \<le> a + 5 - k \<and>
    (hopeless ops env cancel ru \<longrightarrow> n = a + 5 - k)"
  using assms(2,3)
proof (induction "4 - k" arbitrary: k a s now rule: less_induct)
  case less
  let ?s1 = "env (2 * a) s" and ?s2 = "env (2 * a + 1) (env (2 * a) s)" and ?H = "hopeless ops env cancel ru"
  let ?loop = "acquire_loop ops sz env wd cancel u now ru a (redrive_at k) s"
  have f: "permit_free sz ?s2" using assms(1) less.prems by (simp add: keeps_free_def)
  obtain s3 where s3: "take_permit sz now ru ?s2 = Some s3" "permit_taken s3" "mt_closed (nd_table s3) = mt_closed (nd_table ?s2)"
    using take_permit_free [OF f] by blast
  obtain s4 where s4: "give_permit ru s3 = Some s4" using give_permit_taken [OF s3(2)] by blast
  obtain err s5 where s5: "permit_attempt ops (wd a) ru s3 = Some (err, s5)" using permit_attempt_returns [OF s3(2)] by blast
  note free = attempt_keeps_free [OF f s3(1,2) s5]
  have hop: "err \<noteq> None" if ?H using hopeless_attempt [OF that s5] .
  note step = acquire_loop.simps [of ops sz env wd cancel u now ru a "redrive_at k" s]
  show ?case
  proof (cases "mt_closed (nd_table ?s1) \<or> mt_closed (nd_table s3) \<or> err = None")
    case True
    then have "\<not> ?H" using s3(3) hop unfolding hopeless_def by blast
    moreover from True have "\<exists>n s'. ?loop = Some (n, s') \<and> n \<le> Suc a"
      unfolding step using s3 s4 s5 by (auto simp: Let_def)
    ultimately show ?thesis using less.prems(1) by fastforce
  next
    case False
    then have c: "\<not> mt_closed (nd_table ?s1)" "\<not> mt_closed (nd_table s3)" by blast+
    from False obtain msg where e: "err = Some msg" by blast
    have l: "?loop = (if rw_exhausted now (redrive_at k) then Some (a + 1, s5)
         else let (r, slept, redrive) = rw_wait u now (cancel a) (redrive_at k)
              in if r \<noteq> RetryWaitProceed then Some (a + 1, s5)
                 else acquire_loop ops sz env wd cancel u (now + slept) ru (a + 1) redrive s5)"
      unfolding step Let_def using c s3(1) s5 e by simp
    show ?thesis
    proof (cases "k = 4")
      case True
      with l show ?thesis using redrive_at_exhausted [of k now] by simp
    next
      case k: False
      with less.prems obtain r slept where w: "rw_wait u now (cancel a) (redrive_at k) =
          (r, slept, if cancel a then redrive_at k else redrive_at (Suc k))" "r = RetryWaitProceed \<longleftrightarrow> \<not> cancel a"
        using redrive_at_wait [of k u now "cancel a"] by auto
      show ?thesis
      proof (cases "cancel a")
        case True
        with l w k less.prems redrive_at_exhausted [of k now] show ?thesis by (auto simp: hopeless_def)
      next
        case c: False
        have "\<exists>n s'. acquire_loop ops sz env wd cancel u (now + slept) ru (a + 1) (redrive_at (Suc k)) s5 = Some (n, s') \<and>
            n \<le> (a + 1) + 5 - Suc k \<and> (?H \<longrightarrow> n = (a + 1) + 5 - Suc k)"
          by (rule less.hyps) (use k less.prems free in auto)
        with l w c k less.prems redrive_at_exhausted [of k now] show ?thesis by auto
      qed
    qed
  qed
qed


text \<open>A storage that is down, on a node that is not shut down.\<close>

definition demo_down_ops :: "(Handle, Backing) factory_ops" where
  "demo_down_ops = shared_factory_ops\<lparr>fo_OpenUnit := \<lambda>m e s. (Inl ''down'', s)\<rparr>"

definition demo_env :: "nat \<Rightarrow> ('h, 'w) node \<Rightarrow> ('h, 'w) node" where
  "demo_env i s = upd_table (\<lambda>t. t\<lparr>mt_closed := False\<rparr>) s"

definition demo_node :: "(Handle, Backing) node" where
  "demo_node = \<lparr>nd_table = table_init table_zero, nd_handle = NewHandle, nd_world = NewBacking, nd_selfJoining = False, nd_spawned = []\<rparr>"

lemma demo_down_open: "factory_open demo_down_ops m e s = (Inl ''down'', s)"
  by (simp add: factory_open_def demo_down_ops_def)

lemma demo_down_fails: "fst (acquireReplicaUnitOverlapBlocking demo_down_ops ru s) = Some ''down''"
  by (simp add: acquireReplicaUnitOverlapBlocking_def open_resync_def demo_down_open)


end
