(* ===== verification/Unit_Stores.thy ===== *)
theory Unit_Stores
  imports Shared_Factory
begin

text \<open>
  Many stores in one world: what a client of several open units relies on. Each unit has its own operations, but they all act on
  one storage world, as the handles of the shared backing do (\<^verbatim>\<open>src/internal/sharedfactory/sharedfactory.go\<close>). The
  locale states plain reads, writes and scans of one unit together with the frame: nothing else changes.
\<close>

locale unit_stores =
  fixes ops :: "'u \<Rightarrow> ('w, 't) backend_ops" and kv :: "'u \<Rightarrow> 'w \<Rightarrow> bytes \<rightharpoonup> bytes" and ok :: "'w \<Rightarrow> bool"
  assumes put_ok: "ok w \<Longrightarrow> bo_Put (ops u) k v w = (None, w') \<Longrightarrow>
      ok w' \<and> (\<forall>u'. kv u' w' = (if u' = u then (kv u w)(k \<mapsto> v) else kv u' w))"
    and put_error: "ok w \<Longrightarrow> bo_Put (ops u) k v w = (Some e, w') \<Longrightarrow> ok w' \<and> (\<forall>u'. kv u' w' = kv u' w)"
    and delete_ok: "ok w \<Longrightarrow> bo_Delete (ops u) k w = (None, w') \<Longrightarrow>
      ok w' \<and> (\<forall>u'. kv u' w' = (if u' = u then (kv u w)(k := None) else kv u' w))"
    and delete_error: "ok w \<Longrightarrow> bo_Delete (ops u) k w = (Some e, w') \<Longrightarrow> ok w' \<and> (\<forall>u'. kv u' w' = kv u' w)"
    and get_found: "ok w \<Longrightarrow> bo_Get (ops u) k w = Inr v \<Longrightarrow> kv u w k = Some v"
    and get_absent: "ok w \<Longrightarrow> bo_Get (ops u) k w = Inl ErrNotFound \<Longrightarrow> kv u w k = None"
    and scan_ok: "ok w \<Longrightarrow> bo_ScanPrefix (ops u) pre w = Inr xs \<Longrightarrow>
      distinct (map fst xs) \<and> (\<forall>k. map_of xs k = (if HasPrefix k pre then kv u w k else None))"

section \<open>The shared backing keeps it\<close>

lemma Memory_Put_abs: "mem_ok m \<Longrightarrow> Memory_Put k v m = (r, m') \<Longrightarrow> r = None \<and> mem_ok m' \<and> mem_abs m' = (mem_abs m)(k \<mapsto> v)"
  by (auto simp: Memory_Put_def mem_ok_def mem_abs_def update_conv' distinct_update)

lemma Memory_Delete_abs: "mem_ok m \<Longrightarrow> Memory_Delete k m = (r, m') \<Longrightarrow> r = None \<and> mem_ok m' \<and> mem_abs m' = (mem_abs m)(k := None)"
  by (auto simp: Memory_Delete_def mem_ok_def mem_abs_def delete_conv' distinct_delete)

lemma Memory_Scan_abs:
  assumes "mem_ok m" "Memory_ScanPrefix pre m = Inr xs"
  shows "distinct (map fst xs) \<and> (\<forall>k. map_of xs k = (if HasPrefix k pre then mem_abs m k else None))"
proof -
  have d: "distinct (map fst (filter (\<lambda>(k, v). HasPrefix k pre) (me_data m)))"
    using assms(1) by (simp add: mem_ok_def distinct_filter_key)
  have "xs = sort_key fst (filter (\<lambda>(k, v). HasPrefix k pre) (me_data m))"
    using assms by (simp add: Memory_ScanPrefix_def mem_ok_def)
  with sort_key_fst [OF d] show ?thesis by (simp add: map_of_filter_key mem_abs_def)
qed

lemma Memory_Get_abs:
  "mem_ok m \<Longrightarrow> Memory_Get k m = Inr v \<Longrightarrow> mem_abs m k = Some v"
  "mem_ok m \<Longrightarrow> Memory_Get k m = Inl ErrNotFound \<Longrightarrow> mem_abs m k = None"
  by (auto simp: Memory_Get_def mem_ok_def mem_abs_def split: option.splits)

lemmas memory_abs = Memory_Put_abs Memory_Delete_abs

text \<open>What the fenced write of one store does to all of them.\<close>

lemma core_Put_abs:
  assumes "\<And>u. mem_ok (store_at stores u)" "core_Put epochs u e k v stores = (r, stores')"
  shows "mem_ok (store_at stores' u')"
    and "mem_abs (store_at stores' u') = (if r = None \<and> u' = u then (mem_abs (store_at stores u))(k \<mapsto> v) else mem_abs (store_at stores u'))"
  using assms(2) assms(1) [of u] assms(1) [of u'] Memory_Put_abs [of "store_at stores u" k v]
  by (auto simp: core_Put_def store_at_def split: if_splits prod.splits)

lemma core_Delete_abs:
  assumes "\<And>u. mem_ok (store_at stores u)" "core_Delete epochs u e k stores = (r, stores')"
  shows "mem_ok (store_at stores' u')"
    and "mem_abs (store_at stores' u') = (if r = None \<and> u' = u then (mem_abs (store_at stores u))(k := None) else mem_abs (store_at stores u'))"
  using assms(2) assms(1) [of u] assms(1) [of u'] Memory_Delete_abs [of "store_at stores u" k]
  by (auto simp: core_Delete_def store_at_def split: if_splits prod.splits)

definition sole_kv :: "GenUnit \<Rightarrow> Backing \<Rightarrow> bytes \<rightharpoonup> bytes" where
  "sole_kv gu b = mem_abs (store_at (bk_stores b) gu)"

definition sole_ok :: "Backing \<Rightarrow> bool" where
  "sole_ok b \<longleftrightarrow> (\<forall>gu. mem_ok (store_at (bk_stores b) gu))"

definition replica_kv :: "ReplicaUnit \<Rightarrow> Backing \<Rightarrow> bytes \<rightharpoonup> bytes" where
  "replica_kv ru b = mem_abs (store_at (bk_replicaStores b) ru)"

definition replica_ok :: "Backing \<Rightarrow> bool" where
  "replica_ok b \<longleftrightarrow> (\<forall>ru. mem_ok (store_at (bk_replicaStores b) ru))"

interpretation sole_units: unit_stores "\<lambda>gu. fenced_sole_ops gu (epochs gu)" sole_kv sole_ok for epochs
proof unfold_locales
  fix w u k v w' e pre xs
  assume ok: "sole_ok w"
  note okD = ok [unfolded sole_ok_def, rule_format]
  show "sole_ok w' \<and> (\<forall>u'. sole_kv u' w' = (if u' = u then (sole_kv u w)(k \<mapsto> v) else sole_kv u' w))"
    if "bo_Put (fenced_sole_ops u (epochs u)) k v w = (None, w')"
    using that core_Put_abs [OF okD, of "bk_epochs w" u "epochs u" k v]
    by (auto simp: fenced_sole_ops_def sole_ok_def sole_kv_def split: prod.splits)
  show "sole_ok w' \<and> (\<forall>u'. sole_kv u' w' = sole_kv u' w)"
    if "bo_Put (fenced_sole_ops u (epochs u)) k v w = (Some e, w')"
    using that core_Put_abs [OF okD, of "bk_epochs w" u "epochs u" k v]
    by (auto simp: fenced_sole_ops_def sole_ok_def sole_kv_def split: prod.splits)
  show "sole_ok w' \<and> (\<forall>u'. sole_kv u' w' = (if u' = u then (sole_kv u w)(k := None) else sole_kv u' w))"
    if "bo_Delete (fenced_sole_ops u (epochs u)) k w = (None, w')"
    using that core_Delete_abs [OF okD, of "bk_epochs w" u "epochs u" k]
    by (auto simp: fenced_sole_ops_def sole_ok_def sole_kv_def split: prod.splits)
  show "sole_ok w' \<and> (\<forall>u'. sole_kv u' w' = sole_kv u' w)"
    if "bo_Delete (fenced_sole_ops u (epochs u)) k w = (Some e, w')"
    using that core_Delete_abs [OF okD, of "bk_epochs w" u "epochs u" k]
    by (auto simp: fenced_sole_ops_def sole_ok_def sole_kv_def split: prod.splits)
  show "sole_kv u w k = Some v" if "bo_Get (fenced_sole_ops u (epochs u)) k w = Inr v"
    using that Memory_Get_abs(1) [OF okD] by (simp add: fenced_sole_ops_def sole_kv_def)
  show "sole_kv u w k = None" if "bo_Get (fenced_sole_ops u (epochs u)) k w = Inl ErrNotFound"
    using that Memory_Get_abs(2) [OF okD] by (simp add: fenced_sole_ops_def sole_kv_def)
  show "distinct (map fst xs) \<and> (\<forall>k. map_of xs k = (if HasPrefix k pre then sole_kv u w k else None))"
    if "bo_ScanPrefix (fenced_sole_ops u (epochs u)) pre w = Inr xs"
    using that Memory_Scan_abs [OF okD] by (simp add: fenced_sole_ops_def sole_kv_def)
qed

interpretation replica_units: unit_stores "\<lambda>ru. fenced_replica_ops ru (epochs ru)" replica_kv replica_ok for epochs
proof unfold_locales
  fix w u k v w' e pre xs
  assume ok: "replica_ok w"
  note okD = ok [unfolded replica_ok_def, rule_format]
  show "replica_ok w' \<and> (\<forall>u'. replica_kv u' w' = (if u' = u then (replica_kv u w)(k \<mapsto> v) else replica_kv u' w))"
    if "bo_Put (fenced_replica_ops u (epochs u)) k v w = (None, w')"
    using that core_Put_abs [OF okD, of "bk_replicaEpochs w" u "epochs u" k v]
    by (auto simp: fenced_replica_ops_def replica_ok_def replica_kv_def split: prod.splits)
  show "replica_ok w' \<and> (\<forall>u'. replica_kv u' w' = replica_kv u' w)"
    if "bo_Put (fenced_replica_ops u (epochs u)) k v w = (Some e, w')"
    using that core_Put_abs [OF okD, of "bk_replicaEpochs w" u "epochs u" k v]
    by (auto simp: fenced_replica_ops_def replica_ok_def replica_kv_def split: prod.splits)
  show "replica_ok w' \<and> (\<forall>u'. replica_kv u' w' = (if u' = u then (replica_kv u w)(k := None) else replica_kv u' w))"
    if "bo_Delete (fenced_replica_ops u (epochs u)) k w = (None, w')"
    using that core_Delete_abs [OF okD, of "bk_replicaEpochs w" u "epochs u" k]
    by (auto simp: fenced_replica_ops_def replica_ok_def replica_kv_def split: prod.splits)
  show "replica_ok w' \<and> (\<forall>u'. replica_kv u' w' = replica_kv u' w)"
    if "bo_Delete (fenced_replica_ops u (epochs u)) k w = (Some e, w')"
    using that core_Delete_abs [OF okD, of "bk_replicaEpochs w" u "epochs u" k]
    by (auto simp: fenced_replica_ops_def replica_ok_def replica_kv_def split: prod.splits)
  show "replica_kv u w k = Some v" if "bo_Get (fenced_replica_ops u (epochs u)) k w = Inr v"
    using that Memory_Get_abs(1) [OF okD] by (simp add: fenced_replica_ops_def replica_kv_def split: if_splits)
  show "replica_kv u w k = None" if "bo_Get (fenced_replica_ops u (epochs u)) k w = Inl ErrNotFound"
    using that Memory_Get_abs(2) [OF okD] by (simp add: fenced_replica_ops_def replica_kv_def split: if_splits)
  show "distinct (map fst xs) \<and> (\<forall>k. map_of xs k = (if HasPrefix k pre then replica_kv u w k else None))"
    if "bo_ScanPrefix (fenced_replica_ops u (epochs u)) pre w = Inr xs"
    using that Memory_Scan_abs [OF okD] by (simp add: fenced_replica_ops_def replica_kv_def split: if_splits)
qed

end
