(* ===== verification/Split_R1.thy ===== *)
theory Split_R1
  imports Gen_State Unit_Stores
begin

text \<open>
  The online split of a unit that is stored once. The durable markers (\<^verbatim>\<open>src/pkg/cluster/multibackend_reshard_marker.go\<close>),
  the copy and the clearing of children (\<^verbatim>\<open>multibackend_reshard.go\<close>), the bisect under the write pause
  (\<^verbatim>\<open>multibackend_reshard_r1.go\<close>, \<^verbatim>\<open>multibackend_reshard.go\<close>), and a step relation of a unit's owner with its writers,
  the copy, the cut-over, crashes and restarts.

  A unit's backend is \<open>ops u\<close>, its operations on the one storage world. A key's shard hash is \<open>hash key\<close>
  (\<^verbatim>\<open>HashShardKey(c.shardKey(key))\<close>).
\<close>

section \<open>Durable markers\<close>

definition cutoverMarkerKey :: "Generation \<Rightarrow> UnitID \<Rightarrow> string" where
  "cutoverMarkerKey gen k = ''__reshard/cutover/'' @ ''g'' @ format_uint (unat gen) @ ''/u'' @ format_uint (unat k)"

definition caughtupMarkerKey :: "Generation \<Rightarrow> UnitID \<Rightarrow> u8 \<Rightarrow> string" where
  "caughtupMarkerKey gen k slot =
     ''__reshard/caughtup/'' @ ''g'' @ format_uint (unat gen) @ ''/u'' @ format_uint (unat k) @ ''/r'' @ format_uint (unat slot)"

datatype marker_error = NoConditionalStore | MarkerStore cond_error

definition markerPresent :: "'s cond_ops option \<Rightarrow> string \<Rightarrow> 's \<Rightarrow> marker_error + bool" where
  "markerPresent cs key s =
     (case cs of
        None \<Rightarrow> Inr False
      | Some ops \<Rightarrow>
          (case co_Get ops key s of
             Inl e \<Rightarrow> if e = ErrCondNotFound then Inr False else Inl (MarkerStore e)
           | Inr _ \<Rightarrow> Inr True))"

definition publishMarker :: "'s cond_ops option \<Rightarrow> NodeID \<Rightarrow> string \<Rightarrow> 's \<Rightarrow> marker_error option \<times> 's" where
  "publishMarker cs self key s =
     (case cs of
        None \<Rightarrow> (Some NoConditionalStore, s)
      | Some ops \<Rightarrow>
          (case co_PutIfAbsent ops key self s of
             (Inl e, s) \<Rightarrow> (if e = ErrPrecondition then None else Some (MarkerStore e), s)
           | (Inr _, s) \<Rightarrow> (None, s)))"

definition publishCaughtupMarker ::
    "'s cond_ops option \<Rightarrow> NodeID \<Rightarrow> Generation \<Rightarrow> UnitID \<Rightarrow> u8 \<Rightarrow> 's \<Rightarrow> marker_error option \<times> 's" where
  "publishCaughtupMarker cs self gen k slot s = publishMarker cs self (caughtupMarkerKey gen k slot) s"

fun slots_caught_up :: "'s cond_ops option \<Rightarrow> Generation \<Rightarrow> UnitID \<Rightarrow> nat list \<Rightarrow> 's \<Rightarrow> marker_error + bool" where
  "slots_caught_up cs gen k [] s = Inr True"
| "slots_caught_up cs gen k (slot # slots) s =
     (case markerPresent cs (caughtupMarkerKey gen k (of_nat slot)) s of
        Inl e \<Rightarrow> Inl e
      | Inr present \<Rightarrow> if present then slots_caught_up cs gen k slots s else Inr False)"

definition allSlotsCaughtUp :: "'s cond_ops option \<Rightarrow> Generation \<Rightarrow> UnitID \<Rightarrow> int \<Rightarrow> 's \<Rightarrow> marker_error + bool" where
  "allSlotsCaughtUp cs gen k r s = slots_caught_up cs gen k [0..<nat r] s"

definition publishCutoverMarker ::
    "'s cond_ops option \<Rightarrow> NodeID \<Rightarrow> Generation \<Rightarrow> UnitID \<Rightarrow> 's \<Rightarrow> marker_error option \<times> 's" where
  "publishCutoverMarker cs self gen k s = publishMarker cs self (cutoverMarkerKey gen k) s"

definition cutoverMarkerPresent :: "'s cond_ops option \<Rightarrow> Generation \<Rightarrow> UnitID \<Rightarrow> 's \<Rightarrow> marker_error + bool" where
  "cutoverMarkerPresent cs gen k s = markerPresent cs (cutoverMarkerKey gen k) s"

section \<open>Copy and clear\<close>

datatype split_error =
    SplitUnit unit_error
  | SplitBackend backend_error
  | SplitMount string
  | ParentNotMounted
  | SplitMarker marker_error

fun copy_into ::
    "('w, 't) backend_ops \<Rightarrow> ('w, 't) backend_ops \<Rightarrow> (bytes \<Rightarrow> ShardHash) \<Rightarrow> UnitCount \<Rightarrow> UnitCount \<Rightarrow> kv_list \<Rightarrow> 'w \<Rightarrow>
     split_error option \<times> 'w" where
  "copy_into lowBE highBE hash oldCount newCount [] w = (None, w)"
| "copy_into lowBE highBE hash oldCount newCount ((key, value) # rest) w =
     (let h = hash key;
          child = UnitForHash h newCount;
          oldK = UnitForHash h oldCount
      in case ChildUnits oldK oldCount of
           Inl e \<Rightarrow> (Some (SplitUnit e), w)
         | Inr (lowChild, _) \<Rightarrow>
             (case bo_Put (if child = lowChild then lowBE else highBE) key value w of
                (Some e, w) \<Rightarrow> (Some (SplitBackend e), w)
              | (None, w) \<Rightarrow> copy_into lowBE highBE hash oldCount newCount rest w))"

definition copyUnitInto ::
    "('w, 't) backend_ops \<Rightarrow> ('w, 't) backend_ops \<Rightarrow> ('w, 't) backend_ops \<Rightarrow> (bytes \<Rightarrow> ShardHash) \<Rightarrow> UnitCount \<Rightarrow> UnitCount \<Rightarrow>
     'w \<Rightarrow> split_error option \<times> 'w" where
  "copyUnitInto src lowBE highBE hash oldCount newCount w =
     (case bo_ScanPrefix src [] w of
        Inl e \<Rightarrow> (Some (SplitBackend e), w)
      | Inr pairs \<Rightarrow> copy_into lowBE highBE hash oldCount newCount pairs w)"

fun delete_keys :: "('w, 't) backend_ops \<Rightarrow> bytes list \<Rightarrow> 'w \<Rightarrow> split_error option \<times> 'w" where
  "delete_keys b [] w = (None, w)"
| "delete_keys b (k # ks) w =
     (case bo_Delete b k w of
        (Some e, w) \<Rightarrow> (Some (SplitBackend e), w)
      | (None, w) \<Rightarrow> delete_keys b ks w)"

definition clearBackend :: "('w, 't) backend_ops \<Rightarrow> 'w \<Rightarrow> split_error option \<times> 'w" where
  "clearBackend b w =
     (case bo_ScanPrefix b [] w of
        Inl e \<Rightarrow> (Some (SplitBackend e), w)
      | Inr pairs \<Rightarrow> delete_keys b (map fst pairs) w)"

text \<open>The catch-up under the pause: both children are cleared, then filled.\<close>

definition catch_up ::
    "('w, 't) backend_ops \<Rightarrow> ('w, 't) backend_ops \<Rightarrow> ('w, 't) backend_ops \<Rightarrow> (bytes \<Rightarrow> ShardHash) \<Rightarrow> UnitCount \<Rightarrow> UnitCount \<Rightarrow>
     'w \<Rightarrow> split_error option \<times> 'w" where
  "catch_up src lowBE highBE hash oldCount newCount w =
     (case clearBackend lowBE w of
        (Some e, w) \<Rightarrow> (Some e, w)
      | (None, w) \<Rightarrow>
          (case clearBackend highBE w of
             (Some e, w) \<Rightarrow> (Some e, w)
           | (None, w) \<Rightarrow> copyUnitInto src lowBE highBE hash oldCount newCount w))"

section \<open>The bisect\<close>

text \<open>What \<^verbatim>\<open>bisectUnitOnlineR1\<close> does while it holds the pause of \<open>k\<close>: the catch-up (unless a test forces an unclean reshard), the
  durable marker, and then the flip of the current routing state \<open>cur\<close>.\<close>

definition cutover_locked ::
    "(GenUnit \<Rightarrow> ('w, 't) backend_ops) \<Rightarrow> 's cond_ops option \<Rightarrow> NodeID \<Rightarrow> bool \<Rightarrow> (bytes \<Rightarrow> ShardHash) \<Rightarrow> genState \<Rightarrow> UnitID \<Rightarrow>
     UnitID \<Rightarrow> UnitID \<Rightarrow> 'w \<Rightarrow> 's \<Rightarrow> genState \<Rightarrow> split_error option \<times> 'w \<times> 's \<times> genState" where
  "cutover_locked ops cs self unclean hash gs k low high w s cur =
     (let src = ops (NewGenUnit (gs_gen gs) k);
          lowBE = ops (NewGenUnit (gs_gen gs + 1) low);
          highBE = ops (NewGenUnit (gs_gen gs + 1) high)
      in case (if unclean then (None, w) else catch_up src lowBE highBE hash (gs_count gs) (gs_nextCount gs) w) of
           (Some e, w) \<Rightarrow> (Some e, w, s, cur)
         | (None, w) \<Rightarrow>
             (case publishCutoverMarker cs self (gs_gen gs) k s of
                (Some e, s) \<Rightarrow> (Some (SplitMarker e), w, s, cur)
              | (None, s) \<Rightarrow> (None, w, s, cut_over k cur)))"

text \<open>The whole bisect: \<open>mountChild\<close> is \<^verbatim>\<open>mountChildR1\<close>, \<open>parentMounted\<close> the lookup of the parent in the mount table, and \<open>env\<close> what
  the unit's writers do between the background copy and the moment the pause is held.\<close>

definition bisectUnitOnlineR1 ::
    "(GenUnit \<Rightarrow> ('w, 't) backend_ops) \<Rightarrow> 's cond_ops option \<Rightarrow> NodeID \<Rightarrow> bool \<Rightarrow> (bytes \<Rightarrow> ShardHash) \<Rightarrow>
     (GenUnit \<Rightarrow> 'w \<Rightarrow> string option \<times> 'w) \<Rightarrow> (GenUnit \<Rightarrow> bool) \<Rightarrow> ('w \<Rightarrow> 'w) \<Rightarrow> genState \<Rightarrow> UnitID \<Rightarrow> 'w \<Rightarrow> 's \<Rightarrow> genState \<Rightarrow>
     split_error option \<times> 'w \<times> 's \<times> genState" where
  "bisectUnitOnlineR1 ops cs self unclean hash mountChild parentMounted env gs k w s cur =
     (case ChildUnits k (gs_count gs) of
        Inl e \<Rightarrow> (Some (SplitUnit e), w, s, cur)
      | Inr (low, high) \<Rightarrow>
          (case mountChild (NewGenUnit (gs_gen gs + 1) low) w of
             (Some e, w) \<Rightarrow> (Some (SplitMount e), w, s, cur)
           | (None, w) \<Rightarrow>
               (case mountChild (NewGenUnit (gs_gen gs + 1) high) w of
                  (Some e, w) \<Rightarrow> (Some (SplitMount e), w, s, cur)
                | (None, w) \<Rightarrow>
                    if \<not> parentMounted (NewGenUnit (gs_gen gs) k) then (Some ParentNotMounted, w, s, cur)
                    else
                      (case (if unclean then (None, w)
                             else copyUnitInto (ops (NewGenUnit (gs_gen gs) k)) (ops (NewGenUnit (gs_gen gs + 1) low))
                                    (ops (NewGenUnit (gs_gen gs + 1) high)) hash (gs_count gs) (gs_nextCount gs) w) of
                         (Some e, w) \<Rightarrow> (Some e, w, s, cur)
                       | (None, w) \<Rightarrow> cutover_locked ops cs self unclean hash gs k low high (env w) s cur))))"

text \<open>\<^verbatim>\<open>driveR1SplitCopies\<close>: the mounted parents that have not flipped and whose marker is provably absent.\<close>

definition drive_R1_unit ::
    "'s cond_ops option \<Rightarrow> (UnitID \<Rightarrow> 'w \<Rightarrow> 's \<Rightarrow> genState \<Rightarrow> split_error option \<times> 'w \<times> 's \<times> genState) \<Rightarrow> genState \<Rightarrow> UnitID \<Rightarrow>
     'w \<times> 's \<times> genState \<Rightarrow> 'w \<times> 's \<times> genState" where
  "drive_R1_unit cs bisect gs k st =
     (case st of (w, s, cur) \<Rightarrow>
        if hasCutOver gs k then (w, s, cur)
        else case cutoverMarkerPresent cs (gs_gen gs) k s of
            Inl _ \<Rightarrow> (w, s, cur)
          | Inr present \<Rightarrow> if present then (w, s, cur) else snd (bisect k w s cur))"

definition driveR1SplitCopies ::
    "'s cond_ops option \<Rightarrow> (UnitID \<Rightarrow> 'w \<Rightarrow> 's \<Rightarrow> genState \<Rightarrow> split_error option \<times> 'w \<times> 's \<times> genState) \<Rightarrow> genState \<Rightarrow> ReplicaUnit list \<Rightarrow>
     'w \<times> 's \<times> genState \<Rightarrow> 'w \<times> 's \<times> genState" where
  "driveR1SplitCopies cs bisect gs parents st = fold (\<lambda>ru. drive_R1_unit cs bisect gs (gu_ID (ru_Unit ru))) parents st"

text \<open>The inline bisect of a single node without a conditional store (\<^verbatim>\<open>bisectUnit\<close>): no marker, and the old unit is retired at
  once. \<open>openUnit\<close> and \<open>closeUnit\<close> are the factory on sole mounts.\<close>

definition bisectUnit ::
    "(GenUnit \<Rightarrow> ('w, 't) backend_ops) \<Rightarrow> (bytes \<Rightarrow> ShardHash) \<Rightarrow> (GenUnit \<Rightarrow> 'w \<Rightarrow> string option \<times> 'w) \<Rightarrow> (GenUnit \<Rightarrow> 'w \<Rightarrow> 'w) \<Rightarrow>
     (GenUnit \<Rightarrow> bool) \<Rightarrow> ('w \<Rightarrow> 'w) \<Rightarrow> Generation \<Rightarrow> UnitID \<Rightarrow> UnitCount \<Rightarrow> UnitCount \<Rightarrow> 'w \<Rightarrow> genState \<Rightarrow>
     split_error option \<times> 'w \<times> genState" where
  "bisectUnit ops hash openUnit closeUnit parentMounted env gen k oldCount newCount w cur =
     (case ChildUnits k oldCount of
        Inl e \<Rightarrow> (Some (SplitUnit e), w, cur)
      | Inr (low, high) \<Rightarrow>
          (let oldGU = NewGenUnit gen k; lowGU = NewGenUnit (gen + 1) low; highGU = NewGenUnit (gen + 1) high
           in case openUnit lowGU w of
                (Some e, w) \<Rightarrow> (Some (SplitMount e), w, cur)
              | (None, w) \<Rightarrow>
                  (case openUnit highGU w of
                     (Some e, w) \<Rightarrow> (Some (SplitMount e), closeUnit lowGU w, cur)
                   | (None, w) \<Rightarrow>
                       if \<not> parentMounted oldGU then (Some ParentNotMounted, w, cur)
                       else
                         (case copyUnitInto (ops oldGU) (ops lowGU) (ops highGU) hash oldCount newCount w of
                            (Some e, w) \<Rightarrow> (Some e, w, cur)
                          | (None, w) \<Rightarrow>
                              (case catch_up (ops oldGU) (ops lowGU) (ops highGU) hash oldCount newCount (env w) of
                                 (Some e, w) \<Rightarrow> (Some e, w, cur)
                               | (None, w) \<Rightarrow> (None, closeUnit oldGU w, cut_over k cur))))))"

section \<open>A catch-up leaves an exact image\<close>

text \<open>A unit's child that a key belongs to after the split.\<close>

definition child_of :: "genState \<Rightarrow> (bytes \<Rightarrow> ShardHash) \<Rightarrow> bytes \<Rightarrow> GenUnit" where
  "child_of gs hash key = NewGenUnit (gs_gen gs + 1) (UnitForHash (hash key) (gs_nextCount gs))"

context unit_stores
begin

lemma delete_keys_spec:
  assumes "ok w" "delete_keys (ops u) ks w = (r, w')"
  shows "ok w' \<and> (\<forall>u'. u' \<noteq> u \<longrightarrow> kv u' w' = kv u' w) \<and> (r = None \<longrightarrow> (\<forall>k. kv u w' k = (if k \<in> set ks then None else kv u w k)))"
  using assms
proof (induction ks arbitrary: w)
  case (Cons k ks)
  obtain e w1 where d: "bo_Delete (ops u) k w = (e, w1)" by fastforce
  show ?case
  proof (cases e)
    case None
    then have s: "ok w1" "\<forall>u'. kv u' w1 = (if u' = u then (kv u w)(k := None) else kv u' w)" using delete_ok d Cons.prems(1) by auto
    from Cons.IH [OF s(1)] Cons.prems(2) d None s(2) show ?thesis by auto
  next
    case (Some b)
    then show ?thesis using Cons.prems d delete_error [of w u k b w1] by auto
  qed
qed simp

lemma clearBackend_spec:
  assumes "ok w" "clearBackend (ops u) w = (r, w')"
  shows "ok w' \<and> (\<forall>u'. u' \<noteq> u \<longrightarrow> kv u' w' = kv u' w) \<and> (r = None \<longrightarrow> kv u w' = Map.empty)"
proof (cases "bo_ScanPrefix (ops u) [] w")
  case (Inr xs)
  with assms delete_keys_spec [of w u "map fst xs" r w'] scan_ok [of w u "[]" xs] show ?thesis
    by (auto simp: clearBackend_def HasPrefix_def fun_eq_iff map_of_eq_None_iff [symmetric])
qed (use assms in \<open>auto simp: clearBackend_def\<close>)

lemma copy_into_spec:
  assumes "ok w" "lo \<noteq> hi" "copy_into (ops lo) (ops hi) hash oldCount newCount xs w = (r, w')" "distinct (map fst xs)"
  defines "low k \<equiv> UnitForHash (hash k) newCount = UnitForHash (hash k) oldCount"
  shows "ok w' \<and> (\<forall>u'. u' \<noteq> lo \<longrightarrow> u' \<noteq> hi \<longrightarrow> kv u' w' = kv u' w) \<and>
    (r = None \<longrightarrow> (\<forall>k. kv lo w' k = (if low k \<and> k \<in> fst ` set xs then map_of xs k else kv lo w k) \<and>
                    kv hi w' k = (if \<not> low k \<and> k \<in> fst ` set xs then map_of xs k else kv hi w k)))"
  using assms(1,3,4)
proof (induction xs arbitrary: w)
  case (Cons x xs)
  obtain key v where x: "x = (key, v)" by fastforce
  show ?case
  proof (cases "ChildUnits (UnitForHash (hash key) oldCount) oldCount")
    case (Inl e)
    then show ?thesis using Cons.prems x by auto
  next
    case (Inr lh)
    then obtain h where lh: "lh = (UnitForHash (hash key) oldCount, h)" by (auto simp: ChildUnits_def split: if_splits sum.splits)
    define dst where "dst = (if low key then lo else hi)"
    obtain e w1 where p: "bo_Put (ops dst) key v w = (e, w1)" by fastforce
    have step: "(case e of None \<Rightarrow> copy_into (ops lo) (ops hi) hash oldCount newCount xs w1 | Some e \<Rightarrow> (Some (SplitBackend e), w1)) = (r, w')"
      using Cons.prems(2) Inr lh p by (auto simp: x Let_def dst_def low_def split: option.split if_splits)
    show ?thesis
    proof (cases e)
      case None
      then have s: "ok w1" "\<forall>u'. kv u' w1 = (if u' = dst then (kv dst w)(key \<mapsto> v) else kv u' w)" using put_ok p Cons.prems(1) by auto
      have ih: "copy_into (ops lo) (ops hi) hash oldCount newCount xs w1 = (r, w')" "distinct (map fst xs)" "key \<notin> fst ` set xs"
        using step None Cons.prems(3) x by auto
      show ?thesis using Cons.IH [OF s(1) ih(1,2)] s(2) ih(3) x assms(2) by (auto simp: dst_def split: if_splits)
    next
      case (Some b)
      then show ?thesis using step put_error [of w dst key v b w1] p Cons.prems(1) by auto
    qed
  qed
qed simp

lemma catch_up_spec:
  assumes "ok w" "lo \<noteq> hi" "src \<noteq> lo" "src \<noteq> hi" "catch_up (ops src) (ops lo) (ops hi) hash oldCount newCount w = (r, w')"
  shows "ok w' \<and> (\<forall>u'. u' \<noteq> lo \<longrightarrow> u' \<noteq> hi \<longrightarrow> kv u' w' = kv u' w) \<and>
    (r = None \<longrightarrow> (\<forall>k. kv (if UnitForHash (hash k) newCount = UnitForHash (hash k) oldCount then lo else hi) w' k = kv src w k))"
proof -
  obtain e1 w1 where c1: "clearBackend (ops lo) w = (e1, w1)" by fastforce
  obtain e2 w2 where c2: "clearBackend (ops hi) w1 = (e2, w2)" by fastforce
  note s1 = clearBackend_spec [OF assms(1) c1]
  from s1 have s2: "ok w2 \<and> (\<forall>u'. u' \<noteq> hi \<longrightarrow> kv u' w2 = kv u' w1) \<and> (e2 = None \<longrightarrow> kv hi w2 = Map.empty)"
    using clearBackend_spec [OF _ c2] by blast
  show ?thesis
  proof (cases "e1 = None \<and> e2 = None")
    case False
    then show ?thesis using assms(5) c1 c2 s1 s2 by (auto simp: catch_up_def split: option.splits)
  next
    case True
    then have r: "copyUnitInto (ops src) (ops lo) (ops hi) hash oldCount newCount w2 = (r, w')"
      using assms(5) c1 c2 by (simp add: catch_up_def)
    show ?thesis
    proof (cases "bo_ScanPrefix (ops src) [] w2")
      case (Inl e)
      then show ?thesis using r s1 s2 by (auto simp: copyUnitInto_def)
    next
      case (Inr xs)
      then have sc: "distinct (map fst xs)" "\<forall>k. map_of xs k = kv src w k"
        using scan_ok [of w2 src "[]" xs] s1 s2 assms(3,4) by (auto simp: HasPrefix_def)
      have "copy_into (ops lo) (ops hi) hash oldCount newCount xs w2 = (r, w')" using r Inr by (simp add: copyUnitInto_def)
      note c = copy_into_spec [OF _ assms(2) this sc(1)]
      have okw: "ok w2" "kv lo w2 = Map.empty" "kv hi w2 = Map.empty" using s1 s2 True assms(2) by auto
      have absent: "kv src w k = None" if "k \<notin> fst ` set xs" for k using sc(2) that by (metis map_of_eq_None_iff)
      have fr: "kv u' w' = kv u' w" if "u' \<noteq> lo" "u' \<noteq> hi" for u' using c [OF okw(1)] s1 s2 that by auto
      have im: "kv (if UnitForHash (hash k) newCount = UnitForHash (hash k) oldCount then lo else hi) w' k = kv src w k" if "r = None" for k
        using c [OF okw(1)] that okw(2,3) absent [of k] sc(2) by (cases "k \<in> fst ` set xs") auto
      show ?thesis using c [OF okw(1)] fr im by auto
    qed
  qed
qed

end

section \<open>The owner of a splitting unit\<close>

text \<open>The fixed data of a split: the units' backends, the store of the markers, the routing state \<open>re_gs\<close> as it is entered, the unit and
  its children.\<close>

record ('w, 't, 's) r1_env =
  re_ops :: "GenUnit \<Rightarrow> ('w, 't) backend_ops"
  re_cs :: "'s cond_ops"
  re_self :: NodeID
  re_hash :: "bytes \<Rightarrow> ShardHash"
  re_gs :: genState
  re_unit :: UnitID
  re_low :: UnitID
  re_high :: UnitID

text \<open>The state of the owner: storage, the marker store, the routing state in memory, the writers that hold the read side of the unit's
  pause with the unit they resolved, and the effect of all applied writes so far.\<close>

record ('w, 's) r1_state =
  r1_store :: 'w
  r1_cond :: 's
  r1_gs :: genState
  r1_writers :: "(GenUnit \<times> bytes \<times> bytes option) list"
  r1_history :: "bytes \<rightharpoonup> bytes"

definition local_write :: "('w, 't) backend_ops \<Rightarrow> bytes \<Rightarrow> bytes option \<Rightarrow> 'w \<Rightarrow> backend_error option \<times> 'w" where
  "local_write b key val w = (case val of Some v \<Rightarrow> bo_Put b key v w | None \<Rightarrow> bo_Delete b key w)"

definition unit_marked :: "('w, 't, 's) r1_env \<Rightarrow> 's \<Rightarrow> bool" where
  "unit_marked E s \<longleftrightarrow> cutoverMarkerPresent (Some (re_cs E)) (gs_gen (re_gs E)) (re_unit E) s = Inr True"

definition in_unit :: "('w, 't, 's) r1_env \<Rightarrow> bytes \<Rightarrow> bool" where
  "in_unit E key \<longleftrightarrow> UnitForHash (re_hash E key) (gs_count (re_gs E)) = re_unit E"

text \<open>\<open>strict\<close> excludes writes that begin between a restart and the first observation of the unit's durable marker.\<close>

inductive r1_step :: "('w, 't, 's) r1_env \<Rightarrow> bool \<Rightarrow> ('w, 's) r1_state \<Rightarrow> ('w, 's) r1_state \<Rightarrow> bool" for E strict where
  begin_write:
    "in_unit E key \<Longrightarrow> strict \<longrightarrow> unit_marked E (r1_cond x) \<longrightarrow> hasCutOver (r1_gs x) (re_unit E) \<Longrightarrow>
     r1_step E strict x (x\<lparr>r1_writers := r1_writers x @ [(resolveGenUnit (r1_gs x) (re_hash E key), key, val)]\<rparr>)"
| apply_write:
    "r1_writers x = ws1 @ (gu, key, val) # ws2 \<Longrightarrow> local_write (re_ops E gu) key val (r1_store x) = (None, w) \<Longrightarrow>
     r1_step E strict x (x\<lparr>r1_store := w, r1_writers := ws1 @ ws2, r1_history := (r1_history x)(key := val)\<rparr>)"
| fail_write:
    "r1_writers x = ws1 @ (gu, key, val) # ws2 \<Longrightarrow> local_write (re_ops E gu) key val (r1_store x) = (Some e, w) \<Longrightarrow>
     r1_step E strict x (x\<lparr>r1_store := w, r1_writers := ws1 @ ws2\<rparr>)"
| background_copy:
    "cutoverMarkerPresent (Some (re_cs E)) (gs_gen (re_gs E)) (re_unit E) (r1_cond x) = Inr False \<Longrightarrow> c \<in> {re_low E, re_high E} \<Longrightarrow>
     bo_Put (re_ops E (NewGenUnit (gs_gen (re_gs E) + 1) c)) key v (r1_store x) = (r, w) \<Longrightarrow>
     r1_step E strict x (x\<lparr>r1_store := w\<rparr>)"
| cut:
    "cutoverMarkerPresent (Some (re_cs E)) (gs_gen (re_gs E)) (re_unit E) (r1_cond x) = Inr False \<Longrightarrow> r1_writers x = [] \<Longrightarrow>
     \<not> IsZero (gs_nextCount (r1_gs x)) \<Longrightarrow>
     cutover_locked (re_ops E) (Some (re_cs E)) (re_self E) False (re_hash E) (re_gs E) (re_unit E) (re_low E) (re_high E)
       (r1_store x) (r1_cond x) (r1_gs x) = (r, w, s, g) \<Longrightarrow>
     r1_step E strict x (x\<lparr>r1_store := w, r1_cond := s, r1_gs := g\<rparr>)"
| observe:
    "unit_marked E (r1_cond x) \<Longrightarrow> \<not> IsZero (gs_nextCount (r1_gs x)) \<Longrightarrow>
     r1_step E strict x (x\<lparr>r1_gs := cut_over (re_unit E) (r1_gs x)\<rparr>)"
| restart:
    "r1_step E strict x (x\<lparr>r1_writers := [], r1_gs := steady (gs_gen (re_gs E)) (gs_count (re_gs E))\<rparr>)"
| enter:
    "IsZero (gs_nextCount (r1_gs x)) \<Longrightarrow> r1_step E strict x (x\<lparr>r1_gs := re_gs E\<rparr>)"

inductive_cases r1_stepE: "r1_step E strict x y"

definition r1_env_ok :: "('w, 't, 's) r1_env \<Rightarrow> bool" where
  "r1_env_ok E \<longleftrightarrow> unit_count_ok (gs_count (re_gs E)) \<and> Double (gs_count (re_gs E)) = Inr (gs_nextCount (re_gs E)) \<and>
     gs_cutOver (re_gs E) = [] \<and> ChildUnits (re_unit E) (gs_count (re_gs E)) = Inr (re_low E, re_high E)"

definition parent_unit :: "('w, 't, 's) r1_env \<Rightarrow> GenUnit" where
  "parent_unit E = NewGenUnit (gs_gen (re_gs E)) (re_unit E)"

text \<open>The unit whose store counts: the child once the marker is durable.\<close>

definition home :: "('w, 't, 's) r1_env \<Rightarrow> 's \<Rightarrow> bytes \<Rightarrow> GenUnit" where
  "home E s key = (if unit_marked E s then child_of (re_gs E) (re_hash E) key else parent_unit E)"

definition r1_routing_ok :: "('w, 't, 's) r1_env \<Rightarrow> ('w, 's) r1_state \<Rightarrow> bool" where
  "r1_routing_ok E x \<longleftrightarrow>
     gs_gen (r1_gs x) = gs_gen (re_gs E) \<and> gs_count (r1_gs x) = gs_count (re_gs E) \<and>
     (IsZero (gs_nextCount (r1_gs x)) \<and> gs_cutOver (r1_gs x) = [] \<or> gs_nextCount (r1_gs x) = gs_nextCount (re_gs E)) \<and>
     (hasCutOver (r1_gs x) (re_unit E) \<longrightarrow> unit_marked E (r1_cond x))"

definition r1_inv :: "(GenUnit \<Rightarrow> 'w \<Rightarrow> bytes \<rightharpoonup> bytes) \<Rightarrow> ('w \<Rightarrow> bool) \<Rightarrow> ('s \<Rightarrow> bool) \<Rightarrow> ('s \<Rightarrow> nat) \<Rightarrow> ('w, 't, 's) r1_env \<Rightarrow> ('w, 's) r1_state \<Rightarrow> bool" where
  "r1_inv kv ok cinv room E x \<longleftrightarrow>
     ok (r1_store x) \<and> cinv (r1_cond x) \<and> (\<not> unit_marked E (r1_cond x) \<longrightarrow> 0 < room (r1_cond x)) \<and> r1_routing_ok E x \<and>
     (\<forall>(gu, key, val)\<in>set (r1_writers x). in_unit E key \<and> gu = home E (r1_cond x) key) \<and>
     (\<forall>key. in_unit E key \<longrightarrow> kv (home E (r1_cond x) key) (r1_store x) key = r1_history x key)"

lemma child_cases:
  assumes "r1_env_ok E" "in_unit E key"
  shows "UnitForHash (re_hash E key) (gs_nextCount (re_gs E)) =
    (if UnitForHash (re_hash E key) (gs_nextCount (re_gs E)) = UnitForHash (re_hash E key) (gs_count (re_gs E)) then re_low E else re_high E)"
proof -
  have lo: "re_low E = re_unit E" using assms(1) by (auto simp: r1_env_ok_def ChildUnits_def split: if_splits sum.splits)
  note b = ChildUnits_bisect [of "gs_count (re_gs E)" "re_unit E" "re_low E" "re_high E" "gs_nextCount (re_gs E)" "re_hash E key"]
  show "UnitForHash (re_hash E key) (gs_nextCount (re_gs E)) =
    (if UnitForHash (re_hash E key) (gs_nextCount (re_gs E)) = UnitForHash (re_hash E key) (gs_count (re_gs E)) then re_low E else re_high E)"
    using b assms lo by (auto simp: r1_env_ok_def in_unit_def)
qed

lemma children_distinct: "r1_env_ok E \<Longrightarrow> re_low E \<noteq> re_high E"
  using ChildUnits_bisect [of "gs_count (re_gs E)" "re_unit E" "re_low E" "re_high E" "gs_nextCount (re_gs E)"] by (auto simp: r1_env_ok_def)

lemma NewGenUnit_eq [simp]: "NewGenUnit g u = NewGenUnit g' u' \<longleftrightarrow> g = g' \<and> u = u'"
  by (simp add: NewGenUnit_def)

text \<open>Where the keys of the unit resolve once the state is settled.\<close>

lemma resolve_home:
  assumes "r1_env_ok E" "r1_routing_ok E x" "in_unit E key" "unit_marked E (r1_cond x) \<longrightarrow> hasCutOver (r1_gs x) (re_unit E)"
  shows "resolveGenUnit (r1_gs x) (re_hash E key) = home E (r1_cond x) key"
  using assms by (auto simp: resolveGenUnit_def home_def child_of_def parent_unit_def r1_routing_ok_def in_unit_def hasCutOver_def)

lemma publish_cases:
  assumes "cond_store cs cinv room issued" "cinv s" "0 < room s" "cutoverMarkerPresent (Some cs) gen k s = Inr False"
    and "publishCutoverMarker (Some cs) self gen k s = (r, s')"
  shows "r = None \<and> cinv s' \<and> cutoverMarkerPresent (Some cs) gen k s' = Inr True \<or> r \<noteq> None \<and> s' = s"
proof -
  obtain e s1 where p: "co_PutIfAbsent cs (cutoverMarkerKey gen k) self s = (e, s1)" by fastforce
  have nf: "co_Get cs (cutoverMarkerKey gen k) s = Inl ErrCondNotFound"
    using assms(4) by (auto simp: cutoverMarkerPresent_def markerPresent_def split: sum.splits if_splits)
  show ?thesis
  proof (cases e)
    case (Inl a)
    then show ?thesis using p assms(5) nf cond_store.put_error [OF assms(1), of _ _ _ a s1] cond_store.put_exists [OF assms(1), of "cutoverMarkerKey gen k" self s s1]
      by (auto simp: publishCutoverMarker_def publishMarker_def split: if_splits)
  next
    case (Inr v)
    then show ?thesis using p assms(5) cond_store.put_ok [OF assms(1), of _ self s v s1] assms(2,3)
      by (auto simp: publishCutoverMarker_def publishMarker_def cutoverMarkerPresent_def markerPresent_def cond_written_def)
  qed
qed

text \<open>Stores of generation-qualified units, which is how units that are stored once are addressed.\<close>

locale gen_unit_stores = unit_stores ops kv ok
  for ops :: "GenUnit \<Rightarrow> ('w, 't) backend_ops" and kv :: "GenUnit \<Rightarrow> 'w \<Rightarrow> bytes \<rightharpoonup> bytes" and ok :: "'w \<Rightarrow> bool"
begin

lemma local_write_spec:
  assumes "ok w" "local_write (ops u) key val w = (r, w')"
  shows "ok w' \<and> (\<forall>u'. kv u' w' = (if r = None \<and> u' = u then (kv u w)(key := val) else kv u' w))"
proof (cases val)
  case None
  then have d: "bo_Delete (ops u) key w = (r, w')" using assms(2) by (simp add: local_write_def)
  show ?thesis
  proof (cases r)
    case None
    with delete_ok [OF assms(1), of u key w'] d \<open>val = None\<close> show ?thesis by simp
  next
    case (Some e)
    with delete_error [OF assms(1), of u key e w'] d show ?thesis by simp
  qed
next
  case (Some v)
  then have p: "bo_Put (ops u) key v w = (r, w')" using assms(2) by (simp add: local_write_def)
  show ?thesis
  proof (cases r)
    case None
    with put_ok [OF assms(1), of u key v w'] p Some show ?thesis by simp
  next
    case (Some e)
    with put_error [OF assms(1), of u key v e w'] p show ?thesis by simp
  qed
qed

lemma cut_inv:
  assumes "re_ops E = ops" "cond_store (re_cs E) cinv room issued" "r1_env_ok E" "r1_inv kv ok cinv room E x"
    and "cutoverMarkerPresent (Some (re_cs E)) (gs_gen (re_gs E)) (re_unit E) (r1_cond x) = Inr False" "r1_writers x = []"
    and "\<not> IsZero (gs_nextCount (r1_gs x))"
    and "cutover_locked (re_ops E) (Some (re_cs E)) (re_self E) False (re_hash E) (re_gs E) (re_unit E) (re_low E) (re_high E)
       (r1_store x) (r1_cond x) (r1_gs x) = (r, w, s, g)"
  shows "r1_inv kv ok cinv room E (x\<lparr>r1_store := w, r1_cond := s, r1_gs := g\<rparr>)"
proof -
  let ?gen = "gs_gen (re_gs E)"
  let ?p = "NewGenUnit ?gen (re_unit E)" and ?lo = "NewGenUnit (?gen + 1) (re_low E)" and ?hi = "NewGenUnit (?gen + 1) (re_high E)"
  obtain e w1 where c: "catch_up (ops ?p) (ops ?lo) (ops ?hi) (re_hash E) (gs_count (re_gs E)) (gs_nextCount (re_gs E)) (r1_store x) = (e, w1)"
    by fastforce
  have ne: "?lo \<noteq> ?hi" "?p \<noteq> ?lo" "?p \<noteq> ?hi" using children_distinct [OF assms(3)] by auto
  have unmarked: "\<not> unit_marked E (r1_cond x)" using assms(5) by (simp add: unit_marked_def)
  have okx: "ok (r1_store x)" "cinv (r1_cond x)" "0 < room (r1_cond x)" "r1_routing_ok E x"
    using assms(4) unmarked by (auto simp: r1_inv_def)
  note cs = catch_up_spec [OF okx(1) ne c]
  have pk: "kv ?p w1 = kv ?p (r1_store x)" using cs ne by auto
  have hist: "kv ?p (r1_store x) key = r1_history x key" if "in_unit E key" for key
    using assms(4) that unmarked by (auto simp: r1_inv_def home_def parent_unit_def)
  show ?thesis
  proof (cases "r = None")
    case False
    then have "s = r1_cond x \<and> g = r1_gs x \<and> w = w1"
      using assms(8) c assms(1) publish_cases [OF assms(2) okx(2,3) assms(5)]
      by (auto simp: cutover_locked_def Let_def split: option.splits prod.splits)
    then show ?thesis using okx unmarked cs pk hist assms(6) by (auto simp: r1_inv_def r1_routing_ok_def home_def parent_unit_def)
  next
    case True
    then have "e = None \<and> w = w1 \<and> g = cut_over (re_unit E) (r1_gs x) \<and> publishCutoverMarker (Some (re_cs E)) (re_self E) ?gen (re_unit E) (r1_cond x) = (None, s)"
      using assms(8) c assms(1) by (auto simp: cutover_locked_def Let_def split: option.splits prod.splits)
    moreover from this publish_cases [OF assms(2) okx(2,3) assms(5)] have m: "cinv s" "unit_marked E s" by (auto simp: unit_marked_def)
    moreover have "kv (child_of (re_gs E) (re_hash E) key) w1 key = r1_history x key" if k: "in_unit E key" for key
    proof -
      let ?c = "UnitForHash (re_hash E key) (gs_nextCount (re_gs E))"
      have "child_of (re_gs E) (re_hash E) key = (if ?c = UnitForHash (re_hash E key) (gs_count (re_gs E)) then ?lo else ?hi)"
        using child_cases [OF assms(3) k] by (auto simp: child_of_def split: if_splits)
      then show ?thesis using cs calculation hist [OF k] by auto
    qed
    ultimately show ?thesis using okx cs assms(6) by (auto simp: r1_inv_def r1_routing_ok_def home_def cut_over_def hasCutOver_def assms(7))
  qed
qed

lemma r1_step_inv:
  assumes "re_ops E = ops" "cond_store (re_cs E) cinv room issued" "r1_env_ok E" "r1_step E True x y" "r1_inv kv ok cinv room E x"
  shows "r1_inv kv ok cinv room E y"
  using assms(4)
proof cases
  case (begin_write key val)
  then show ?thesis using assms(5) resolve_home [OF assms(3), of x key] by (auto simp: r1_inv_def r1_routing_ok_def)
next
  case (apply_write ws1 gu key val ws2 w)
  then have h: "in_unit E key" "gu = home E (r1_cond x) key" using assms(5) by (auto simp: r1_inv_def)
  have "ok (r1_store x)" using assms(5) by (simp add: r1_inv_def)
  from local_write_spec [OF this apply_write(3) [unfolded assms(1)]] h apply_write(1,2) assms(5) show ?thesis
    by (auto simp: r1_inv_def r1_routing_ok_def home_def split: if_splits)
next
  case (fail_write ws1 gu key val ws2 e w)
  have "ok (r1_store x)" using assms(5) by (simp add: r1_inv_def)
  from local_write_spec [OF this fail_write(3) [unfolded assms(1)]] fail_write(1,2) assms(5) show ?thesis
    by (auto simp: r1_inv_def r1_routing_ok_def)
next
  case (background_copy c key v r w)
  have o: "ok (r1_store x)" using assms(5) by (simp add: r1_inv_def)
  have u: "\<not> unit_marked E (r1_cond x)" using background_copy(2) by (simp add: unit_marked_def)
  have "ok w \<and> kv (parent_unit E) w = kv (parent_unit E) (r1_store x)"
    using put_ok [OF o, of _ key v w] put_error [OF o, of _ key v _ w] background_copy(4) unfolding assms(1)
    by (cases r) (auto simp: parent_unit_def)
  then show ?thesis using background_copy(1) u assms(5) by (auto simp: r1_inv_def r1_routing_ok_def home_def)
next
  case (cut r w s g)
  then show ?thesis using cut_inv [OF assms(1-3,5)] by blast
next
  case observe
  then show ?thesis using assms(5) by (auto simp: r1_inv_def r1_routing_ok_def cut_over_def hasCutOver_def)
next
  case restart
  then show ?thesis using assms(5) by (auto simp: r1_inv_def r1_routing_ok_def steady_def hasCutOver_def IsZero_def)
next
  case enter
  then show ?thesis using assms(3,5) by (auto simp: r1_inv_def r1_routing_ok_def r1_env_ok_def hasCutOver_def)
qed

lemma r1_run_inv:
  assumes "(r1_step E True)\<^sup>*\<^sup>* x y" "re_ops E = ops" "cond_store (re_cs E) cinv room issued" "r1_env_ok E" "r1_inv kv ok cinv room E x"
  shows "r1_inv kv ok cinv room E y"
  using assms(1,5) by (induction rule: rtranclp_induct) (auto intro: r1_step_inv [OF assms(2-4)])

end

interpretation sole_gen: gen_unit_stores "\<lambda>gu. fenced_sole_ops gu (epochs gu)" sole_kv sole_ok for epochs
  by unfold_locales

section \<open>No applied write is lost\<close>


text \<open>Unit 1 of 4, splitting into 1 and 5 of 8: a write, the cut-over, and a write after it.\<close>

definition r1_demo_env :: "(Backing, mem_tx, mem_store) r1_env" where
  "r1_demo_env = \<lparr>re_ops = (\<lambda>gu. fenced_sole_ops gu 1), re_cs = mem_cond_ops, re_self = ''a'', re_hash = (\<lambda>_. 5),
     re_gs = \<lparr>gs_gen = 0, gs_count = UnitCount 4, gs_nextCount = UnitCount 8, gs_cutOver = []\<rparr>,
     re_unit = 1, re_low = 1, re_high = 5\<rparr>"

definition r1_demo :: "(Backing, mem_store) r1_state" where
  "r1_demo = \<lparr>r1_store = NewBacking, r1_cond = NewMemConditionalStore, r1_gs = re_gs r1_demo_env, r1_writers = [], r1_history = Map.empty\<rparr>"

lemma r1_demo_env_ok: "r1_env_ok r1_demo_env" "in_unit r1_demo_env key"
proof -
  have "unit_count_ok (UnitCount 4)" unfolding unit_count_ok_def by (rule exI [of _ 2]) simp
  moreover have "Double (UnitCount 4) = Inr (UnitCount 8)" using Double_exp [of 2] by simp
  ultimately show "r1_env_ok r1_demo_env" by (simp add: r1_env_ok_def r1_demo_env_def ChildUnits_def Contains_def)
  show "in_unit r1_demo_env key" by (simp add: in_unit_def r1_demo_env_def UnitForHash_def unit_mask_def)
qed

lemma r1_demo_units:
  "resolveGenUnit \<lparr>gs_gen = 0, gs_count = UnitCount 4, gs_nextCount = n, gs_cutOver = []\<rparr> 5 = GenUnit 0 1"
  "resolveGenUnit \<lparr>gs_gen = 0, gs_count = UnitCount 4, gs_nextCount = UnitCount 8, gs_cutOver = [1]\<rparr> 5 = GenUnit 1 5"
  "UnitForHash 5 (UnitCount 4) = 1" "UnitForHash 5 (UnitCount 8) = 5"
  by (simp_all add: resolveGenUnit_def hasCutOver_def NewGenUnit_def UnitForHash_def unit_mask_def)

definition demo_stores :: "GenUnit list \<Rightarrow> bytes \<Rightarrow> Backing" where
  "demo_stores us v = fold (\<lambda>u b. b\<lparr>bk_stores := (bk_stores b)(u \<mapsto> \<lparr>me_data = [(''k'', v)], me_closed = False\<rparr>)\<rparr>) us NewBacking"

lemma demo_write:
  "local_write (fenced_sole_ops (GenUnit 0 1) 1) ''k'' (Some v) NewBacking = (None, demo_stores [GenUnit 0 1] v)"
  by (simp add: local_write_def fenced_sole_ops_def core_Put_def core_fenced_def get0_def store_at_def NewBacking_def
      Memory_Put_def Memory_New_def demo_stores_def)

lemma demo_clear: "c \<in> {1, 5} \<Longrightarrow> clearBackend (fenced_sole_ops (GenUnit 1 c) 1) (demo_stores [GenUnit 0 1] v) = (None, demo_stores [GenUnit 0 1] v)"
  by (auto simp: clearBackend_def fenced_sole_ops_def demo_stores_def NewBacking_def store_at_def Memory_ScanPrefix_def Memory_New_def)

lemma demo_copy:
  "copyUnitInto (fenced_sole_ops (GenUnit 0 1) 1) (fenced_sole_ops (GenUnit 1 1) 1) (fenced_sole_ops (GenUnit 1 5) 1) (\<lambda>_. 5) (UnitCount 4) (UnitCount 8)
     (demo_stores [GenUnit 0 1] v) = (None, demo_stores [GenUnit 0 1, GenUnit 1 5] v)"
proof -
  have "bo_ScanPrefix (fenced_sole_ops (GenUnit 0 1) 1) [] (demo_stores [GenUnit 0 1] v) = Inr [(''k'', v)]"
    by (simp add: fenced_sole_ops_def demo_stores_def store_at_def Memory_ScanPrefix_def HasPrefix_def)
  moreover have "bo_Put (fenced_sole_ops (GenUnit 1 5) 1) ''k'' v (demo_stores [GenUnit 0 1] v) = (None, demo_stores [GenUnit 0 1, GenUnit 1 5] v)"
    by (simp add: fenced_sole_ops_def core_Put_def core_fenced_def get0_def store_at_def NewBacking_def Memory_Put_def Memory_New_def demo_stores_def)
  moreover have "\<exists>n. Double (UnitCount 4) = Inr n" using Double_exp [of 2] by simp
  ultimately show ?thesis by (auto simp: copyUnitInto_def r1_demo_units ChildUnits_def Contains_def)
qed

definition demo_marked :: mem_store where
  "demo_marked = snd (Mem_PutIfAbsent (cutoverMarkerKey 0 1) ''a'' NewMemConditionalStore)"

lemma demo_marker:
  "publishCutoverMarker (Some mem_cond_ops) ''a'' 0 1 NewMemConditionalStore = (None, demo_marked)"
  "cutoverMarkerPresent (Some mem_cond_ops) 0 1 NewMemConditionalStore = Inr False"
  "cutoverMarkerPresent (Some mem_cond_ops) 0 1 demo_marked = Inr True"
  by (simp_all add: publishCutoverMarker_def publishMarker_def cutoverMarkerPresent_def markerPresent_def mem_cond_ops_def demo_marked_def
      Mem_PutIfAbsent_def Mem_Get_def NewMemConditionalStore_def nextVersion_def Let_def)

lemma demo_cut:
  "cutover_locked (re_ops r1_demo_env) (Some (re_cs r1_demo_env)) (re_self r1_demo_env) False (re_hash r1_demo_env) (re_gs r1_demo_env) 1 1 5
     (demo_stores [GenUnit 0 1] v) NewMemConditionalStore (re_gs r1_demo_env) =
     (None, demo_stores [GenUnit 0 1, GenUnit 1 5] v, demo_marked, \<lparr>gs_gen = 0, gs_count = UnitCount 4, gs_nextCount = UnitCount 8, gs_cutOver = [1]\<rparr>)"
  by (simp add: cutover_locked_def catch_up_def r1_demo_env_def NewGenUnit_def demo_clear demo_copy demo_marker cut_over_def)

text \<open>The state after a write and the cut-over.\<close>

definition demo_flipped :: "bytes \<Rightarrow> (Backing, mem_store) r1_state" where
  "demo_flipped v = \<lparr>r1_store = demo_stores [GenUnit 0 1, GenUnit 1 5] v, r1_cond = demo_marked,
     r1_gs = \<lparr>gs_gen = 0, gs_count = UnitCount 4, gs_nextCount = UnitCount 8, gs_cutOver = [1]\<rparr>, r1_writers = [], r1_history = [''k'' \<mapsto> v]\<rparr>"

lemma r1_demo_run: "(r1_step r1_demo_env strict)\<^sup>*\<^sup>* r1_demo (demo_flipped v)"
proof -
  let ?E = r1_demo_env
  let ?x1 = "r1_demo\<lparr>r1_writers := [(GenUnit 0 1, ''k'', Some v)]\<rparr>"
  let ?x2 = "r1_demo\<lparr>r1_store := demo_stores [GenUnit 0 1] v, r1_history := [''k'' \<mapsto> v]\<rparr>"
  have "r1_step ?E strict r1_demo ?x1"
    using begin_write [of ?E "''k''" strict r1_demo "Some v"] r1_demo_env_ok(2) demo_marker(2) r1_demo_units(1)
    by (simp add: r1_demo_def r1_demo_env_def unit_marked_def)
  moreover have "r1_step ?E strict ?x1 ?x2"
    using apply_write [of ?x1 "[]" "GenUnit 0 1" "''k''" "Some v" "[]" ?E "demo_stores [GenUnit 0 1] v" strict] demo_write
    by (simp add: r1_demo_def r1_demo_env_def)
  moreover have "r1_step ?E strict ?x2 (demo_flipped v)"
    using cut [of ?E ?x2 None _ _ _ strict] demo_cut [of v] demo_marker(2)
    by (simp add: r1_demo_def r1_demo_env_def demo_flipped_def IsZero_def)
  ultimately show ?thesis by (meson converse_rtranclp_into_rtranclp rtranclp.rtrancl_refl)
qed

lemma demo_start:
  "re_ops r1_demo_env = (\<lambda>gu. fenced_sole_ops gu 1)" "re_cs r1_demo_env = mem_cond_ops" "sole_ok (r1_store r1_demo)"
  "mem_inv (r1_cond r1_demo)" "0 < mem_room (r1_cond r1_demo)" "\<not> unit_marked r1_demo_env (r1_cond r1_demo)"
  "r1_gs r1_demo = re_gs r1_demo_env" "r1_writers r1_demo = []"
  "sole_kv (parent_unit r1_demo_env) (r1_store r1_demo) key = r1_history r1_demo key"
  using demo_marker(2)
  by (simp_all add: r1_demo_def r1_demo_env_def sole_ok_def sole_kv_def mem_ok_def mem_abs_def store_at_def NewBacking_def Memory_New_def
      unit_marked_def)



end
