(* ===== verification/Coord_Cas.thy ===== *)
theory Coord_Cas
  imports Coord Cond_Store Json Ring Decide
begin

text \<open>
  The coordinator over one membership document in a conditional store (\<^verbatim>\<open>src/pkg/coord/cas/cas.go\<close>): bootstrap, the shared
  read-modify-write cycle, lease renewal with displacement, observation (expiry, snapshot, garbage collection), roles,
  placement queries and close.

  A call that makes several store operations takes \<open>env\<close>, what other clients do to the store before its \<open>i\<close>-th operation. An
  edit of the document is a function of the attempt number: it may read local state that other goroutines change between two
  attempts (\<open>rolesAt\<close>, the desired roles when the attempt's closure runs) and fresh random bytes (\<open>rand\<close>). Rows are ordered by
  \<^verbatim>\<open>sort.Slice\<close>; it is modelled by a stable sort, which is the same for distinct ids. Logging is left out.
\<close>

section \<open>The document\<close>

record docRow =
  dr_ID :: string
  dr_Addr :: string
  dr_Roles :: u8
  dr_DeclaredUnitCount :: u32
  dr_LeaseGen :: u64
  dr_Inc :: string

type_synonym document = "docRow list"

definition newInc :: "bytes \<Rightarrow> string" where
  "newInc b = concat (map (\<lambda>c. [hex_digit (of_char c div 16), hex_digit (of_char c mod 16)]) b)"

definition row_member :: "docRow \<Rightarrow> CoordMember" where
  "row_member r = \<lparr>cm_Node = Node (dr_ID r) (dr_Addr r), cm_Roles = dr_Roles r, cm_DeclaredUnitCount = dr_DeclaredUnitCount r\<rparr>"

text \<open>The wire form of a row, with the members that are omitted when empty.\<close>

definition row_json :: "docRow \<Rightarrow> json" where
  "row_json r = JObj
     ([(''id'', JStr (dr_ID r))] @
      (if dr_Addr r = [] then [] else [(''addr'', JStr (dr_Addr r))]) @
      (if dr_Roles r = 0 then [] else [(''roles'', JNum (format_uint (unat (dr_Roles r))))]) @
      (if dr_DeclaredUnitCount r = 0 then []
       else [(''declaredUnitCount'', JNum (format_uint (unat (dr_DeclaredUnitCount r))))]) @
      [(''leaseGen'', JNum (format_uint (unat (dr_LeaseGen r)))), (''inc'', JStr (dr_Inc r))])"

definition dec_row :: "json \<Rightarrow> docRow option" where
  "dec_row j =
     (case dec_struct j of
        None \<Rightarrow> None
      | Some ms \<Rightarrow>
          (case (json_field dec_string ''id'' [] ms, json_field dec_string ''addr'' [] ms, json_field (dec_uint 8) ''roles'' 0 ms,
                 json_field (dec_uint 32) ''declaredUnitCount'' 0 ms, json_field (dec_uint 64) ''leaseGen'' 0 ms,
                 json_field dec_string ''inc'' [] ms) of
             (Some i, Some addr, Some roles, Some declared, Some gen, Some inc) \<Rightarrow>
               Some \<lparr>dr_ID = i, dr_Addr = addr, dr_Roles = of_nat roles, dr_DeclaredUnitCount = of_nat declared,
                     dr_LeaseGen = of_nat gen, dr_Inc = inc\<rparr>
           | _ \<Rightarrow> None))"

fun dec_rows :: "json list \<Rightarrow> docRow list option" where
  "dec_rows [] = Some []"
| "dec_rows (j # js) =
     (case dec_row j of None \<Rightarrow> None | Some r \<Rightarrow> map_option (\<lambda>rs. r # rs) (dec_rows js))"

definition dec_members :: "json \<Rightarrow> docRow list option" where
  "dec_members j = (case j of JArr js \<Rightarrow> dec_rows js | _ \<Rightarrow> None)"

datatype cas_error =
    StartedTwice
  | StoreRequired
  | SelfIDRequired
  | SelfAddrRequired
  | CasDecode
  | CasStore cond_error
  | CasExhausted
  | ErrDisplaced

definition decodeDocument :: "bytes \<Rightarrow> cas_error + document" where
  "decodeDocument data =
     (case Option.bind (json_parse data) dec_struct of
        None \<Rightarrow> Inl CasDecode
      | Some ms \<Rightarrow> (case json_field dec_members ''members'' [] ms of None \<Rightarrow> Inl CasDecode | Some d \<Rightarrow> Inr d))"

text \<open>\<^verbatim>\<open>encodeDocument\<close> sorts the rows in place: \<open>sorted_rows d\<close> is the document afterwards. It never fails, and is never called on a
  document whose member list is nil.\<close>

definition sorted_rows :: "document \<Rightarrow> document" where
  "sorted_rows d = sort_key dr_ID d"

definition encodeDocument :: "document \<Rightarrow> bytes" where
  "encodeDocument d = json_print (JObj [(''members'', JArr (map row_json (sorted_rows d)))])"

fun doc_find :: "NodeID \<Rightarrow> document \<Rightarrow> nat option" where
  "doc_find i [] = None"
| "doc_find i (r # d) = (if dr_ID r = i then Some 0 else map_option Suc (doc_find i d))"

definition upsert :: "docRow \<Rightarrow> document \<Rightarrow> document" where
  "upsert row d =
     (case doc_find (dr_ID row) d of
        Some i \<Rightarrow>
          (let old = dr_LeaseGen (d ! i);
               row = (if old \<ge> dr_LeaseGen row then row\<lparr>dr_LeaseGen := old + 1\<rparr> else row)
           in d[i := row])
      | None \<Rightarrow> d @ [row])"

section \<open>The coordinator's state\<close>

definition DefaultKey :: string where
  "DefaultKey = ''__coord/members''"

definition DefaultRenewalInterval :: int where
  "DefaultRenewalInterval = 2000000000"

definition DefaultPollInterval :: int where
  "DefaultPollInterval = 1000000000"

definition DefaultExpiryPolls :: int where
  "DefaultExpiryPolls = 5"

definition casAttempts :: nat where
  "casAttempts = 8"

record 's cas_Config =
  cc_Store :: "'s cond_ops option"
  cc_Key :: string
  cc_RenewalInterval :: int
  cc_PollInterval :: int
  cc_ExpiryPolls :: int

record 'h snapshot =
  sn_view :: View
  sn_ring :: "'h Ring option"

text \<open>\<open>cr_changed\<close> is whether the hint channel (of capacity one) holds a hint; \<open>cr_reduced\<close> is the memo of the reduced ring with
  its key and its epoch; \<open>cr_renewLoop\<close> and \<open>cr_pollLoop\<close> are the intervals of the running loops.\<close>

record ('s, 'h) Coordinator =
  cr_cfg :: "'s cas_Config"
  cr_self :: Node
  cr_declaredUnitCount :: u32
  cr_snap :: "'h snapshot"
  cr_epoch :: u64
  cr_changed :: bool
  cr_roles :: Role
  cr_selfInc :: string
  cr_displaced :: bool
  cr_tracker :: lease_state
  cr_reduced :: "(string \<times> u64 \<times> 'h Ring) option"
  cr_pollOK :: u64
  cr_renewOK :: u64
  cr_pollFail :: u64
  cr_renewFail :: u64
  cr_renewLoop :: "int option"
  cr_pollLoop :: "int option"
  cr_started :: bool
  cr_closed :: bool
  cr_hardStopped :: bool

definition cas_New :: "'s cas_Config \<Rightarrow> ('s, 'h) Coordinator" where
  "cas_New cfg =
     \<lparr>cr_cfg = cfg\<lparr>cc_Key := (if cc_Key cfg = [] then DefaultKey else cc_Key cfg),
                  cc_ExpiryPolls := (if cc_ExpiryPolls cfg \<le> 0 then DefaultExpiryPolls else cc_ExpiryPolls cfg)\<rparr>,
      cr_self = Node [] [], cr_declaredUnitCount = 0,
      cr_snap = \<lparr>sn_view = \<lparr>vw_Self = Node [] [], vw_Members = [], vw_Epoch = 0\<rparr>, sn_ring = None\<rparr>,
      cr_epoch = 0, cr_changed = False, cr_roles = 0, cr_selfInc = [], cr_displaced = False, cr_tracker = Map.empty,
      cr_reduced = None, cr_pollOK = 0, cr_renewOK = 0, cr_pollFail = 0, cr_renewFail = 0, cr_renewLoop = None,
      cr_pollLoop = None, cr_started = False, cr_closed = False, cr_hardStopped = False\<rparr>"

record cas_Health =
  he_PollSuccesses :: u64
  he_RenewSuccesses :: u64
  he_ConsecutivePollFailures :: u64
  he_ConsecutiveRenewFailures :: u64
  he_Displaced :: bool

definition Health :: "('s, 'h) Coordinator \<Rightarrow> cas_Health" where
  "Health c = \<lparr>he_PollSuccesses = cr_pollOK c, he_RenewSuccesses = cr_renewOK c, he_ConsecutivePollFailures = cr_pollFail c,
     he_ConsecutiveRenewFailures = cr_renewFail c, he_Displaced = cr_displaced c\<rparr>"

definition intervalOr :: "int \<Rightarrow> int \<Rightarrow> int" where
  "intervalOr v d = (if v = 0 then d else if v < 0 then 0 else v)"

section \<open>Publishing a snapshot\<close>

definition ring_of :: "'h consistent \<Rightarrow> (string list \<Rightarrow> string list) \<Rightarrow> CoordMember list \<Rightarrow> 'h Ring" where
  "ring_of lib iter ms = fold (\<lambda>m. Add lib iter (Member (node_ID (cm_Node m)) (node_Addr (cm_Node m)))) ms (New lib)"

definition membersEqual :: "CoordMember list \<Rightarrow> CoordMember list \<Rightarrow> bool" where
  "membersEqual a b \<longleftrightarrow> length a = length b \<and> list_all2 (=) a b"

definition nodesEqual :: "CoordMember list \<Rightarrow> CoordMember list \<Rightarrow> bool" where
  "nodesEqual a b \<longleftrightarrow> length a = length b \<and> list_all2 (\<lambda>x y. cm_Node x = cm_Node y) a b"

definition publish ::
    "'h consistent \<Rightarrow> (string list \<Rightarrow> string list) \<Rightarrow> docRow list \<Rightarrow> ('s, 'h) Coordinator \<Rightarrow> bool \<times> ('s, 'h) Coordinator" where
  "publish lib iter rows c =
     (let cur = cr_snap c;
          members = sort_key (node_ID \<circ> cm_Node) (map row_member rows)
      in if membersEqual (vw_Members (sn_view cur)) members then (False, c)
         else
           (let r = (if sn_ring cur = None \<or> \<not> nodesEqual (vw_Members (sn_view cur)) members
                     then Some (ring_of lib iter members) else sn_ring cur);
                epoch = cr_epoch c + 1
            in (True, c\<lparr>cr_epoch := epoch,
                        cr_snap := \<lparr>sn_view = \<lparr>vw_Self = cr_self c, vw_Members = members, vw_Epoch = epoch\<rparr>, sn_ring = r\<rparr>\<rparr>)))"

definition gcExpired :: "'s cond_ops \<Rightarrow> string \<Rightarrow> string list \<Rightarrow> document \<Rightarrow> string \<Rightarrow> 's \<Rightarrow> 's" where
  "gcExpired ops key expired d ver s =
     snd (co_CompareAndSet ops key (encodeDocument (filter (\<lambda>r. dr_ID r \<notin> set expired) d)) ver s)"

definition signal :: "('s, 'h) Coordinator \<Rightarrow> ('s, 'h) Coordinator" where
  "signal c = c\<lparr>cr_changed := True\<rparr>"

definition self_row :: "('s, 'h) Coordinator \<Rightarrow> docRow" where
  "self_row c = \<lparr>dr_ID = node_ID (cr_self c), dr_Addr = node_Addr (cr_self c), dr_Roles = cr_roles c,
     dr_DeclaredUnitCount = cr_declaredUnitCount c, dr_LeaseGen = 0, dr_Inc = []\<rparr>"

definition observe ::
    "'h consistent \<Rightarrow> (string list \<Rightarrow> string list) \<Rightarrow> 's cond_ops \<Rightarrow> ('s \<Rightarrow> 's) \<Rightarrow> document \<Rightarrow> string \<Rightarrow>
     ('s, 'h) Coordinator \<Rightarrow> 's \<Rightarrow> ('s, 'h) Coordinator \<times> 's" where
  "observe lib iter ops env d ver c s =
     (let rows = map (\<lambda>r. LeaseRow (dr_ID r) (dr_Inc r) (dr_LeaseGen r)) d;
          (tracker, expired) = ExpireSilent (cr_tracker c) rows (cc_ExpiryPolls (cr_cfg c)) (node_ID (cr_self c));
          c = c\<lparr>cr_tracker := tracker\<rparr>;
          live = filter (\<lambda>r. dr_ID r \<notin> set expired) d;
          selfSeen = list_ex (\<lambda>r. dr_ID r = node_ID (cr_self c)) live;
          live = (if selfSeen then live else live @ [self_row c]);
          (moved, c) = publish lib iter live c;
          s = (if expired \<noteq> [] then gcExpired ops (cc_Key (cr_cfg c)) expired d ver (env s) else s)
      in (if moved then signal c else c, s))"

section \<open>Bootstrap and start\<close>

fun bootstrap_loop ::
    "'s cond_ops \<Rightarrow> string \<Rightarrow> (nat \<Rightarrow> 's \<Rightarrow> 's) \<Rightarrow> Params \<Rightarrow> docRow \<Rightarrow> nat \<Rightarrow> nat \<Rightarrow> 's \<Rightarrow>
     (cas_error + Bootstrap \<times> document \<times> string) \<times> 's" where
  "bootstrap_loop ops key env p founderRow i 0 s = (Inl CasExhausted, s)"
| "bootstrap_loop ops key env p founderRow i (Suc n) s =
     (case co_PutIfAbsent ops key (encodeDocument [founderRow]) (env (3 * i) s) of
        (Inr ver, s) \<Rightarrow> (Inr (BootstrapFounded, [founderRow], ver), s)
      | (Inl e, s) \<Rightarrow>
          if e \<noteq> ErrPrecondition then (Inl (CasStore e), s)
          else
            (let s = env (3 * i + 1) s
             in case co_Get ops key s of
                  Inl e \<Rightarrow>
                    if e = ErrCondNotFound then bootstrap_loop ops key env p founderRow (Suc i) n s else (Inl (CasStore e), s)
                | Inr (data, ver) \<Rightarrow>
                    (case decodeDocument data of
                       Inl e \<Rightarrow> (Inl e, s)
                     | Inr cur \<Rightarrow>
                         (let (row, bootstrap) =
                                (if length cur > 0 then (founderRow\<lparr>dr_Roles := pm_InitialRoles p\<rparr>, BootstrapJoined)
                                 else (founderRow, BootstrapFounded));
                              cur = sorted_rows (upsert row cur)
                          in case co_CompareAndSet ops key (encodeDocument cur) ver (env (3 * i + 2) s) of
                               (Inr newVer, s) \<Rightarrow> (Inr (bootstrap, cur, newVer), s)
                             | (Inl e, s) \<Rightarrow>
                                 if e \<noteq> ErrPrecondition then (Inl (CasStore e), s)
                                 else bootstrap_loop ops key env p founderRow (Suc i) n s))))"

definition founder_row :: "Params \<Rightarrow> string \<Rightarrow> docRow" where
  "founder_row p inc =
     \<lparr>dr_ID = node_ID (pm_Self p), dr_Addr = node_Addr (pm_Self p), dr_Roles = and (pm_InitialRoles p) (not RoleJoining),
      dr_DeclaredUnitCount = pm_DeclaredUnitCount p, dr_LeaseGen = 1, dr_Inc = inc\<rparr>"

definition cas_bootstrap ::
    "'s cond_ops \<Rightarrow> (nat \<Rightarrow> 's \<Rightarrow> 's) \<Rightarrow> bytes \<Rightarrow> Params \<Rightarrow> ('s, 'h) Coordinator \<Rightarrow> 's \<Rightarrow>
     (cas_error + Bootstrap \<times> document \<times> string) \<times> ('s, 'h) Coordinator \<times> 's" where
  "cas_bootstrap ops env rand p c s =
     (let founderRow = founder_row p (newInc rand);
          c = c\<lparr>cr_selfInc := dr_Inc founderRow\<rparr>;
          (r, s) = bootstrap_loop ops (cc_Key (cr_cfg c)) env p founderRow 0 casAttempts s
      in (r, c, s))"

definition cas_Start ::
    "'h consistent \<Rightarrow> (string list \<Rightarrow> string list) \<Rightarrow> (nat \<Rightarrow> 's \<Rightarrow> 's) \<Rightarrow> bytes \<Rightarrow> Params \<Rightarrow> ('s, 'h) Coordinator \<Rightarrow> 's \<Rightarrow>
     (cas_error + Bootstrap) \<times> ('s, 'h) Coordinator \<times> 's" where
  "cas_Start lib iter env rand p c s =
     (if cr_started c then (Inl StartedTwice, c, s)
      else case cc_Store (cr_cfg c) of
          None \<Rightarrow> (Inl StoreRequired, c, s)
        | Some ops \<Rightarrow>
            if node_ID (pm_Self p) = [] then (Inl SelfIDRequired, c, s)
            else if node_Addr (pm_Self p) = [] then (Inl SelfAddrRequired, c, s)
            else
              (case cas_bootstrap ops env rand p
                      (c\<lparr>cr_self := pm_Self p, cr_declaredUnitCount := pm_DeclaredUnitCount p\<rparr>) s of
                 (Inl e, c, s) \<Rightarrow> (Inl e, c, s)
               | (Inr (bootstrap, doc, ver), c, s) \<Rightarrow>
                   (let roles = (if bootstrap = BootstrapFounded then and (pm_InitialRoles p) (not RoleJoining) else pm_InitialRoles p);
                        (c, s) = observe lib iter ops (env (3 * casAttempts)) doc ver (c\<lparr>cr_roles := roles\<rparr>) s;
                        renew = intervalOr (cc_RenewalInterval (cr_cfg c)) DefaultRenewalInterval;
                        poll = intervalOr (cc_PollInterval (cr_cfg c)) DefaultPollInterval
                    in (Inr bootstrap,
                        c\<lparr>cr_started := True, cr_renewLoop := (if renew > 0 then Some renew else None),
                          cr_pollLoop := (if poll > 0 then Some poll else None)\<rparr>, s))))"

section \<open>The read-modify-write cycle\<close>

text \<open>The document and its version; an absent document is edited from empty and has no version.\<close>

definition mutate_read :: "'s cond_ops \<Rightarrow> string \<Rightarrow> 's \<Rightarrow> cas_error + document \<times> string option" where
  "mutate_read ops key s =
     (case co_Get ops key s of
        Inl e \<Rightarrow> if e = ErrCondNotFound then Inr ([], None) else Inl (CasStore e)
      | Inr (data, ver) \<Rightarrow> (case decodeDocument data of Inl e \<Rightarrow> Inl e | Inr d \<Rightarrow> Inr (d, Some ver)))"

definition mutate_write :: "'s cond_ops \<Rightarrow> string \<Rightarrow> document \<Rightarrow> string option \<Rightarrow> 's \<Rightarrow> (cond_error + string) \<times> 's" where
  "mutate_write ops key d ver s =
     (case ver of None \<Rightarrow> co_PutIfAbsent ops key (encodeDocument d) s | Some v \<Rightarrow> co_CompareAndSet ops key (encodeDocument d) v s)"

text \<open>An edit returns what its closure leaves in the variables it captured, and the new document, or \<open>None\<close> to skip the write.\<close>

fun mutate_loop ::
    "'s cond_ops \<Rightarrow> string \<Rightarrow> (nat \<Rightarrow> 's \<Rightarrow> 's) \<Rightarrow> (nat \<Rightarrow> document \<Rightarrow> 'o \<times> document option) \<Rightarrow> nat \<Rightarrow> nat \<Rightarrow> 'o \<Rightarrow> 's \<Rightarrow>
     cas_error option \<times> 'o \<times> 's" where
  "mutate_loop ops key env edit i 0 out s = (Some CasExhausted, out, s)"
| "mutate_loop ops key env edit i (Suc n) out s =
     (let s = env (2 * i) s
      in case mutate_read ops key s of
           Inl e \<Rightarrow> (Some e, out, s)
         | Inr (d, ver) \<Rightarrow>
             (case edit i d of
                (out, None) \<Rightarrow> (None, out, s)
              | (out, Some d) \<Rightarrow>
                  (case mutate_write ops key d ver (env (2 * i + 1) s) of
                     (Inr _, s) \<Rightarrow> (None, out, s)
                   | (Inl e, s) \<Rightarrow>
                       if e \<noteq> ErrPrecondition then (Some (CasStore e), out, s)
                       else mutate_loop ops key env edit (Suc i) n out s)))"

definition mutate ::
    "'s cond_ops \<Rightarrow> string \<Rightarrow> (nat \<Rightarrow> 's \<Rightarrow> 's) \<Rightarrow> (nat \<Rightarrow> document \<Rightarrow> 'o \<times> document option) \<Rightarrow> 'o \<Rightarrow> 's \<Rightarrow>
     cas_error option \<times> 'o \<times> 's" where
  "mutate ops key env edit out s = mutate_loop ops key env edit 0 casAttempts out s"

section \<open>Renewal\<close>

definition stepDown :: "('s, 'h) Coordinator \<Rightarrow> ('s, 'h) Coordinator" where
  "stepDown c = c\<lparr>cr_displaced := True\<rparr>"

text \<open>The closure of a renewal: it leaves \<^verbatim>\<open>displaced\<close> and \<^verbatim>\<open>addedInc\<close>.\<close>

definition renew_edit ::
    "Node \<Rightarrow> u32 \<Rightarrow> string \<Rightarrow> (nat \<Rightarrow> Role) \<Rightarrow> (nat \<Rightarrow> bytes) \<Rightarrow> nat \<Rightarrow> document \<Rightarrow> (bool \<times> string) \<times> document option" where
  "renew_edit self declared selfInc rolesAt rand i d =
     (case doc_find (node_ID self) d of
        Some k \<Rightarrow>
          if dr_Inc (d ! k) \<noteq> selfInc then ((True, []), None)
          else ((False, []), Some (d[k := (d ! k)\<lparr>dr_LeaseGen := dr_LeaseGen (d ! k) + 1, dr_Roles := rolesAt i\<rparr>]))
      | None \<Rightarrow>
          (let addedInc = newInc (rand i)
           in ((False, addedInc),
               Some (upsert \<lparr>dr_ID = node_ID self, dr_Addr = node_Addr self, dr_Roles = rolesAt i, dr_DeclaredUnitCount = declared,
                             dr_LeaseGen = 1, dr_Inc = addedInc\<rparr> d))))"

definition renewOnce ::
    "'s cond_ops \<Rightarrow> (nat \<Rightarrow> 's \<Rightarrow> 's) \<Rightarrow> (nat \<Rightarrow> Role) \<Rightarrow> (nat \<Rightarrow> bytes) \<Rightarrow> ('s, 'h) Coordinator \<Rightarrow> 's \<Rightarrow>
     cas_error option \<times> ('s, 'h) Coordinator \<times> 's" where
  "renewOnce ops env rolesAt rand c s =
     (if cr_displaced c then (Some ErrDisplaced, c, s)
      else
        (case mutate ops (cc_Key (cr_cfg c)) env (renew_edit (cr_self c) (cr_declaredUnitCount c) (cr_selfInc c) rolesAt rand) (False, []) s of
           (err, (displaced, addedInc), s) \<Rightarrow>
             if displaced then (Some ErrDisplaced, stepDown c, s)
             else case err of
                 Some e \<Rightarrow> (Some e, c\<lparr>cr_renewFail := cr_renewFail c + 1\<rparr>, s)
               | None \<Rightarrow>
                   (None, (if addedInc \<noteq> [] then c\<lparr>cr_selfInc := addedInc\<rparr> else c)
                            \<lparr>cr_renewOK := cr_renewOK c + 1, cr_renewFail := 0\<rparr>, s)))"

text \<open>One tick of \<^verbatim>\<open>runRenewalLoop\<close> and of \<^verbatim>\<open>runPollLoop\<close>.\<close>

definition runRenewalLoop_tick ::
    "'s cond_ops \<Rightarrow> (nat \<Rightarrow> 's \<Rightarrow> 's) \<Rightarrow> (nat \<Rightarrow> Role) \<Rightarrow> (nat \<Rightarrow> bytes) \<Rightarrow> ('s, 'h) Coordinator \<Rightarrow> 's \<Rightarrow> ('s, 'h) Coordinator \<times> 's" where
  "runRenewalLoop_tick ops env rolesAt rand c s =
     (case renewOnce ops env rolesAt rand c s of
        (_, c, s) \<Rightarrow> (if cr_displaced c then c\<lparr>cr_renewLoop := None\<rparr> else c, s))"

section \<open>Polling\<close>

definition pollFailed :: "('s, 'h) Coordinator \<Rightarrow> ('s, 'h) Coordinator" where
  "pollFailed c = c\<lparr>cr_pollFail := cr_pollFail c + 1\<rparr>"

definition pollOnce ::
    "'h consistent \<Rightarrow> (string list \<Rightarrow> string list) \<Rightarrow> 's cond_ops \<Rightarrow> (nat \<Rightarrow> 's \<Rightarrow> 's) \<Rightarrow> ('s, 'h) Coordinator \<Rightarrow> 's \<Rightarrow> ('s, 'h) Coordinator \<times> 's" where
  "pollOnce lib iter ops env c s =
     (if cr_displaced c then (c, s)
      else
        (let s = env 0 s
         in case co_Get ops (cc_Key (cr_cfg c)) s of
              Inl _ \<Rightarrow> (pollFailed c, s)
            | Inr (data, ver) \<Rightarrow>
                (case decodeDocument data of
                   Inl _ \<Rightarrow> (pollFailed c, s)
                 | Inr d \<Rightarrow> observe lib iter ops (env 1) d ver (c\<lparr>cr_pollOK := cr_pollOK c + 1, cr_pollFail := 0\<rparr>) s)))"

definition runPollLoop_tick ::
    "'h consistent \<Rightarrow> (string list \<Rightarrow> string list) \<Rightarrow> 's cond_ops \<Rightarrow> (nat \<Rightarrow> 's \<Rightarrow> 's) \<Rightarrow> ('s, 'h) Coordinator \<Rightarrow> 's \<Rightarrow> ('s, 'h) Coordinator \<times> 's" where
  "runPollLoop_tick lib iter ops env c s =
     (if cr_displaced c then (c\<lparr>cr_pollLoop := None\<rparr>, s) else pollOnce lib iter ops env c s)"

section \<open>Queries\<close>

definition cas_View :: "('s, 'h) Coordinator \<Rightarrow> View" where
  "cas_View c = sn_view (cr_snap c)"

definition Populated :: "('s, 'h) Coordinator \<Rightarrow> bool" where
  "Populated c \<longleftrightarrow> length (vw_Members (sn_view (cr_snap c))) > 0"

definition PlacementMembers :: "('s, 'h) Coordinator \<Rightarrow> Node list" where
  "PlacementMembers c = map cm_Node (vw_Members (sn_view (cr_snap c)))"

definition TransitionSets :: "('s, 'h) Coordinator \<Rightarrow> NodeID list \<times> NodeID list" where
  "TransitionSets c =
     (let ms = vw_Members (sn_view (cr_snap c))
      in (map (node_ID \<circ> cm_Node) (filter Member_Joining ms), map (node_ID \<circ> cm_Node) (filter Member_Draining ms)))"

fun join_with :: "string \<Rightarrow> string list \<Rightarrow> string" where
  "join_with sep [] = []"
| "join_with sep [x] = x"
| "join_with sep (x # y # xs) = x @ sep @ join_with sep (y # xs)"

text \<open>An exclusion set is a list without duplicates, in the order the runtime ranges over it.\<close>

definition excludeKey :: "NodeID list \<Rightarrow> string" where
  "excludeKey exclude = join_with [CHR 0x00] (sort exclude)"

definition reducedRing ::
    "'h consistent \<Rightarrow> (string list \<Rightarrow> string list) \<Rightarrow> 'h snapshot \<Rightarrow> NodeID list \<Rightarrow> ('s, 'h) Coordinator \<Rightarrow> 'h Ring \<times> ('s, 'h) Coordinator" where
  "reducedRing lib iter s exclude c =
     (let key = excludeKey exclude; epoch = vw_Epoch (sn_view s);
          r = ring_of lib iter (filter (\<lambda>m. node_ID (cm_Node m) \<notin> set exclude) (vw_Members (sn_view s)));
          built = (r, c\<lparr>cr_reduced := Some (key, epoch, r)\<rparr>)
      in case cr_reduced c of
           None \<Rightarrow> built
         | Some (reducedKey, reducedEpoch, reduced) \<Rightarrow> if reducedKey = key \<and> reducedEpoch = epoch then (reduced, c) else built)"

definition cas_Locate ::
    "'h consistent \<Rightarrow> (string list \<Rightarrow> string list) \<Rightarrow> GenUnit \<Rightarrow> int \<Rightarrow> NodeID list \<Rightarrow> ('s, 'h) Coordinator \<Rightarrow> Node list \<times> ('s, 'h) Coordinator" where
  "cas_Locate lib iter u n exclude c =
     (if n \<le> 0 then ([], c)
      else case sn_ring (cr_snap c) of
          None \<Rightarrow> ([], c)
        | Some r \<Rightarrow>
            (let (r, c) = (if length exclude > 0 then reducedRing lib iter (cr_snap c) exclude c else (r, c))
             in if length exclude > 0 \<and> Empty r then ([], c)
                else (map (\<lambda>m. Node (mb_ID m) (mb_Addr m)) (LocateKeyN lib r (GenUnitBytes u) n), c)))"

section \<open>Roles and close\<close>

definition role_edit :: "NodeID \<Rightarrow> (nat \<Rightarrow> Role) \<Rightarrow> nat \<Rightarrow> document \<Rightarrow> unit \<times> document option" where
  "role_edit self rolesAt i d =
     ((), case doc_find self d of
            None \<Rightarrow> None
          | Some k \<Rightarrow> if dr_Roles (d ! k) = rolesAt i then None else Some (d[k := (d ! k)\<lparr>dr_Roles := rolesAt i\<rparr>]))"

definition SetRole ::
    "'s cond_ops \<Rightarrow> (nat \<Rightarrow> 's \<Rightarrow> 's) \<Rightarrow> (nat \<Rightarrow> Role) \<Rightarrow> Role \<Rightarrow> ('s, 'h) Coordinator \<Rightarrow> 's \<Rightarrow>
     cas_error option \<times> ('s, 'h) Coordinator \<times> 's" where
  "SetRole ops env rolesAt want c s =
     (if cr_displaced c then (Some ErrDisplaced, c, s)
      else if cr_roles c = want \<or> \<not> cr_started c then (None, c\<lparr>cr_roles := want\<rparr>, s)
      else
        (case mutate ops (cc_Key (cr_cfg c)) env (role_edit (node_ID (cr_self c)) rolesAt) () s of
           (err, _, s) \<Rightarrow> (err, c\<lparr>cr_roles := want\<rparr>, s)))"

definition leave_edit :: "NodeID \<Rightarrow> nat \<Rightarrow> document \<Rightarrow> unit \<times> document option" where
  "leave_edit self i d =
     ((), case doc_find self d of None \<Rightarrow> None | Some k \<Rightarrow> Some (take k d @ drop (Suc k) d))"

definition cas_Close :: "'s cond_ops \<Rightarrow> (nat \<Rightarrow> 's \<Rightarrow> 's) \<Rightarrow> ('s, 'h) Coordinator \<Rightarrow> 's \<Rightarrow> ('s, 'h) Coordinator \<times> 's" where
  "cas_Close ops env c s =
     (if cr_closed c then (c, s)
      else
        (let c = c\<lparr>cr_closed := True, cr_renewLoop := None, cr_pollLoop := None\<rparr>
         in if cr_started c \<and> \<not> cr_hardStopped c \<and> \<not> cr_displaced c
            then (case mutate ops (cc_Key (cr_cfg c)) env (leave_edit (node_ID (cr_self c))) () s of (_, _, s) \<Rightarrow> (c, s))
            else (c, s)))"

definition TestingShutdownNoLeave :: "('s, 'h) Coordinator \<Rightarrow> ('s, 'h) Coordinator" where
  "TestingShutdownNoLeave c = c\<lparr>cr_hardStopped := True, cr_renewLoop := None, cr_pollLoop := None\<rparr>"

section \<open>The wire form is lossless\<close>

lemma row_names:
  "fold_name ''id'' = ''ID''" "fold_name ''addr'' = ''ADDR''" "fold_name ''roles'' = ''ROLES''"
  "fold_name ''declaredUnitCount'' = ''DECLAREDUNITCOUNT''" "fold_name ''leaseGen'' = ''LEASEGEN''" "fold_name ''inc'' = ''INC''"
  "fold_name ''members'' = ''MEMBERS''"
  by code_simp+

lemma dec_row_json: "dec_row (row_json r) = Some r"
proof -
  have u: "unat (dr_Roles r) < 2 ^ 8" "unat (dr_DeclaredUnitCount r) < 2 ^ 32" "unat (dr_LeaseGen r) < 2 ^ 64"
    using unsigned_less [of "dr_Roles r"] unsigned_less [of "dr_DeclaredUnitCount r"] unsigned_less [of "dr_LeaseGen r"] by simp_all
  obtain ms where ms: "row_json r = JObj ms" by (simp add: row_json_def)
  note eval = json_field_simps row_names dec_string_def
  have "json_field dec_string ''id'' [] ms = Some (dr_ID r)" "json_field dec_string ''addr'' [] ms = Some (dr_Addr r)"
    "json_field (dec_uint 8) ''roles'' 0 ms = Some (unat (dr_Roles r))"
    "json_field (dec_uint 32) ''declaredUnitCount'' 0 ms = Some (unat (dr_DeclaredUnitCount r))"
    "json_field (dec_uint 64) ''leaseGen'' 0 ms = Some (unat (dr_LeaseGen r))" "json_field dec_string ''inc'' [] ms = Some (dr_Inc r)"
    using ms u unfolding row_json_def json.inject
    by (auto simp: eval simp del: json_field.simps(2) fold_name.simps)
  then show ?thesis by (simp add: dec_row_def ms dec_struct_def)
qed

lemma dec_rows_json: "dec_rows (map row_json d) = Some d"
  by (induction d) (simp_all add: dec_row_json)

lemma decode_encode: "decodeDocument (encodeDocument d) = Inr (sorted_rows d)"
proof -
  let ?j = "JObj [(''members'', JArr (map row_json (sorted_rows d)))]"
  have "wf_json (row_json r)" for r by (simp add: row_json_def)
  then have "json_parse (json_print ?j) = Some ?j" by (intro json_parse_print) (simp add: list_all_iff)
  then show ?thesis
    by (simp add: decodeDocument_def encodeDocument_def dec_struct_def dec_members_def dec_rows_json row_names
        del: fold_name.simps)
qed

section \<open>One edit is one atomic replacement\<close>

definition rows_of :: "NodeID \<Rightarrow> document \<Rightarrow> document" where
  "rows_of i d = filter (\<lambda>r. dr_ID r = i) d"

lemma rows_of_sorted [simp]: "rows_of i (sorted_rows d) = rows_of i d"
  by (simp add: rows_of_def sorted_rows_def sort_key_stable)

lemma sorted_rows_sorted [simp]: "sorted (map dr_ID (sorted_rows d))" "sorted_rows (sorted_rows d) = sorted_rows d"
  by (simp_all add: sorted_rows_def sort_key_id_if_sorted)

text \<open>The document \<open>d\<close> of \<open>s\<close> is replaced by \<open>d'\<close>, and nothing else changes.\<close>

definition doc_replaced :: "'s cond_ops \<Rightarrow> string \<Rightarrow> document \<Rightarrow> document \<Rightarrow> 's \<Rightarrow> 's \<Rightarrow> bool" where
  "doc_replaced ops key d d' s s' \<longleftrightarrow>
     (\<exists>v. mutate_read ops key s = Inr (d, v)) \<and> (\<exists>v. mutate_read ops key s' = Inr (sorted_rows d', v)) \<and>
     (\<forall>k. k \<noteq> key \<longrightarrow> co_Get ops k s' = co_Get ops k s)"

lemma mutate_read_Some:
  "mutate_read ops key s = Inr (d, Some v) \<longleftrightarrow> (\<exists>data. co_Get ops key s = Inr (data, v) \<and> decodeDocument data = Inr d)"
  by (auto simp: mutate_read_def split: sum.splits if_splits)

lemma mutate_read_None: "mutate_read ops key s = Inr (d, None) \<longleftrightarrow> co_Get ops key s = Inl ErrCondNotFound \<and> d = []"
  by (auto simp: mutate_read_def split: sum.splits if_splits)

context cond_store
begin

lemma mutate_write_ok:
  assumes "inv s" "length cs < room s" "mutate_read ops key s = Inr (d, ver)"
    and "mutate_write ops key d' ver (cond_run ops cs s) = (Inr w, s')"
  shows "doc_replaced ops key d d' (cond_run ops cs s) s'"
proof -
  let ?t = "cond_run ops cs s"
  from run_room [of s cs] assms(1,2) have t: "inv ?t" "0 < room ?t" by auto
  have "(\<exists>v. mutate_read ops key ?t = Inr (d, v)) \<and> cond_written ops issued key (encodeDocument d') w ?t s'"
  proof (cases ver)
    case None
    with assms(4) have "co_PutIfAbsent ops key (encodeDocument d') ?t = (Inr w, s')" by (simp add: mutate_write_def)
    from put_ok [OF this t] None assms(3) have "mutate_read ops key ?t = Inr (d, None)" by (simp add: mutate_read_None)
    with put_ok [OF \<open>co_PutIfAbsent ops key (encodeDocument d') ?t = (Inr w, s')\<close> t] show ?thesis by blast
  next
    case (Some v)
    with assms(3) obtain data where data: "co_Get ops key s = Inr (data, v)" "decodeDocument data = Inr d"
      by (auto simp: mutate_read_Some)
    from Some assms(4) have c: "co_CompareAndSet ops key (encodeDocument d') v ?t = (Inr w, s')" by (simp add: mutate_write_def)
    from cas_no_lost_update [OF assms(1,2) data(1) c] have "co_Get ops key (cond_run ops (take (length cs) cs) s) = Inr (data, v)"
      by blast
    with data(2) have "mutate_read ops key ?t = Inr (d, Some v)" by (simp add: mutate_read_Some)
    with cas_ok [OF c t] show ?thesis by blast
  qed
  then show ?thesis
    using mutate_read_Some [of ops key s' "sorted_rows d'" w] by (auto simp: doc_replaced_def cond_written_def decode_encode)
qed

lemma mutate_write_error: "mutate_write ops key d ver s = (Inl e, s') \<Longrightarrow> s' = s"
  by (auto simp: mutate_write_def split: option.splits dest: put_error cas_error)

lemma mutate_loop_cases:
  assumes "inv s" "(\<Sum>k\<leftarrow>[2 * i..<2 * (i + n)]. length (cs k)) < room s"
    and "mutate_loop ops key (env_ops ops cs) edit i n out s = (err, out', s')"
  shows "err = None \<and> (\<exists>j d v. i \<le> j \<and> j < i + n \<and> edit j d = (out', None) \<and> mutate_read ops key s' = Inr (d, v) \<and>
      s' = fold (env_ops ops cs) [2 * i..<2 * j + 1] s) \<or>
    err = None \<and> (\<exists>j d d'. i \<le> j \<and> j < i + n \<and> edit j d = (out', Some d') \<and>
      doc_replaced ops key d d' (fold (env_ops ops cs) [2 * i..<2 * j + 2] s) s') \<or>
    err \<noteq> None \<and> (\<exists>k. s' = fold (env_ops ops cs) [2 * i..<2 * i + k] s) \<and> (out' = out \<or> (\<exists>j d d'. edit j d = (out', Some d')))"
  using assms
proof (induction n arbitrary: i out s)
  case 0
  then show ?case by (auto intro: exI [of _ 0])
next
  case (Suc n)
  let ?E = "env_ops ops cs" and ?s1 = "env_ops ops cs (2 * i) s"
  let ?s2 = "?E (2 * i + 1) ?s1" and ?m = "\<Sum>k\<leftarrow>[2 * Suc i..<2 * (Suc i + n)]. length (cs k)"
  have upt: "[2 * i..<2 * (i + Suc n)] = 2 * i # (2 * i + 1) # [2 * Suc i..<2 * (Suc i + n)]" by (simp add: upt_rec)
  from Suc.prems(2) have "length (cs (2 * i)) + (length (cs (2 * i + 1)) + ?m) < room s" unfolding upt by simp
  from env_run_room [where cs = cs, OF Suc.prems(1) this] have s1: "inv ?s1" "length (cs (2 * i + 1)) + ?m < room ?s1" by auto
  from env_run_room [where cs = cs, OF s1] have s2: "inv ?s2" "?m < room ?s2" by auto
  have f1: "fold ?E [2 * i..<2 * i + 1] s = ?s1" and f2: "fold ?E [2 * i..<2 * i + 2] s = ?s2" by (simp_all add: upt_rec)
  show ?case
  proof (cases "mutate_read ops key ?s1")
    case (Inl e)
    with Suc.prems(3) f1 show ?thesis by (auto simp: Let_def intro: exI [of _ 1])
  next
    case (Inr x)
    then obtain d ver where r: "mutate_read ops key ?s1 = Inr (d, ver)" by (cases x) simp
    obtain o1 q where e: "edit i d = (o1, q)" by fastforce
    show ?thesis
    proof (cases q)
      case None
      with Suc.prems(3) r e have "err = None" "out' = o1" "s' = ?s1" by (auto simp: Let_def)
      with r e None f1 show ?thesis by (intro disjI1 conjI exI [of _ i] exI [of _ d]) auto
    next
      case (Some d')
      obtain p t where w: "mutate_write ops key d' ver ?s2 = (p, t)" by fastforce
      show ?thesis
      proof (cases p)
        case (Inr v)
        with Suc.prems(3) r e Some w have out: "err = None" "out' = o1" "s' = t" by (auto simp: Let_def)
        have "length (cs (2 * i + 1)) < room ?s1" using s1(2) by simp
        from mutate_write_ok [OF s1(1) this r, of d' v t] w Inr
        have "doc_replaced ops key d d' ?s2 t" by (simp add: env_ops_def)
        with out e Some f2 show ?thesis by (intro disjI2 disjI1 conjI exI [of _ i] exI [of _ d] exI [of _ d']) auto
      next
        case (Inl e')
        with w have t: "t = ?s2" using mutate_write_error by blast
        show ?thesis
        proof (cases "e' = ErrPrecondition")
          case False
          with Suc.prems(3) r e Some w Inl t have "err = Some (CasStore e')" "out' = o1" "s' = ?s2" by (auto simp: Let_def)
          moreover from this f2 have "\<exists>k. s' = fold ?E [2 * i..<2 * i + k] s" by metis
          moreover have "\<exists>j d d'. edit j d = (o1, Some d')" using e Some by blast
          ultimately show ?thesis by blast
        next
          case True
          with Suc.prems(3) r e Some w Inl t
          have l: "mutate_loop ops key ?E edit (Suc i) n o1 ?s2 = (err, out', s')" by (simp add: Let_def)
          have two: "fold ?E [2 * i..<2 * j + k] s = fold ?E [2 * Suc i..<2 * j + k] ?s2" if "Suc i \<le> j" for j k
            using fold_env_two [OF that] by simp
          have m2: "fold ?E [2 * Suc i..<2 * Suc i + k] ?s2 = fold ?E [2 * i..<2 * i + (k + 2)] s" for k
            using two [of "Suc i" k] by (simp add: add.commute)
          show ?thesis
            using Suc.IH [OF s2 l]
          proof (elim disjE conjE exE)
            fix j d v assume "err = None" "Suc i \<le> j" "j < Suc i + n" "edit j d = (out', None)" "mutate_read ops key s' = Inr (d, v)"
              "s' = fold ?E [2 * Suc i..<2 * j + 1] ?s2"
            then show ?thesis using two [of j 1] by (intro disjI1 conjI exI [of _ j] exI [of _ d] exI [of _ v]) auto
          next
            fix j d d' assume "err = None" "Suc i \<le> j" "j < Suc i + n" "edit j d = (out', Some d')"
              "doc_replaced ops key d d' (fold ?E [2 * Suc i..<2 * j + 2] ?s2) s'"
            then show ?thesis using two [of j 2] by (intro disjI2 disjI1 conjI exI [of _ j] exI [of _ d] exI [of _ d']) auto
          next
            fix k assume k: "err \<noteq> None" "s' = fold ?E [2 * Suc i..<2 * Suc i + k] ?s2" "out' = o1"
            then have "\<exists>k. s' = fold ?E [2 * i..<2 * i + k] s" using m2 [of k] by metis
            moreover have "\<exists>j d d'. edit j d = (out', Some d')" using e Some k(3) by blast
            ultimately show ?thesis using k(1) by blast
          next
            fix k j d d' assume k: "err \<noteq> None" "s' = fold ?E [2 * Suc i..<2 * Suc i + k] ?s2" "edit j d = (out', Some d')"
            then have "\<exists>k. s' = fold ?E [2 * i..<2 * i + k] s" using m2 [of k] by metis
            with k(1,3) show ?thesis by blast
          qed
        qed
      qed
    qed
  qed
qed

end

section \<open>Edits touch the editor's own row only\<close>

lemma doc_find_Some:
  "doc_find i d = Some k \<Longrightarrow> \<exists>a x b. d = a @ x # b \<and> length a = k \<and> dr_ID x = i \<and> rows_of i a = []"
proof (induction d arbitrary: k)
  case Nil
  then show ?case by simp
next
  case (Cons r d)
  show ?case
  proof (cases "dr_ID r = i")
    case True
    with Cons.prems show ?thesis by (intro exI [of _ "[]"] exI [of _ r] exI [of _ d]) (simp add: rows_of_def)
  next
    case False
    with Cons.prems obtain k' where k: "k = Suc k'" "doc_find i d = Some k'" by auto
    from Cons.IH [OF k(2)] obtain a x b where "d = a @ x # b" "length a = k'" "dr_ID x = i" "rows_of i a = []" by blast
    with False k(1) show ?thesis by (intro exI [of _ "r # a"] exI [of _ x] exI [of _ b]) (simp add: rows_of_def)
  qed
qed

lemma doc_find_None: "doc_find i d = None \<longleftrightarrow> rows_of i d = []"
  by (induction d) (auto simp: rows_of_def)

lemma doc_find_rows:
  assumes "doc_find i d = Some k"
  shows "rows_of i d = d ! k # tl (rows_of i d)"
    and "dr_ID r = i \<Longrightarrow> rows_of j (d[k := r]) = (if j = i then r # tl (rows_of i d) else rows_of j d)"
    and "rows_of j (take k d @ drop (Suc k) d) = (if j = i then tl (rows_of i d) else rows_of j d)"
    and "dr_ID (d ! k) = i"
proof -
  obtain a x b where ab: "d = a @ x # b" "length a = k" "dr_ID x = i" "rows_of i a = []" using doc_find_Some [OF assms] by blast
  have a: "filter (\<lambda>r. dr_ID r = i) a = []" using ab(4) by (simp add: rows_of_def)
  show "rows_of i d = d ! k # tl (rows_of i d)" "dr_ID (d ! k) = i" using ab(2,3) a by (auto simp: ab(1) rows_of_def)
  show "rows_of j (d[k := r]) = (if j = i then r # tl (rows_of i d) else rows_of j d)" if "dr_ID r = i"
    using ab(2,3) a that by (auto simp: ab(1) rows_of_def list_update_append)
  show "rows_of j (take k d @ drop (Suc k) d) = (if j = i then tl (rows_of i d) else rows_of j d)"
    using ab(2,3) a by (auto simp: ab(1) rows_of_def)
qed

lemma rows_of_upsert:
  "rows_of j (upsert row d) =
     (if j \<noteq> dr_ID row then rows_of j d
      else case rows_of j d of
          [] \<Rightarrow> [row]
        | r # rest \<Rightarrow> (if dr_LeaseGen r \<ge> dr_LeaseGen row then row\<lparr>dr_LeaseGen := dr_LeaseGen r + 1\<rparr> else row) # rest)"
proof (cases "doc_find (dr_ID row) d")
  case None
  then show ?thesis using doc_find_None [of "dr_ID row" d] by (auto simp: upsert_def rows_of_def)
next
  case (Some k)
  let ?row = "if dr_LeaseGen (d ! k) \<ge> dr_LeaseGen row then row\<lparr>dr_LeaseGen := dr_LeaseGen (d ! k) + 1\<rparr> else row"
  have u: "upsert row d = d[k := ?row]" using Some by (simp add: upsert_def Let_def)
  have "dr_ID ?row = dr_ID row" by simp
  with doc_find_rows(2) [OF Some, of ?row j]
  have "rows_of j (d[k := ?row]) = (if j = dr_ID row then ?row # tl (rows_of (dr_ID row) d) else rows_of j d)" by simp
  moreover obtain rest where "rows_of (dr_ID row) d = d ! k # rest" using doc_find_rows(1) [OF Some] by blast
  ultimately show ?thesis unfolding u by (cases "j = dr_ID row") simp_all
qed

lemma mutate_error: "mutate_loop ops key env edit i n out s = (Some e, r) \<Longrightarrow> e \<noteq> ErrDisplaced"
proof (induction n arbitrary: i out s)
  case 0
  then show ?case by auto
next
  case (Suc n)
  have "mutate_read ops key t = Inl x \<Longrightarrow> x \<noteq> ErrDisplaced" for t x
    by (auto simp: mutate_read_def decodeDocument_def split: sum.splits if_splits option.splits)
  with Suc show ?case by (auto simp: Let_def split: sum.splits prod.splits option.splits if_splits)
qed

text \<open>What one call leaves in the store. Nothing of its own: only other clients' operations happened.\<close>

definition only_others :: "'s cond_ops \<Rightarrow> (nat \<Rightarrow> cond_op list) \<Rightarrow> 's \<Rightarrow> 's \<Rightarrow> bool" where
  "only_others ops cs s s' \<longleftrightarrow> (\<exists>ks. s' = fold (env_ops ops cs) ks s)"

text \<open>One edit of its own: at one moment, with the other clients' operations before it, the document \<open>d\<close> was replaced by \<open>d'\<close>; every
  other member's rows are the same in both, and the editor's rows changed as \<open>P\<close> says.\<close>

definition own_edit ::
    "'s cond_ops \<Rightarrow> string \<Rightarrow> NodeID \<Rightarrow> (document \<Rightarrow> document \<Rightarrow> bool) \<Rightarrow> (nat \<Rightarrow> cond_op list) \<Rightarrow> 's \<Rightarrow> 's \<Rightarrow> bool" where
  "own_edit ops key self P cs s s' \<longleftrightarrow>
     (\<exists>ks d d'. doc_replaced ops key d d' (fold (env_ops ops cs) ks s) s' \<and>
        (\<forall>i. i \<noteq> self \<longrightarrow> rows_of i d' = rows_of i d) \<and> P (rows_of self d) (rows_of self d'))"

text \<open>The three edits on the editor's rows.\<close>

definition renewed_rows :: "('s, 'h) Coordinator \<Rightarrow> ('s, 'h) Coordinator \<Rightarrow> Role set \<Rightarrow> document \<Rightarrow> document \<Rightarrow> bool" where
  "renewed_rows c c' roles old new \<longleftrightarrow>
     (\<exists>r rest. old = r # rest \<and> dr_Inc r = cr_selfInc c \<and> cr_selfInc c' = cr_selfInc c \<and>
        (\<exists>ro\<in>roles. new = r\<lparr>dr_LeaseGen := dr_LeaseGen r + 1, dr_Roles := ro\<rparr> # rest)) \<or>
     (old = [] \<and> (\<exists>ro\<in>roles. new = [(self_row c)\<lparr>dr_Roles := ro, dr_LeaseGen := 1, dr_Inc := cr_selfInc c'\<rparr>]))"

definition role_rows :: "Role set \<Rightarrow> document \<Rightarrow> document \<Rightarrow> bool" where
  "role_rows roles old new \<longleftrightarrow> (\<exists>r rest. old = r # rest \<and> (\<exists>ro\<in>roles. new = r\<lparr>dr_Roles := ro\<rparr> # rest))"

definition left_rows :: "document \<Rightarrow> document \<Rightarrow> bool" where
  "left_rows old new \<longleftrightarrow> (\<exists>r. old = r # new)"

context cond_store
begin

lemma mutate_cases:
  assumes "inv s" "(\<Sum>k\<leftarrow>[0..<2 * casAttempts]. length (cs k)) < room s"
    and "mutate ops key (env_ops ops cs) edit out s = (err, out', s')"
  shows "err = None \<and> (\<exists>j d v. edit j d = (out', None) \<and> mutate_read ops key s' = Inr (d, v) \<and> only_others ops cs s s') \<or>
    err = None \<and> (\<exists>j d d' ks. edit j d = (out', Some d') \<and> doc_replaced ops key d d' (fold (env_ops ops cs) ks s) s') \<or>
    err \<noteq> None \<and> only_others ops cs s s' \<and> (out' = out \<or> (\<exists>j d d'. edit j d = (out', Some d')))"
proof -
  note c = mutate_loop_cases [where i = 0 and n = casAttempts, unfolded mult_0_right add_0, OF assms(1,2) assms(3) [unfolded mutate_def]]
  then show ?thesis unfolding only_others_def by blast
qed

lemma renew_local:
  assumes "inv s" "(\<Sum>k\<leftarrow>[0..<2 * casAttempts]. length (cs k)) < room s" "\<forall>i. rand i \<noteq> []"
    and "renewOnce ops (env_ops ops cs) rolesAt rand c s = (err, c', s')"
  shows "(err = None \<longrightarrow> own_edit ops (cc_Key (cr_cfg c)) (node_ID (cr_self c)) (renewed_rows c c' (range rolesAt)) cs s s') \<and>
    (err \<noteq> None \<longrightarrow> only_others ops cs s s') \<and>
    (cr_displaced c' \<longleftrightarrow> err = Some ErrDisplaced) \<and>
    (err = Some ErrDisplaced \<and> \<not> cr_displaced c \<longrightarrow>
       (\<exists>d v r rest. mutate_read ops (cc_Key (cr_cfg c)) s' = Inr (d, v) \<and> rows_of (node_ID (cr_self c)) d = r # rest \<and> dr_Inc r \<noteq> cr_selfInc c))"
proof (cases "cr_displaced c")
  case True
  with assms(4) show ?thesis by (auto simp: renewOnce_def only_others_def intro: exI [of _ "[]"])
next
  case False
  let ?key = "cc_Key (cr_cfg c)" and ?self = "node_ID (cr_self c)"
  let ?edit = "renew_edit (cr_self c) (cr_declaredUnitCount c) (cr_selfInc c) rolesAt rand"
  obtain e dis inc t where m: "mutate ops ?key (env_ops ops cs) ?edit (False, []) s = (e, (dis, inc), t)"
    by (cases "mutate ops ?key (env_ops ops cs) ?edit (False, []) s") auto
  have t: "s' = t" using assms(4) False m by (auto simp: renewOnce_def split: if_splits option.splits)
  have wrote: "\<not> dis \<and> (\<forall>i. i \<noteq> ?self \<longrightarrow> rows_of i d' = rows_of i d) \<and>
      (e = None \<longrightarrow> renewed_rows c c' (range rolesAt) (rows_of ?self d) (rows_of ?self d'))" if ed: "?edit j d = ((dis, inc), Some d')" for j d d'
  proof (cases "doc_find ?self d")
    case None
    with ed have d': "\<not> dis" "inc = newInc (rand j)" "d' = upsert ((self_row c)\<lparr>dr_Roles := rolesAt j, dr_LeaseGen := 1, dr_Inc := inc\<rparr>) d"
      by (auto simp: renew_edit_def Let_def self_row_def)
    have n: "inc \<noteq> []" using assms(3) d'(2) by (cases "rand j") (auto simp: newInc_def)
    have "cr_selfInc c' = inc" if "e = None"
      using assms(4) False m d'(1) n that by (auto simp: renewOnce_def)
    with None d' doc_find_None [of ?self d] show ?thesis
      by (auto simp: rows_of_upsert renewed_rows_def self_row_def)
  next
    case (Some k)
    note dr = doc_find_rows [OF Some]
    from ed Some have d': "\<not> dis" "inc = []" "dr_Inc (d ! k) = cr_selfInc c"
      "d' = d[k := (d ! k)\<lparr>dr_LeaseGen := dr_LeaseGen (d ! k) + 1, dr_Roles := rolesAt j\<rparr>]"
      by (auto simp: renew_edit_def split: if_splits)
    have "cr_selfInc c' = cr_selfInc c" if "e = None"
      using assms(4) False m d'(1,2) that by (auto simp: renewOnce_def)
    with d' dr show ?thesis unfolding renewed_rows_def by auto
  qed
  have skipped: "dis \<and> (\<exists>r rest. rows_of ?self d = r # rest \<and> dr_Inc r \<noteq> cr_selfInc c)" if "?edit j d = ((dis, inc), None)" for j d
    using that doc_find_rows(1) [of ?self d] by (auto simp: renew_edit_def Let_def split: option.splits if_splits)
  consider (skip) j d v where "e = None" "?edit j d = ((dis, inc), None)" "mutate_read ops ?key t = Inr (d, v)" "only_others ops cs s t"
    | (edited) j d d' ks where "e = None" "?edit j d = ((dis, inc), Some d')" "doc_replaced ops ?key d d' (fold (env_ops ops cs) ks s) t"
    | (fail) "e \<noteq> None" "only_others ops cs s t" "\<not> dis"
    using mutate_cases [OF assms(1,2) m] wrote by fastforce
  then show ?thesis
  proof cases
    case skip
    with skipped [OF skip(2)] have "err = Some ErrDisplaced" "c' = stepDown c"
      using assms(4) False m by (auto simp: renewOnce_def)
    with skip skipped [OF skip(2)] t show ?thesis by (auto simp: stepDown_def)
  next
    case edited
    with wrote [OF edited(2)] have "err = None" "\<not> cr_displaced c'"
      using assms(4) False m by (auto simp: renewOnce_def split: if_splits)
    with edited wrote [OF edited(2)] t show ?thesis by (auto simp: own_edit_def)
  next
    case fail
    then have "err = e" "\<not> cr_displaced c'" using assms(4) False m by (auto simp: renewOnce_def)
    moreover have "e \<noteq> Some ErrDisplaced" using mutate_error m unfolding mutate_def by metis
    ultimately show ?thesis using fail t by auto
  qed
qed

lemma role_local:
  assumes "inv s" "(\<Sum>k\<leftarrow>[0..<2 * casAttempts]. length (cs k)) < room s"
    and "SetRole ops (env_ops ops cs) rolesAt want c s = (err, c', s')"
  shows "only_others ops cs s s' \<or>
    err = None \<and> own_edit ops (cc_Key (cr_cfg c)) (node_ID (cr_self c)) (role_rows (range rolesAt)) cs s s'"
proof -
  let ?self = "node_ID (cr_self c)"
  have wrote: "(\<forall>i. i \<noteq> ?self \<longrightarrow> rows_of i d' = rows_of i d) \<and> role_rows (range rolesAt) (rows_of ?self d) (rows_of ?self d')"
    if "role_edit ?self rolesAt j d = (u, Some d')" for j d d' u
  proof -
    from that obtain k where k: "doc_find ?self d = Some k" "d' = d[k := (d ! k)\<lparr>dr_Roles := rolesAt j\<rparr>]"
      by (auto simp: role_edit_def split: option.splits if_splits)
    note dr = doc_find_rows [OF k(1)]
    show ?thesis using k(2) dr unfolding role_rows_def by auto
  qed
  obtain e u t where m: "mutate ops (cc_Key (cr_cfg c)) (env_ops ops cs) (role_edit ?self rolesAt) () s = (e, u, t)" by (rule prod_cases3)
  from assms(3) consider "s' = s" | "err = e" "s' = t" using m by (auto simp: SetRole_def split: if_splits)
  then show ?thesis
  proof cases
    case 1
    then show ?thesis by (auto simp: only_others_def intro: exI [of _ "[]"])
  next
    case 2
    show ?thesis
      using mutate_cases [OF assms(1,2) m] unfolding 2
    proof (elim disjE conjE exE)
      fix j d d' ks
      assume "role_edit ?self rolesAt j d = (u, Some d')" "e = None" "doc_replaced ops (cc_Key (cr_cfg c)) d d' (fold (env_ops ops cs) ks s) t"
      then show "only_others ops cs s t \<or> e = None \<and> own_edit ops (cc_Key (cr_cfg c)) ?self (role_rows (range rolesAt)) cs s t" using wrote [of j d u d'] unfolding own_edit_def by blast
    qed simp_all
  qed
qed

lemma leave_local:
  assumes "inv s" "(\<Sum>k\<leftarrow>[0..<2 * casAttempts]. length (cs k)) < room s"
    and "cas_Close ops (env_ops ops cs) c s = (c', s')"
  shows "only_others ops cs s s' \<or> own_edit ops (cc_Key (cr_cfg c)) (node_ID (cr_self c)) left_rows cs s s'"
proof -
  let ?self = "node_ID (cr_self c)"
  have wrote: "(\<forall>i. i \<noteq> ?self \<longrightarrow> rows_of i d' = rows_of i d) \<and> left_rows (rows_of ?self d) (rows_of ?self d')"
    if "leave_edit ?self j d = (u, Some d')" for j d d' u
  proof -
    from that obtain k where k: "doc_find ?self d = Some k" "d' = take k d @ drop (Suc k) d"
      by (auto simp: leave_edit_def split: option.splits)
    show ?thesis using k(2) doc_find_rows(1,3) [OF k(1)] unfolding left_rows_def by auto
  qed
  obtain e u t where m: "mutate ops (cc_Key (cr_cfg c)) (env_ops ops cs) (leave_edit ?self) () s = (e, u, t)" by (rule prod_cases3)
  from assms(3) consider "s' = s" | "s' = t" using m by (auto simp: cas_Close_def Let_def split: if_splits)
  then show ?thesis
  proof cases
    case 1
    then show ?thesis by (auto simp: only_others_def intro: exI [of _ "[]"])
  next
    case 2
    show ?thesis
      using mutate_cases [OF assms(1,2) m] unfolding 2
    proof (elim disjE conjE exE)
      fix j d d' ks
      assume "leave_edit ?self j d = (u, Some d')" "e = None" "doc_replaced ops (cc_Key (cr_cfg c)) d d' (fold (env_ops ops cs) ks s) t"
      then show "only_others ops cs s t \<or> own_edit ops (cc_Key (cr_cfg c)) ?self left_rows cs s t" using wrote [of j d u d'] unfolding own_edit_def by blast
    qed simp_all
  qed
qed

end

section \<open>Bootstrap\<close>

text \<open>The row a node writes when the document it replaces is \<open>d\<close>: a joiner keeps the roles it asked for.\<close>

definition bootstrap_row :: "Params \<Rightarrow> docRow \<Rightarrow> document \<Rightarrow> docRow" where
  "bootstrap_row p row d = (if d = [] then row else row\<lparr>dr_Roles := pm_InitialRoles p\<rparr>)"

context cond_store
begin

lemma bootstrap_won:
  assumes "inv s" "(\<Sum>k\<leftarrow>[3 * i..<3 * (i + n)]. length (cs k)) < room s"
    and "bootstrap_loop ops key (env_ops ops cs) p row i n s = (Inr (b, doc, ver), s')"
  shows "\<exists>ks d. doc_replaced ops key d (upsert (bootstrap_row p row d) d) (fold (env_ops ops cs) ks s) s' \<and>
    doc = sorted_rows (upsert (bootstrap_row p row d) d) \<and> (b = BootstrapFounded \<longleftrightarrow> d = [])"
  using assms
proof (induction n arbitrary: i s)
  case 0
  then show ?case by simp
next
  case (Suc n)
  let ?E = "env_ops ops cs" and ?m = "\<Sum>k\<leftarrow>[3 * Suc i..<3 * (Suc i + n)]. length (cs k)"
  let ?s1 = "?E (3 * i) s"
  let ?s2 = "?E (3 * i + 1) ?s1"
  let ?s3 = "?E (3 * i + 2) ?s2"
  let ?goal = "\<lambda>s. \<exists>ks d. doc_replaced ops key d (upsert (bootstrap_row p row d) d) (fold ?E ks s) s' \<and>
    doc = sorted_rows (upsert (bootstrap_row p row d) d) \<and> (b = BootstrapFounded \<longleftrightarrow> d = [])"
  have upt: "[3 * i..<3 * (i + Suc n)] = 3 * i # (3 * i + 1) # (3 * i + 2) # [3 * Suc i..<3 * (Suc i + n)]"
    by (simp add: upt_conv_Cons numeral_3_eq_3 del: upt_Suc)
  from Suc.prems(2) have "length (cs (3 * i)) + (length (cs (3 * i + 1)) + (length (cs (3 * i + 2)) + ?m)) < room s"
    unfolding upt by simp
  from env_run_room [where cs = cs, OF Suc.prems(1) this]
  have s1: "inv ?s1" "length (cs (3 * i + 1)) + (length (cs (3 * i + 2)) + ?m) < room ?s1" by auto
  from env_run_room [where cs = cs, OF s1] have s2: "inv ?s2" "length (cs (3 * i + 2)) + ?m < room ?s2" by auto
  from env_run_room [where cs = cs, OF s2] have s3: "inv ?s3" "?m < room ?s3" by auto
  have later: "?goal s" if "?goal (fold ?E ks s)" for ks
  proof -
    from that obtain ks' d where d: "doc_replaced ops key d (upsert (bootstrap_row p row d) d) (fold ?E ks' (fold ?E ks s)) s'"
      "doc = sorted_rows (upsert (bootstrap_row p row d) d)" "b = BootstrapFounded \<longleftrightarrow> d = []" by blast
    have f: "fold ?E ks' (fold ?E ks s) = fold ?E (ks @ ks') s" by simp
    show ?thesis using d unfolding f by blast
  qed
  obtain q t where q: "co_PutIfAbsent ops key (encodeDocument [row]) ?s1 = (q, t)" by fastforce
  show ?case
  proof (cases q)
    case (Inr v)
    with q Suc.prems(3) have r: "b = BootstrapFounded" "doc = [row]" "s' = t" by auto
    have "mutate_write ops key [row] None ?s1 = (Inr v, t)" using q Inr by (simp add: mutate_write_def)
    moreover have "mutate_read ops key ?s1 = Inr ([], None)"
      using put_ok [of key "encodeDocument [row]" ?s1 v t] q Inr s1 by (simp add: mutate_read_None)
    ultimately have "doc_replaced ops key [] [row] ?s1 t"
      using mutate_write_ok [of ?s1 "[]" key "[]" None "[row]" v t] s1 by (simp add: cond_run_def)
    moreover have "upsert (bootstrap_row p row []) [] = [row]" by (simp add: upsert_def bootstrap_row_def)
    ultimately show ?thesis using r by (intro exI [of _ "[3 * i]"] exI [of _ "[]"]) (simp add: sorted_rows_def)
  next
    case (Inl e)
    then have "t = ?s1" using q put_error by blast
    note q = q [unfolded Inl this]
    from Suc.prems(3) q have e: "e = ErrPrecondition" by (auto split: if_splits)
    show ?thesis
    proof (cases "co_Get ops key ?s2")
      case (Inl e')
      with Suc.prems(3) q e have "bootstrap_loop ops key ?E p row (Suc i) n ?s2 = (Inr (b, doc, ver), s')"
        by (auto simp: Let_def split: if_splits)
      moreover have "?m < room ?s2" using s2(2) by simp
      ultimately have "?goal ?s2" using Suc.IH [OF s2(1)] by blast
      then show ?thesis using later [of "[3 * i, 3 * i + 1]"] by simp
    next
      case (Inr x)
      with Suc.prems(3) q e obtain data v d where d: "co_Get ops key ?s2 = Inr (data, v)" "decodeDocument data = Inr d"
        by (cases x) (auto simp: Let_def split: sum.splits)
      let ?new = "upsert (bootstrap_row p row d) d"
      obtain w u where w: "co_CompareAndSet ops key (encodeDocument (sorted_rows ?new)) v ?s3 = (w, u)" by fastforce
      have loop: "bootstrap_loop ops key ?E p row i (Suc n) s =
          (case w of Inr newVer \<Rightarrow> (Inr (if d = [] then BootstrapFounded else BootstrapJoined, sorted_rows ?new, newVer), u)
           | Inl e \<Rightarrow> if e \<noteq> ErrPrecondition then (Inl (CasStore e), u) else bootstrap_loop ops key ?E p row (Suc i) n u)"
        using q e d w by (cases "d = []"; cases w) (simp_all add: Let_def bootstrap_row_def)
      show ?thesis
      proof (cases w)
        case (Inr newVer)
        with loop Suc.prems(3) have r: "b = BootstrapFounded \<longleftrightarrow> d = []" "doc = sorted_rows ?new" "s' = u" by (auto split: if_splits)
        have "encodeDocument (sorted_rows ?new) = encodeDocument ?new" by (simp add: encodeDocument_def)
        with w Inr have "mutate_write ops key ?new (Some v) ?s3 = (Inr newVer, u)" by (simp add: mutate_write_def)
        moreover have "mutate_read ops key ?s2 = Inr (d, Some v)" using d by (simp add: mutate_read_Some)
        ultimately have "doc_replaced ops key d ?new ?s3 u"
          using mutate_write_ok [of ?s2 "cs (3 * i + 2)" key d "Some v" ?new newVer u] s2 by (simp add: env_ops_def)
        then show ?thesis using r by (intro exI [of _ "[3 * i, 3 * i + 1, 3 * i + 2]"] exI [of _ d]) simp
      next
        case (Inl e2)
        then have "u = ?s3" using w cas_error by blast
        with loop Suc.prems(3) Inl have "bootstrap_loop ops key ?E p row (Suc i) n ?s3 = (Inr (b, doc, ver), s')"
          by (auto split: if_splits)
        with Suc.IH [OF s3] have "?goal ?s3" by blast
        then show ?thesis using later [of "[3 * i, 3 * i + 1, 3 * i + 2]"] by simp
      qed
    qed
  qed
qed

end


text \<open>A store with one member's row, and that member's coordinator.\<close>

definition demo_row :: "string \<Rightarrow> docRow" where
  "demo_row inc = \<lparr>dr_ID = ''a'', dr_Addr = ''h:1'', dr_Roles = 0, dr_DeclaredUnitCount = 4, dr_LeaseGen = 7, dr_Inc = inc\<rparr>"

definition demo_members :: "string \<Rightarrow> mem_store" where
  "demo_members inc = \<lparr>ms_obj = [DefaultKey \<mapsto> memObject (encodeDocument [demo_row inc]) ''v1''], ms_seq = 1\<rparr>"

definition demo_coord :: "(mem_store, string list) Coordinator" where
  "demo_coord = (cas_New \<lparr>cc_Store = Some mem_cond_ops, cc_Key = [], cc_RenewalInterval = 0, cc_PollInterval = 0, cc_ExpiryPolls = 0\<rparr>)
     \<lparr>cr_self := Node ''a'' ''h:1'', cr_selfInc := ''x'', cr_started := True\<rparr>"

lemma demo_members_ok: "mem_inv (demo_members inc)" "mem_room (demo_members inc) = 2 ^ 64 - 2"
  "mutate_read mem_cond_ops DefaultKey (demo_members inc) = Inr ([demo_row inc], Some ''v1'')"
proof -
  have f: "format_uint (Suc 0) = ''1''" by code_simp
  show "mem_inv (demo_members inc)" using f by (auto simp: mem_inv_def demo_members_def mem_issued_def intro!: exI [of _ 1])
  show "mem_room (demo_members inc) = 2 ^ 64 - 2" by (simp add: mem_room_def demo_members_def)
  show "mutate_read mem_cond_ops DefaultKey (demo_members inc) = Inr ([demo_row inc], Some ''v1'')"
    by (simp add: mutate_read_Some demo_members_def mem_cond_ops_def Mem_Get_def decode_encode sorted_rows_def)
qed

lemma demo_coord_sel: "cc_Key (cr_cfg demo_coord) = DefaultKey" "cr_self demo_coord = Node ''a'' ''h:1''" "cr_selfInc demo_coord = ''x''"
  "\<not> cr_displaced demo_coord" "\<not> cr_closed demo_coord" "cr_started demo_coord" "\<not> cr_hardStopped demo_coord"
  by (simp_all add: demo_coord_def cas_New_def)

lemma casAttempts_Suc: "casAttempts = Suc 7"
  by (simp add: casAttempts_def)

lemmas mutate_first = mutate_def casAttempts_Suc mutate_loop.simps(2)

lemma env_quiet [simp]: "env_ops ops (\<lambda>_. []) = (\<lambda>_ s. s)"
  by (simp add: env_ops_def cond_run_def fun_eq_iff)


text \<open>C20: Bootstrap is discovery, and it is exact. Whatever other nodes do meanwhile, a node that starts reports that it founded the cluster
  exactly when the membership its one atomic write replaced was empty, and that it joined otherwise. The write touches no other
  member's row; a node's own stale row is replaced, keeping its place, by one whose lease counter is above the old one (unless that was
  the maximum); and only a joiner can appear with the joining role.\<close>

theorem bootstrap_is_discovery:
  assumes "mem_inv s" "(\<Sum>k\<leftarrow>[0..<3 * casAttempts]. length (cs k)) < mem_room s"
    and "bootstrap_loop mem_cond_ops key (env_ops mem_cond_ops cs) p (founder_row p inc) 0 casAttempts s = (Inr (b, doc, ver), s')"
  shows "\<exists>ks d d' row. doc_replaced mem_cond_ops key d d' (fold (env_ops mem_cond_ops cs) ks s) s' \<and> doc = sorted_rows d' \<and>
    (b = BootstrapFounded \<longleftrightarrow> d = []) \<and>
    (\<forall>i. i \<noteq> node_ID (pm_Self p) \<longrightarrow> rows_of i d' = rows_of i d) \<and>
    rows_of (node_ID (pm_Self p)) d' = row # tl (rows_of (node_ID (pm_Self p)) d) \<and>
    row_member row = \<lparr>cm_Node = pm_Self p,
      cm_Roles = (if b = BootstrapFounded then and (pm_InitialRoles p) (not RoleJoining) else pm_InitialRoles p),
      cm_DeclaredUnitCount = pm_DeclaredUnitCount p\<rparr> \<and> dr_Inc row = inc \<and>
    (\<forall>old\<in>set (take 1 (rows_of (node_ID (pm_Self p)) d)). dr_LeaseGen old \<noteq> - 1 \<longrightarrow> dr_LeaseGen old < dr_LeaseGen row)"
proof -
  let ?self = "node_ID (pm_Self p)"
  from mem_cs.bootstrap_won [where i = 0, unfolded mult_0_right add_0, OF assms] obtain ks d where
    d: "doc_replaced mem_cond_ops key d (upsert (bootstrap_row p (founder_row p inc) d) d) (fold (env_ops mem_cond_ops cs) ks s) s'"
      "doc = sorted_rows (upsert (bootstrap_row p (founder_row p inc) d) d)" "b = BootstrapFounded \<longleftrightarrow> d = []" by blast
  define row where "row = bootstrap_row p (founder_row p inc) d"
  define row' where "row' = (case rows_of ?self d of [] \<Rightarrow> row
    | r # rest \<Rightarrow> if dr_LeaseGen r \<ge> dr_LeaseGen row then row\<lparr>dr_LeaseGen := dr_LeaseGen r + 1\<rparr> else row)"
  have sel: "dr_ID row = ?self" "dr_Inc row = inc" "row_member row = \<lparr>cm_Node = pm_Self p,
      cm_Roles = (if b = BootstrapFounded then and (pm_InitialRoles p) (not RoleJoining) else pm_InitialRoles p),
      cm_DeclaredUnitCount = pm_DeclaredUnitCount p\<rparr>"
    using d(3) by (simp_all add: row_def bootstrap_row_def founder_row_def row_member_def)
  have "\<forall>i. i \<noteq> ?self \<longrightarrow> rows_of i (upsert row d) = rows_of i d" using sel(1) by (simp add: rows_of_upsert)
  moreover have "rows_of ?self (upsert row d) = row' # tl (rows_of ?self d)"
    using sel(1) by (simp add: rows_of_upsert row'_def split: list.split)
  moreover have "row_member row' = row_member row" "dr_Inc row' = dr_Inc row"
    by (simp_all add: row'_def row_member_def split: list.split)
  moreover have "\<forall>old\<in>set (take 1 (rows_of ?self d)). dr_LeaseGen old \<noteq> - 1 \<longrightarrow> dr_LeaseGen old < dr_LeaseGen row'"
    using u64_succ_less by (auto simp: row'_def split: list.split)
  ultimately show ?thesis using d sel unfolding row_def [symmetric]
    by (intro exI [of _ ks] exI [of _ d] exI [of _ "upsert row d"] exI [of _ row']) simp
qed

definition demo_params :: Params where
  "demo_params = \<lparr>pm_Self = Node ''b'' ''h:2'', pm_DeclaredUnitCount = 4, pm_InitialRoles = RoleJoining\<rparr>"

theorem bootstrap_is_discovery_witness:
  "let (r, s') = bootstrap_loop mem_cond_ops DefaultKey (env_ops mem_cond_ops (\<lambda>_. [])) demo_params (founder_row demo_params ''z'')
       0 casAttempts (demo_members ''x'')
   in \<exists>ver. r = Inr (BootstrapJoined, [demo_row ''x'', (founder_row demo_params ''z'')\<lparr>dr_Roles := RoleJoining\<rparr>], ver)"
proof -
  let ?row = "founder_row demo_params ''z''"
  let ?new = "[demo_row ''x'', ?row\<lparr>dr_Roles := RoleJoining\<rparr>]"
  have put: "co_PutIfAbsent mem_cond_ops DefaultKey (encodeDocument [?row]) (demo_members ''x'') = (Inl ErrPrecondition, demo_members ''x'')"
    by (simp add: mem_cond_ops_def Mem_PutIfAbsent_def demo_members_def)
  have get: "co_Get mem_cond_ops DefaultKey (demo_members ''x'') = Inr (encodeDocument [demo_row ''x''], ''v1'')"
    by (simp add: mem_cond_ops_def Mem_Get_def demo_members_def)
  obtain w t where cas: "co_CompareAndSet mem_cond_ops DefaultKey (encodeDocument ?new) ''v1'' (demo_members ''x'') = (Inr w, t)"
    by (simp add: mem_cond_ops_def Mem_CompareAndSet_def demo_members_def nextVersion_def Let_def)
  have "upsert (?row\<lparr>dr_Roles := RoleJoining\<rparr>) [demo_row ''x''] = ?new"
    by (simp add: upsert_def founder_row_def demo_params_def demo_row_def)
  moreover have "sorted_rows ?new = ?new" "sorted_rows [demo_row ''x''] = [demo_row ''x'']"
    by (simp_all add: sorted_rows_def founder_row_def demo_params_def demo_row_def)
  ultimately have r: "bootstrap_loop mem_cond_ops DefaultKey (env_ops mem_cond_ops (\<lambda>_. [])) demo_params ?row 0 casAttempts (demo_members ''x'') =
      (Inr (BootstrapJoined, ?new, w), t)"
    unfolding casAttempts_Suc bootstrap_loop.simps(2)
    using put get cas by (simp add: Let_def decode_encode demo_params_def)
  have "(\<Sum>k\<leftarrow>[0..<3 * casAttempts]. length ((\<lambda>_. []) k)) < mem_room (demo_members ''x'')" using demo_members_ok(2) by simp
  from bootstrap_is_discovery [OF demo_members_ok(1) this r] r show ?thesis by (auto simp: Let_def)
qed

section \<open>The document stays well-formed\<close>

text \<open>A document is well-formed when its rows are sorted by id and no id has two rows; a store is when its document decodes to one, or
  there is none.\<close>

definition doc_typed :: "document \<Rightarrow> bool" where
  "doc_typed d \<longleftrightarrow> sorted (map dr_ID d) \<and> distinct (map dr_ID d)"

definition store_typed :: "'s cond_ops \<Rightarrow> string \<Rightarrow> 's \<Rightarrow> bool" where
  "store_typed ops key s \<longleftrightarrow> (case mutate_read ops key s of Inl _ \<Rightarrow> False | Inr (d, _) \<Rightarrow> doc_typed d)"

lemma distinct_rows: "distinct (map dr_ID d) \<longleftrightarrow> (\<forall>i. length (rows_of i d) \<le> 1)"
proof (induction d)
  case Nil
  then show ?case by (simp add: rows_of_def)
next
  case (Cons r d)
  have "rows_of i (r # d) = (if dr_ID r = i then r # rows_of i d else rows_of i d)" for i by (simp add: rows_of_def)
  moreover have "dr_ID r \<in> set (map dr_ID d) \<longleftrightarrow> rows_of (dr_ID r) d \<noteq> []" by (auto simp: rows_of_def filter_empty_conv intro: rev_image_eqI)
  moreover have "length (rows_of i d) \<le> 1" if "\<forall>i. length (rows_of i (r # d)) \<le> 1" for i
    using that [rule_format, of i] calculation(1) [of i] by (auto split: if_splits)
  ultimately show ?case using Cons by (auto split: if_splits)
qed

lemma distinct_sorted_rows: "distinct (map dr_ID (sorted_rows d)) \<longleftrightarrow> distinct (map dr_ID d)"
  by (simp add: distinct_rows)

lemma doc_typed_sorted: "distinct (map dr_ID d) \<Longrightarrow> doc_typed (sorted_rows d)"
  by (simp add: doc_typed_def distinct_sorted_rows)

lemma doc_replaced_typed:
  assumes "doc_replaced ops key d d' s s'" "store_typed ops key s"
    and "\<forall>i. length (rows_of i d') \<le> max 1 (length (rows_of i d))"
  shows "store_typed ops key s'"
proof -
  from assms(1) obtain v v' where v: "mutate_read ops key s = Inr (d, v)" "mutate_read ops key s' = Inr (sorted_rows d', v')"
    by (auto simp: doc_replaced_def)
  with assms(2) have "distinct (map dr_ID d)" by (simp add: store_typed_def doc_typed_def)
  then have "length (rows_of i d') \<le> 1" for i using assms(3) [rule_format, of i] by (simp add: distinct_rows)
  then have "distinct (map dr_ID d')" by (simp add: distinct_rows)
  with v show ?thesis by (simp add: store_typed_def doc_typed_sorted)
qed

lemma own_edit_typed:
  assumes "own_edit ops key self P cs s s'" "\<forall>ks. store_typed ops key (fold (env_ops ops cs) ks s)"
    and "\<forall>old new. P old new \<longrightarrow> length new \<le> max 1 (length old)"
  shows "store_typed ops key s'"
proof -
  from assms(1) obtain ks d d' where d: "doc_replaced ops key d d' (fold (env_ops ops cs) ks s) s'"
    "\<forall>i. i \<noteq> self \<longrightarrow> rows_of i d' = rows_of i d" "P (rows_of self d) (rows_of self d')" by (auto simp: own_edit_def)
  have "length (rows_of i d') \<le> max 1 (length (rows_of i d))" for i using d(2,3) assms(3) by (cases "i = self") auto
  with doc_replaced_typed [OF d(1)] assms(2) show ?thesis by blast
qed

lemma publish_keeps:
  assumes "publish lib iter rows c = (moved, c')"
  shows "cr_cfg c' = cr_cfg c" "cr_self c' = cr_self c" "cr_started c' = cr_started c" "cr_reduced c' = cr_reduced c" "cr_changed c' = cr_changed c"
  using assms by (auto simp: publish_def Let_def split: if_splits)

text \<open>What \<^verbatim>\<open>observe\<close> leaves in the store.\<close>

lemma observe_store:
  assumes "observe lib iter ops env d ver c s = (c', s')"
  shows "s' = s \<or> (\<exists>expired. s' = gcExpired ops (cc_Key (cr_cfg c)) expired d ver (env s))"
  using assms by (auto simp: observe_def Let_def publish_keeps(1) split: prod.splits if_splits)

context cond_store
begin

lemma gc_typed:
  assumes "store_typed ops key s" "distinct (map dr_ID d)" "inv s" "0 < room s"
  shows "store_typed ops key (gcExpired ops key expired d ver s)"
proof -
  let ?d = "filter (\<lambda>r. dr_ID r \<notin> set expired) d"
  have "distinct (map dr_ID ?d)" using assms(2) by (simp add: distinct_map_filter)
  then have n: "doc_typed (sorted_rows ?d)" by (rule doc_typed_sorted)
  obtain r t where c: "co_CompareAndSet ops key (encodeDocument ?d) ver s = (r, t)" by fastforce
  then have g: "gcExpired ops key expired d ver s = t" by (simp add: gcExpired_def)
  show ?thesis
  proof (cases r)
    case (Inl e)
    with c have "t = s" using cas_error by blast
    with g assms(1) show ?thesis by simp
  next
    case (Inr w)
    with cas_ok [of key "encodeDocument ?d" ver s w t] c assms(3,4)
    have "co_Get ops key t = Inr (encodeDocument ?d, w)" by (auto simp: cond_written_def)
    then have "mutate_read ops key t = Inr (sorted_rows ?d, Some w)" by (simp add: mutate_read_Some decode_encode)
    with n g show ?thesis by (simp add: store_typed_def)
  qed
qed

lemma poll_typed:
  assumes "inv s" "length (cs 0) + length (cs 1) < room s" "store_typed ops (cc_Key (cr_cfg c)) (env_ops ops cs 0 s)"
    and "store_typed ops (cc_Key (cr_cfg c)) (env_ops ops cs 1 (env_ops ops cs 0 s))"
    and "store_typed ops (cc_Key (cr_cfg c)) s" "pollOnce lib iter ops (env_ops ops cs) c s = (c', s')"
  shows "store_typed ops (cc_Key (cr_cfg c)) s'"
proof -
  let ?s1 = "env_ops ops cs 0 s" and ?key = "cc_Key (cr_cfg c)"
  have "length (cs 0) + length (cs 1) < room s" using assms(2) .
  from env_run_room [where cs = cs, OF assms(1) this] have s1: "inv ?s1" "length (cs 1) + 0 < room ?s1" by auto
  from env_run_room [where cs = cs, OF s1] have s2: "inv (env_ops ops cs 1 ?s1)" "0 < room (env_ops ops cs 1 ?s1)" by auto
  from assms(6) consider "s' = s" | "s' = ?s1"
    | d ver doc where "co_Get ops ?key ?s1 = Inr (d, ver)" "decodeDocument d = Inr doc"
        "observe lib iter ops (env_ops ops cs 1) doc ver (c\<lparr>cr_pollOK := cr_pollOK c + 1, cr_pollFail := 0\<rparr>) ?s1 = (c', s')"
    by (auto simp: pollOnce_def Let_def split: if_splits sum.splits)
  then show ?thesis
  proof cases
    case 3
    then have "mutate_read ops ?key ?s1 = Inr (doc, Some ver)" by (simp add: mutate_read_Some)
    with assms(3) have "distinct (map dr_ID doc)" by (simp add: store_typed_def doc_typed_def)
    with observe_store [OF 3(3)] gc_typed [OF assms(4) _ s2] assms(3) show ?thesis by auto
  qed (use assms in simp_all)
qed

end

text \<open>C21: The membership document keeps its type. If the other clients keep the stored document decodable, sorted by id and without two
  rows of one id, then so do a bootstrap, a lease renewal, a role change, a graceful leave and an observation pass with its garbage
  collection, successful or not.\<close>

theorem membership_document_typed:
  assumes "mem_inv s" "(\<Sum>k\<leftarrow>[0..<3 * casAttempts]. length (cs k)) < mem_room s" "\<forall>i. rand i \<noteq> []"
    and typed: "\<forall>ks. store_typed mem_cond_ops (cc_Key (cr_cfg c)) (fold (env_ops mem_cond_ops cs) ks s)"
    and "bootstrap_loop mem_cond_ops (cc_Key (cr_cfg c)) (env_ops mem_cond_ops cs) p row 0 casAttempts s = (Inr b, s') \<or>
      renewOnce mem_cond_ops (env_ops mem_cond_ops cs) rolesAt rand c s = (err, c', s') \<or>
      SetRole mem_cond_ops (env_ops mem_cond_ops cs) rolesAt want c s = (err, c', s') \<or>
      cas_Close mem_cond_ops (env_ops mem_cond_ops cs) c s = (c', s') \<or>
      pollOnce lib iter mem_cond_ops (env_ops mem_cond_ops cs) c s = (c', s')"
  shows "store_typed mem_cond_ops (cc_Key (cr_cfg c)) s'"
proof -
  let ?ops = mem_cond_ops and ?key = "cc_Key (cr_cfg c)" and ?self = "node_ID (cr_self c)"
  have "[0..<3 * casAttempts] = [0..<2 * casAttempts] @ [2 * casAttempts..<3 * casAttempts]"
    using upt_add_eq_append [of 0 "2 * casAttempts" casAttempts] by (simp add: algebra_simps)
  then have two: "(\<Sum>k\<leftarrow>[0..<2 * casAttempts]. length (cs k)) < mem_room s" using assms(2) by simp
  have "[0..<2 * casAttempts] = 0 # 1 # [2..<2 * casAttempts]" by (simp add: casAttempts_def upt_conv_Cons numeral_2_eq_2 del: upt_Suc)
  then have "length (cs 0) + length (cs 1) \<le> (\<Sum>k\<leftarrow>[0..<2 * casAttempts]. length (cs k))" by simp
  with two have poll: "length (cs 0) + length (cs 1) < mem_room s" by linarith
  have others: "store_typed ?ops ?key s'" if "only_others ?ops cs s s'" using that typed by (auto simp: only_others_def)
  have edit: "store_typed ?ops ?key s'" if "own_edit ?ops ?key ?self P cs s s'" "\<forall>old new. P old new \<longrightarrow> length new \<le> max 1 (length old)" for P
    using own_edit_typed [OF that(1) typed that(2)] .
  have rows: "\<forall>old new. renewed_rows c c' R old new \<longrightarrow> length new \<le> max 1 (length old)"
    "\<forall>old new. role_rows R old new \<longrightarrow> length new \<le> max 1 (length old)" "\<forall>old new. left_rows old new \<longrightarrow> length new \<le> max 1 (length old)" for R
    by (auto simp: renewed_rows_def role_rows_def left_rows_def)
  from assms(5) show ?thesis
  proof (elim disjE)
    assume a: "bootstrap_loop ?ops ?key (env_ops ?ops cs) p row 0 casAttempts s = (Inr b, s')"
    obtain b1 doc ver where b: "b = (b1, doc, ver)" by (cases b)
    from mem_cs.bootstrap_won [where i = 0, unfolded mult_0_right add_0, OF assms(1,2) a [unfolded b]] obtain ks d where
      d: "doc_replaced ?ops ?key d (upsert (bootstrap_row p row d) d) (fold (env_ops ?ops cs) ks s) s'" by blast
    have "length (rows_of i (upsert (bootstrap_row p row d) d)) \<le> max 1 (length (rows_of i d))" for i
      by (simp add: rows_of_upsert split: list.split)
    then show ?thesis using doc_replaced_typed [OF d] typed by blast
  next
    assume "renewOnce ?ops (env_ops ?ops cs) rolesAt rand c s = (err, c', s')"
    from mem_cs.renew_local [OF assms(1) two assms(3) this] others edit [OF _ rows(1)] show ?thesis by blast
  next
    assume "SetRole ?ops (env_ops ?ops cs) rolesAt want c s = (err, c', s')"
    from mem_cs.role_local [OF assms(1) two this] others edit [OF _ rows(2)] show ?thesis by blast
  next
    assume "cas_Close ?ops (env_ops ?ops cs) c s = (c', s')"
    from mem_cs.leave_local [OF assms(1) two this] others edit [OF _ rows(3)] show ?thesis by blast
  next
    assume a: "pollOnce lib iter ?ops (env_ops ?ops cs) c s = (c', s')"
    from mem_cs.poll_typed [OF assms(1) poll _ _ _ a] typed [rule_format, of "[]"] typed [rule_format, of "[0]"] typed [rule_format, of "[0, 1]"]
    show ?thesis by simp
  qed
qed

lemma demo_typed: "store_typed mem_cond_ops DefaultKey (fold (env_ops mem_cond_ops (\<lambda>_. [])) ks (demo_members ''x''))"
proof -
  have "fold (env_ops mem_cond_ops (\<lambda>_. [])) ks s = s" for s by (induction ks) simp_all
  then show ?thesis using demo_members_ok(3) by (simp add: store_typed_def doc_typed_def)
qed

theorem membership_document_typed_witness:
  "store_typed mem_cond_ops DefaultKey (snd (cas_Close mem_cond_ops (env_ops mem_cond_ops (\<lambda>_. [])) demo_coord (demo_members ''x'')))"
proof -
  let ?r = "cas_Close mem_cond_ops (env_ops mem_cond_ops (\<lambda>_. [])) demo_coord (demo_members ''x'')"
  have "(\<Sum>k\<leftarrow>[0..<3 * casAttempts]. length ((\<lambda>_. []) k)) < mem_room (demo_members ''x'')" using demo_members_ok(2) by simp
  from membership_document_typed [where c = demo_coord and rand = "\<lambda>_. ''12345678''" and c' = "fst ?r" and s' = "snd ?r", OF demo_members_ok(1) this]
  show ?thesis using demo_typed by (auto simp: demo_coord_sel)
qed

text \<open>C39: A graceful leave does not check whose row it removes. A process whose row has been taken over by a replacement (another
  incarnation under its id), and which has not renewed since, removes the replacement's row from the document when it closes, although the
  replacement is alive; a renewal in the same situation would have stepped down and left the row alone.\<close>

theorem close_removes_replacement:
  assumes "mem_inv s" "0 < mem_room s" "cr_started c" "\<not> cr_closed c" "\<not> cr_hardStopped c" "\<not> cr_displaced c"
    and read: "mutate_read mem_cond_ops (cc_Key (cr_cfg c)) s = Inr (d, Some v)"
    and rows: "rows_of (node_ID (cr_self c)) d = r # rest" "dr_Inc r \<noteq> cr_selfInc c"
  shows "(\<exists>c' s' d' v'. cas_Close mem_cond_ops (\<lambda>_ s. s) c s = (c', s') \<and> mutate_read mem_cond_ops (cc_Key (cr_cfg c)) s' = Inr (d', v') \<and>
      rows_of (node_ID (cr_self c)) d' = rest) \<and>
    renewOnce mem_cond_ops (\<lambda>_ s. s) rolesAt rand c s = (Some ErrDisplaced, stepDown c, s)"
proof -
  let ?key = "cc_Key (cr_cfg c)" and ?self = "node_ID (cr_self c)"
  obtain k where k: "doc_find ?self d = Some k" using rows(1) doc_find_None [of ?self d] by (cases "doc_find ?self d") auto
  note dr = doc_find_rows [OF k]
  let ?new = "take k d @ drop (Suc k) d"
  obtain w t where w: "mutate_write mem_cond_ops ?key ?new (Some v) s = (Inr w, t)"
    using read by (auto simp: mutate_read_Some mutate_write_def mem_cond_ops_def Mem_Get_def Mem_CompareAndSet_def nextVersion_def Let_def
        split: option.splits)
  have "doc_replaced mem_cond_ops ?key d ?new s t"
    using mem_cs.mutate_write_ok [of s "[]" ?key d "Some v" ?new w t] assms(1,2) read w by (simp add: cond_run_def)
  then obtain v' where "mutate_read mem_cond_ops ?key t = Inr (sorted_rows ?new, v')" by (auto simp: doc_replaced_def)
  moreover have "rows_of ?self (sorted_rows ?new) = rest" using dr(3) [of ?self] rows(1) by simp
  moreover have "mutate mem_cond_ops ?key (\<lambda>_ s. s) (leave_edit ?self) () s = (None, (), t)"
    unfolding mutate_first using read k w by (simp add: Let_def leave_edit_def)
  ultimately have "\<exists>c' s' d' v'. cas_Close mem_cond_ops (\<lambda>_ s. s) c s = (c', s') \<and> mutate_read mem_cond_ops ?key s' = Inr (d', v') \<and> rows_of ?self d' = rest"
    using assms(3-6) by (simp add: cas_Close_def Let_def)
  moreover have "mutate mem_cond_ops ?key (\<lambda>_ s. s) (renew_edit (cr_self c) (cr_declaredUnitCount c) (cr_selfInc c) rolesAt rand) (False, []) s =
      (None, (True, []), s)"
    unfolding mutate_first using read k dr(1) rows by (simp add: Let_def renew_edit_def)
  ultimately show ?thesis using assms(6) by (simp add: renewOnce_def)
qed

theorem close_removes_replacement_witness:
  "\<exists>c' s' d' v'. cas_Close mem_cond_ops (\<lambda>_ s. s) demo_coord (demo_members ''y'') = (c', s') \<and>
     mutate_read mem_cond_ops DefaultKey s' = Inr (d', v') \<and> rows_of ''a'' d' = []"
proof -
  have "rows_of ''a'' [demo_row ''y''] = [demo_row ''y'']" "dr_Inc (demo_row ''y'') \<noteq> ''x''" by (simp_all add: rows_of_def demo_row_def)
  with close_removes_replacement [OF demo_members_ok(1), of "''y''" demo_coord "[demo_row ''y'']" "''v1''" "demo_row ''y''" "[]"]
  show ?thesis using demo_members_ok by (simp add: demo_coord_sel)
qed

end
