(* ===== verification/Coord_View.thy ===== *)
theory Coord_View
  imports Coord_Cas
begin

text \<open>
  What a coordinator serves to its queries, on every run of its operations (\<^verbatim>\<open>src/pkg/coord/cas/cas.go\<close>): the view and the
  placement ring are one artifact, the view contains the node itself, and a placement with exclusions is computed on a ring rebuilt
  from the remaining members, whatever the memo holds. The operations run against arbitrary stores with arbitrary contents, and
  every map iteration may take another order.
\<close>

section \<open>Runs of one coordinator\<close>

definition nul_free :: "string list \<Rightarrow> bool" where
  "nul_free ids \<longleftrightarrow> (\<forall>i\<in>set ids. CHR 0x00 \<notin> set i)"

text \<open>\<open>cas_reach lib n c\<close>: the state \<open>c\<close> is reached after \<open>n\<close> operations. The hint is consumed by the receiver on the channel.\<close>

inductive cas_reach :: "'h consistent \<Rightarrow> nat \<Rightarrow> ('s, 'h) Coordinator \<Rightarrow> bool" for lib where
  made: "cas_reach lib 0 (cas_New cfg)"
| started: "cas_reach lib n c \<Longrightarrow> iter_perm iter \<Longrightarrow> cas_Start lib iter env rand p c s = (r, c', s') \<Longrightarrow> cas_reach lib (Suc n) c'"
| renewed: "cas_reach lib n c \<Longrightarrow> cr_started c \<Longrightarrow> renewOnce ops env rolesAt rnd c s = (err, c', s') \<Longrightarrow> cas_reach lib (Suc n) c'"
| polled: "cas_reach lib n c \<Longrightarrow> cr_started c \<Longrightarrow> iter_perm iter \<Longrightarrow> pollOnce lib iter ops env c s = (c', s') \<Longrightarrow> cas_reach lib (Suc n) c'"
| role_set: "cas_reach lib n c \<Longrightarrow> SetRole ops env rolesAt want c s = (err, c', s') \<Longrightarrow> cas_reach lib (Suc n) c'"
| located: "cas_reach lib n c \<Longrightarrow> iter_perm iter \<Longrightarrow> distinct exclude \<Longrightarrow> nul_free exclude \<Longrightarrow>
    cas_Locate lib iter u k exclude c = (nodes, c') \<Longrightarrow> cas_reach lib (Suc n) c'"
| hint_taken: "cas_reach lib n c \<Longrightarrow> cas_reach lib (Suc n) (c\<lparr>cr_changed := False\<rparr>)"
| closed: "cas_reach lib n c \<Longrightarrow> cas_Close ops env c s = (c', s') \<Longrightarrow> cas_reach lib (Suc n) c'"
| killed: "cas_reach lib n c \<Longrightarrow> cas_reach lib (Suc n) (TestingShutdownNoLeave c)"

section \<open>Rings of member lists\<close>

definition member_entry :: "CoordMember \<Rightarrow> string \<times> Member" where
  "member_entry m = (node_ID (cm_Node m), Member (node_ID (cm_Node m)) (node_Addr (cm_Node m)))"

text \<open>A ring that holds exactly the members \<open>ms\<close>.\<close>

definition ring_holds :: "'h consistent \<Rightarrow> CoordMember list \<Rightarrow> 'h Ring \<Rightarrow> bool" where
  "ring_holds lib ms r \<longleftrightarrow> ring_ok lib r \<and> map_of (rg_members r) = map_of (rev (map member_entry ms))"

lemma ring_of_holds:
  assumes "lib_total lib" "iter_perm iter"
  shows "ring_holds lib ms (ring_of lib iter ms)"
proof -
  let ?ops = "map (\<lambda>m. RAdd (Member (node_ID (cm_Node m)) (node_Addr (cm_Node m)))) ms"
  have f: "fold (\<lambda>m. Add lib iter (Member (node_ID (cm_Node m)) (node_Addr (cm_Node m)))) ms r = fold (ring_step lib iter) ?ops r" for r
    by (induction ms arbitrary: r) simp_all
  have "rg_members (rebuildHashLocked lib iter r) = rg_members r" for r by (simp add: rebuildHashLocked_def split: option.split)
  then have "map_of (rg_members (fold (ring_step lib iter) ?ops r)) = map_of (rg_members r) ++ map_of (rev (map member_entry ms))" for r
    by (induction ms arbitrary: r) (simp_all add: Add_def update_conv' member_entry_def)
  then show ?thesis
    using ring_ok_run [OF assms, of ?ops] by (simp add: ring_holds_def ring_of_def f ring_run_def New_def)
qed

lemma map_entries: "map cm_Node ms = map cm_Node ms' \<Longrightarrow> map member_entry ms = map member_entry ms'"
proof -
  assume a: "map cm_Node ms = map cm_Node ms'"
  have e: "map member_entry xs = map (\<lambda>n. (node_ID n, Member (node_ID n) (node_Addr n))) (map cm_Node xs)" for xs
    by (simp add: member_entry_def)
  show ?thesis unfolding e a ..
qed

lemma ring_holds_agree:
  assumes "lib_order_free lib" "ring_holds lib ms a" "ring_holds lib ms' b" "map cm_Node ms = map cm_Node ms'"
  shows "LocateKeyN lib a key n = LocateKeyN lib b key n" "Empty a = Empty b"
proof -
  have "map member_entry ms = map member_entry ms'" using assms(4) by (rule map_entries)
  with assms(2,3) have "map_of (rg_members a) = map_of (rg_members b)" by (simp add: ring_holds_def)
  with ring_ok_agree [OF assms(1)] assms(2,3) show "LocateKeyN lib a key n = LocateKeyN lib b key n" "Empty a = Empty b"
    unfolding ring_holds_def by blast+
qed

section \<open>The key of an exclusion set\<close>

lemma split_at: "x @ c # r = y @ c # r' \<Longrightarrow> c \<notin> set x \<Longrightarrow> c \<notin> set y \<Longrightarrow> x = y \<and> r = r'"
proof (induction x arbitrary: y)
  case Nil
  then show ?case by (cases y) auto
next
  case (Cons a x)
  then show ?case by (cases y) auto
qed

lemma join_inject:
  assumes "join_with [CHR 0x00] xs = join_with [CHR 0x00] ys" "xs \<noteq> []" "ys \<noteq> []" "nul_free xs" "nul_free ys"
  shows "xs = ys"
  using assms
proof (induction xs arbitrary: ys)
  case Nil
  then show ?case by simp
next
  case (Cons x xs)
  obtain y ys' where ys: "ys = y # ys'" using Cons.prems(3) by (cases ys) auto
  have nul: "CHR 0x00 \<notin> set x" "CHR 0x00 \<notin> set y" "nul_free xs" "nul_free ys'" using Cons.prems(4,5) ys by (auto simp: nul_free_def)
  have cons: "join_with [CHR 0x00] (z # zs) = z @ (if zs = [] then [] else CHR 0x00 # join_with [CHR 0x00] zs)" for z zs
    by (cases zs) simp_all
  have e: "x @ (if xs = [] then [] else CHR 0x00 # join_with [CHR 0x00] xs) = y @ (if ys' = [] then [] else CHR 0x00 # join_with [CHR 0x00] ys')"
    using Cons.prems(1) unfolding ys cons .
  show ?case
  proof (cases "xs = []")
    case True
    then have "ys' = []" using e nul(1) by (auto split: if_splits)
    with True e ys show ?thesis by simp
  next
    case False
    then have n: "ys' \<noteq> []" using e nul(2) by (auto split: if_splits)
    have "x = y \<and> join_with [CHR 0x00] xs = join_with [CHR 0x00] ys'"
      using e False n split_at [OF _ nul(1,2)] by simp
    with Cons.IH [of ys'] False n nul(3,4) ys show ?thesis by simp
  qed
qed

lemma excludeKey_inject:
  assumes "excludeKey a = excludeKey b" "a \<noteq> []" "b \<noteq> []" "nul_free a" "nul_free b"
  shows "set a = set b"
proof -
  have "sort a \<noteq> []" "sort b \<noteq> []" using assms(2,3) by (metis length_sort length_0_conv)+
  moreover have "nul_free (sort a)" "nul_free (sort b)" using assms(4,5) by (simp_all add: nul_free_def)
  ultimately have "sort a = sort b" using join_inject assms(1) unfolding excludeKey_def by blast
  then show ?thesis by (metis set_sort)
qed

section \<open>The invariant\<close>

definition view_members :: "('s, 'h) Coordinator \<Rightarrow> CoordMember list" where
  "view_members c = vw_Members (sn_view (cr_snap c))"

text \<open>\<open>n\<close> bounds the number of snapshots published so far. The memo was built at its epoch, from the members of that epoch.\<close>

definition cas_ok :: "'h consistent \<Rightarrow> nat \<Rightarrow> ('s, 'h) Coordinator \<Rightarrow> bool" where
  "cas_ok lib n c \<longleftrightarrow>
     sorted (map (node_ID \<circ> cm_Node) (view_members c)) \<and> vw_Epoch (sn_view (cr_snap c)) = cr_epoch c \<and> unat (cr_epoch c) \<le> n \<and>
     (sn_ring (cr_snap c) = None \<longrightarrow> view_members c = []) \<and> (\<forall>r. sn_ring (cr_snap c) = Some r \<longrightarrow> ring_holds lib (view_members c) r) \<and>
     (\<forall>key epoch r. cr_reduced c = Some (key, epoch, r) \<longrightarrow> epoch \<le> cr_epoch c \<and>
        (epoch = cr_epoch c \<longrightarrow>
           (\<exists>ex. ex \<noteq> [] \<and> nul_free ex \<and> key = excludeKey ex \<and>
              ring_holds lib (filter (\<lambda>m. node_ID (cm_Node m) \<notin> set ex) (view_members c)) r))) \<and>
     (\<not> cr_started c \<longrightarrow> view_members c = []) \<and>
     (cr_started c \<longrightarrow> vw_Self (sn_view (cr_snap c)) = cr_self c \<and> node_ID (cr_self c) \<in> set (map (node_ID \<circ> cm_Node) (view_members c)))"

text \<open>The fields the invariant reads.\<close>

definition same_view :: "('s, 'h) Coordinator \<Rightarrow> ('s, 'h) Coordinator \<Rightarrow> bool" where
  "same_view c c' \<longleftrightarrow> cr_snap c' = cr_snap c \<and> cr_epoch c' = cr_epoch c \<and> cr_reduced c' = cr_reduced c \<and> cr_started c' = cr_started c \<and>
     cr_self c' = cr_self c"

lemma cas_ok_same: "cas_ok lib n c \<Longrightarrow> same_view c c' \<Longrightarrow> n \<le> m \<Longrightarrow> cas_ok lib m c'"
  by (simp add: cas_ok_def same_view_def view_members_def)

lemma same_view_ops:
  "renewOnce ops env rolesAt rnd c s = (err, c', s') \<Longrightarrow> same_view c c'"
  "SetRole ops env rolesAt want c s = (err, c', s') \<Longrightarrow> same_view c c'"
  "cas_Close ops env c s = (c', s') \<Longrightarrow> same_view c c'"
  "same_view c (c\<lparr>cr_changed := False\<rparr>)" "same_view c (TestingShutdownNoLeave c)"
  by (auto simp: renewOnce_def SetRole_def cas_Close_def same_view_def stepDown_def Let_def TestingShutdownNoLeave_def
      split: if_splits option.splits prod.splits)

lemma cas_ok_New: "cas_ok lib 0 (cas_New cfg)"
  by (simp add: cas_ok_def cas_New_def view_members_def)

text \<open>One published snapshot. The rows hold the node itself.\<close>

lemma publish_ok:
  assumes lib: "lib_total lib" "iter_perm iter" and ok: "cas_ok lib n c" "Suc n < 2 ^ 64"
    and self: "node_ID (cr_self c) \<in> dr_ID ` set rows"
    and p: "publish lib iter rows c = (moved, c')"
  shows "cas_ok lib (Suc n) (c'\<lparr>cr_started := True\<rparr>) \<and> (moved \<longleftrightarrow> cr_snap c' \<noteq> cr_snap c)"
proof -
  let ?ms = "sort_key (node_ID \<circ> cm_Node) (map row_member rows)"
  have mem: "node_ID (cr_self c) \<in> set (map (node_ID \<circ> cm_Node) ?ms)" using self by (auto simp: row_member_def image_iff)
  have eq: "membersEqual (view_members c) ?ms \<longleftrightarrow> view_members c = ?ms" by (auto simp: membersEqual_def list.rel_eq)
  have nodes: "nodesEqual (view_members c) ?ms \<longleftrightarrow> map cm_Node (view_members c) = map cm_Node ?ms"
    by (simp add: nodesEqual_def list_eq_iff_nth_eq list_all2_conv_all_nth) (auto simp: list_all2_conv_all_nth)
  show ?thesis
  proof (cases "view_members c = ?ms")
    case True
    have "view_members c \<noteq> []" using mem unfolding True [symmetric] by (cases "view_members c") simp_all
    with ok(1) have "cr_started c" by (auto simp: cas_ok_def)
    with True p eq ok(1) mem show ?thesis by (auto simp: publish_def Let_def cas_ok_def view_members_def)
  next
    case False
    let ?r = "if sn_ring (cr_snap c) = None \<or> \<not> nodesEqual (view_members c) ?ms then Some (ring_of lib iter ?ms) else sn_ring (cr_snap c)"
    have c': "moved" "c' = c\<lparr>cr_epoch := cr_epoch c + 1, cr_snap := \<lparr>sn_view = \<lparr>vw_Self = cr_self c, vw_Members = ?ms, vw_Epoch = cr_epoch c + 1\<rparr>, sn_ring = ?r\<rparr>\<rparr>"
      using p False eq by (auto simp: publish_def Let_def view_members_def)
    have e: "unat (cr_epoch c) < 2 ^ 64 - 1" using ok by (simp add: cas_ok_def)
    then have u: "unat (cr_epoch c + 1) = Suc (unat (cr_epoch c))" by (simp add: unat_word_ariths)
    have less: "cr_epoch c < cr_epoch c + 1" using u by (simp add: word_less_nat_alt)
    obtain r where r: "?r = Some r" "ring_holds lib ?ms r"
    proof (cases "sn_ring (cr_snap c) = None \<or> \<not> nodesEqual (view_members c) ?ms")
      case True
      then show ?thesis using that ring_of_holds [OF lib] by auto
    next
      case False
      then obtain r where r: "sn_ring (cr_snap c) = Some r" by auto
      then have "ring_holds lib (view_members c) r" using ok(1) by (simp add: cas_ok_def)
      moreover have "map member_entry (view_members c) = map member_entry ?ms" using False nodes by (intro map_entries) simp
      ultimately show ?thesis using that r False by (auto simp: ring_holds_def)
    qed
    have memo: "epoch \<le> cr_epoch c + 1 \<and> epoch \<noteq> cr_epoch c + 1" if "cr_reduced c = Some (key, epoch, r)" for key epoch r
      using that ok(1) less by (auto simp: cas_ok_def)
    define ms where "ms = ?ms"
    have sel: "cr_snap c' = \<lparr>sn_view = \<lparr>vw_Self = cr_self c, vw_Members = ms, vw_Epoch = cr_epoch c + 1\<rparr>, sn_ring = Some r\<rparr>"
      "cr_epoch c' = cr_epoch c + 1" "cr_reduced c' = cr_reduced c" "cr_self c' = cr_self c"
      unfolding c'(2) r(1) ms_def by simp_all
    have "vw_Members (sn_view (cr_snap c')) = ms" by (simp add: sel)
    then have "cr_snap c' \<noteq> cr_snap c" using False unfolding ms_def view_members_def by metis
    moreover have "sorted (map (node_ID \<circ> cm_Node) ms)" by (simp add: ms_def)
    ultimately show ?thesis
      using ok(1) u r(2) mem memo c'(1) unfolding ms_def [symmetric] by (simp add: cas_ok_def view_members_def sel)
  qed
qed

lemma observe_ok:
  assumes "lib_total lib" "iter_perm iter" "cas_ok lib n c" "Suc n < 2 ^ 64" "observe lib iter ops env d ver c s = (c', s')"
  shows "cas_ok lib (Suc n) (c'\<lparr>cr_started := True\<rparr>)" "cr_snap c' \<noteq> cr_snap c \<Longrightarrow> cr_changed c'" "cr_changed c \<Longrightarrow> cr_changed c'"
    "cr_started c' = cr_started c"
proof -
  define tr where "tr = ExpireSilent (cr_tracker c) (map (\<lambda>r. LeaseRow (dr_ID r) (dr_Inc r) (dr_LeaseGen r)) d) (cc_ExpiryPolls (cr_cfg c)) (node_ID (cr_self c))"
  define c1 where "c1 = c\<lparr>cr_tracker := fst tr\<rparr>"
  define live where "live = (let l = filter (\<lambda>r. dr_ID r \<notin> set (snd tr)) d in
    if list_ex (\<lambda>r. dr_ID r = node_ID (cr_self c1)) l then l else l @ [self_row c1])"
  obtain moved c2 where p: "publish lib iter live c1 = (moved, c2)" by fastforce
  have "c' = (if fst (publish lib iter live c1) then signal (snd (publish lib iter live c1)) else snd (publish lib iter live c1))"
    using assms(5) unfolding observe_def live_def Let_def case_prod_beta tr_def [symmetric] c1_def [symmetric] by simp
  with p have o: "c' = (if moved then signal c2 else c2)" by simp
  have "same_view c c1" by (simp add: same_view_def c1_def)
  with assms(3) have ok: "cas_ok lib n c1" by (rule cas_ok_same) simp
  have "node_ID (cr_self c1) \<in> dr_ID ` set live"
    by (auto simp: live_def Let_def c1_def self_row_def list_ex_iff image_iff)
  from publish_ok [OF assms(1,2) ok assms(4) this p]
  have pub: "cas_ok lib (Suc n) (c2\<lparr>cr_started := True\<rparr>)" "moved \<longleftrightarrow> cr_snap c2 \<noteq> cr_snap c1" by auto
  have "same_view (c2\<lparr>cr_started := True\<rparr>) (c'\<lparr>cr_started := True\<rparr>)" by (simp add: o same_view_def signal_def)
  with pub(1) show "cas_ok lib (Suc n) (c'\<lparr>cr_started := True\<rparr>)" by (rule cas_ok_same) simp
  show "cr_snap c' \<noteq> cr_snap c \<Longrightarrow> cr_changed c'" using pub(2) by (auto simp: o signal_def c1_def split: if_splits)
  show "cr_changed c \<Longrightarrow> cr_changed c'" "cr_started c' = cr_started c"
    using publish_keeps [OF p] by (simp_all add: o signal_def c1_def)
qed

section \<open>Placement queries\<close>

text \<open>The placement the port asks for: on a ring built from the members that are not excluded.\<close>

definition placed :: "'h consistent \<Rightarrow> (string list \<Rightarrow> string list) \<Rightarrow> GenUnit \<Rightarrow> int \<Rightarrow> NodeID list \<Rightarrow> CoordMember list \<Rightarrow> Node list" where
  "placed lib iter u k exclude ms =
     map (\<lambda>m. Node (mb_ID m) (mb_Addr m))
       (LocateKeyN lib (ring_of lib iter (filter (\<lambda>m. node_ID (cm_Node m) \<notin> set exclude) ms)) (GenUnitBytes u) k)"

lemma reduced_ok:
  assumes "lib_total lib" "iter_perm iter" "cas_ok lib n c" "exclude \<noteq> []" "nul_free exclude"
    and "reducedRing lib iter (cr_snap c) exclude c = (r, c')"
  shows "ring_holds lib (filter (\<lambda>m. node_ID (cm_Node m) \<notin> set exclude) (view_members c)) r" "cas_ok lib n c'"
    "c' = c\<lparr>cr_reduced := cr_reduced c'\<rparr>"
proof -
  let ?ms = "filter (\<lambda>m. node_ID (cm_Node m) \<notin> set exclude) (view_members c)"
  let ?built = "(ring_of lib iter ?ms, c\<lparr>cr_reduced := Some (excludeKey exclude, cr_epoch c, ring_of lib iter ?ms)\<rparr>)"
  have e: "vw_Epoch (sn_view (cr_snap c)) = cr_epoch c" using assms(3) by (simp add: cas_ok_def)
  have built: "ring_holds lib ?ms (ring_of lib iter ?ms)" using assms(1,2) by (rule ring_of_holds)
  consider "(r, c') = ?built" | "cr_reduced c = Some (excludeKey exclude, cr_epoch c, r)" "c' = c"
    using assms(6) e by (auto simp: reducedRing_def Let_def view_members_def split: option.splits if_splits)
  then have "ring_holds lib ?ms r \<and> cas_ok lib n c' \<and> c' = c\<lparr>cr_reduced := cr_reduced c'\<rparr>"
  proof cases
    case 1
    then have "c' = c\<lparr>cr_reduced := Some (excludeKey exclude, cr_epoch c, r)\<rparr>" "r = ring_of lib iter ?ms" by simp_all
    moreover have "cas_ok lib n (c\<lparr>cr_reduced := Some (excludeKey exclude, cr_epoch c, ring_of lib iter ?ms)\<rparr>)"
      using assms(3) built assms(4,5) by (auto simp: cas_ok_def view_members_def)
    ultimately show ?thesis using built by simp
  next
    case 2
    then obtain ex where ex: "ex \<noteq> []" "nul_free ex" "excludeKey exclude = excludeKey ex"
      "ring_holds lib (filter (\<lambda>m. node_ID (cm_Node m) \<notin> set ex) (view_members c)) r"
      using assms(3) by (auto simp: cas_ok_def)
    have "set exclude = set ex" using ex(1-3) assms(4,5) by (intro excludeKey_inject)
    with ex(4) 2 assms(3) show ?thesis by simp
  qed
  then show "ring_holds lib ?ms r" "cas_ok lib n c'" "c' = c\<lparr>cr_reduced := cr_reduced c'\<rparr>" by blast+
qed

lemma LocateKeyN_Empty: "Empty r \<Longrightarrow> LocateKeyN lib r key n = []"
  by (simp add: LocateKeyN_def Empty_def)

lemma locate_ok:
  assumes "lib_total lib" "lib_order_free lib" "iter_perm iter" "iter_perm iter'" "cas_ok lib n c" "nul_free exclude"
    and "cas_Locate lib iter u k exclude c = (nodes, c')"
  shows "nodes = placed lib iter' u k exclude (view_members c) \<and> cas_ok lib n c'"
proof -
  let ?ms = "filter (\<lambda>m. node_ID (cm_Node m) \<notin> set exclude) (view_members c)"
  have h: "ring_holds lib ?ms (ring_of lib iter' ?ms)" using assms(1,4) by (rule ring_of_holds)
  have found: "placed lib iter' u k exclude (view_members c) = map (\<lambda>m. Node (mb_ID m) (mb_Addr m)) (LocateKeyN lib r (GenUnitBytes u) k)"
    if "ring_holds lib ?ms r" for r
    using ring_holds_agree(1) [OF assms(2) that h refl] by (simp add: placed_def)
  show ?thesis
  proof (cases "k \<le> 0 \<or> sn_ring (cr_snap c) = None")
    case True
    then have "LocateKeyN lib (ring_of lib iter' ?ms) (GenUnitBytes u) k = []"
    proof
      assume "k \<le> 0"
      then show ?thesis by (simp add: LocateKeyN_def)
    next
      assume "sn_ring (cr_snap c) = None"
      then have "view_members c = []" using assms(5) by (simp add: cas_ok_def)
      then show ?thesis by (simp add: ring_of_def LocateKeyN_def New_def)
    qed
    moreover have "nodes = []" "c' = c" using True assms(7) by (auto simp: cas_Locate_def split: if_splits)
    ultimately show ?thesis using assms(5) by (simp add: placed_def)
  next
    case False
    then obtain r where r: "sn_ring (cr_snap c) = Some r" "ring_holds lib (view_members c) r" "\<not> k \<le> 0" using assms(5) by (auto simp: cas_ok_def)
    show ?thesis
    proof (cases "exclude = []")
      case True
      with r found [of r] assms(5,7) show ?thesis by (auto simp: cas_Locate_def)
    next
      case False
      obtain q d where q: "reducedRing lib iter (cr_snap c) exclude c = (q, d)" by fastforce
      note red = reduced_ok [OF assms(1,3,5) False assms(6) q]
      have "nodes = map (\<lambda>m. Node (mb_ID m) (mb_Addr m)) (LocateKeyN lib q (GenUnitBytes u) k)" "c' = d"
        using assms(7) r False q by (auto simp: cas_Locate_def LocateKeyN_Empty split: if_splits)
      with found [OF red(1)] red(2) show ?thesis by simp
    qed
  qed
qed

section \<open>Every run\<close>

lemma cas_ok_mono: "cas_ok lib n c \<Longrightarrow> n \<le> m \<Longrightarrow> cas_ok lib m c"
  by (auto simp: cas_ok_def)

lemma start_ok:
  assumes "lib_total lib" "iter_perm iter" "cas_ok lib n c" "Suc n < 2 ^ 64" "cas_Start lib iter env rand p c s = (r, c', s')"
  shows "cas_ok lib (Suc n) c'"
proof (cases "cr_started c")
  case True
  with assms(3,5) show ?thesis by (auto simp: cas_Start_def intro: cas_ok_mono)
next
  case False
  let ?c1 = "c\<lparr>cr_self := pm_Self p, cr_declaredUnitCount := pm_DeclaredUnitCount p, cr_selfInc := newInc rand\<rparr>"
  have boot: "cas_bootstrap ops env rand p (c\<lparr>cr_self := pm_Self p, cr_declaredUnitCount := pm_DeclaredUnitCount p\<rparr>) s = (q, d, t) \<Longrightarrow> d = ?c1"
    for ops q d t by (auto simp: cas_bootstrap_def Let_def founder_row_def split: prod.splits)
  have c1: "cas_ok lib n (?c1\<lparr>cr_roles := ro\<rparr>)" "cas_ok lib n ?c1" for ro
    using assms(3) False by (auto simp: cas_ok_def view_members_def)
  from assms(5) False consider "c' = c" | "c' = ?c1"
    | ops doc ver ro c2 t t' rl pl where "observe lib iter ops (env (3 * casAttempts)) doc ver (?c1\<lparr>cr_roles := ro\<rparr>) t = (c2, t')"
        "c' = c2\<lparr>cr_started := True, cr_renewLoop := rl, cr_pollLoop := pl\<rparr>"
    by (auto simp: cas_Start_def Let_def dest!: boot split: option.splits if_splits prod.splits sum.splits)
  then show ?thesis
  proof cases
    case 1
    then show ?thesis using assms(3) by (auto intro: cas_ok_mono)
  next
    case 2
    then show ?thesis using c1(2) by (auto intro: cas_ok_mono)
  next
    case 3
    have "cas_ok lib (Suc n) (c2\<lparr>cr_started := True\<rparr>)" using observe_ok(1) [OF assms(1,2) c1(1) assms(4) 3(1)] .
    then show ?thesis unfolding 3(2) by (rule cas_ok_same) (simp_all add: same_view_def)
  qed
qed

lemma poll_ok:
  assumes "lib_total lib" "iter_perm iter" "cas_ok lib n c" "Suc n < 2 ^ 64" "cr_started c" "pollOnce lib iter ops env c s = (c', s')"
  shows "cas_ok lib (Suc n) c'" "cr_snap c' \<noteq> cr_snap c \<Longrightarrow> cr_changed c'"
proof -
  let ?c1 = "c\<lparr>cr_pollOK := cr_pollOK c + 1, cr_pollFail := 0\<rparr>"
  have c1: "cas_ok lib n ?c1" using assms(3) by (rule cas_ok_same) (simp_all add: same_view_def)
  from assms(6) consider "c' = c" | "c' = pollFailed c" | doc ver t where "observe lib iter ops (env 1) doc ver ?c1 t = (c', s')"
    by (auto simp: pollOnce_def Let_def split: if_splits sum.splits)
  then have "cas_ok lib (Suc n) c' \<and> (cr_snap c' \<noteq> cr_snap c \<longrightarrow> cr_changed c')"
  proof cases
    case 1
    then show ?thesis using assms(3) by (auto intro: cas_ok_mono)
  next
    case 2
    have "same_view c c'" by (simp add: 2 same_view_def pollFailed_def)
    then show ?thesis using cas_ok_same [OF assms(3), of c' "Suc n"] by (simp add: same_view_def)
  next
    case 3
    note o = observe_ok [OF assms(1,2) c1 assms(4) 3]
    have "c'\<lparr>cr_started := True\<rparr> = c'" using o(4) assms(5) by simp
    with o(1,2) show ?thesis by simp
  qed
  then show "cas_ok lib (Suc n) c'" "cr_snap c' \<noteq> cr_snap c \<Longrightarrow> cr_changed c'" by blast+
qed

lemma cas_reach_ok:
  assumes "lib_total lib" "lib_order_free lib" "cas_reach lib n c" "n < 2 ^ 64"
  shows "cas_ok lib n c"
  using assms(3,4)
proof (induction rule: cas_reach.induct)
  case (made cfg)
  show ?case by (rule cas_ok_New)
next
  case (started n c iter env rand p s r c' s')
  then show ?case using start_ok [OF assms(1)] by (metis Suc_lessD)
next
  case (renewed n c ops env rolesAt rnd s err c' s')
  then show ?case using cas_ok_same [OF _ same_view_ops(1)] by (metis Suc_lessD le_SucI order_refl)
next
  case (polled n c iter ops env s c' s')
  then show ?case using poll_ok(1) [OF assms(1)] by (metis Suc_lessD)
next
  case (role_set n c ops env rolesAt want s err c' s')
  then show ?case using cas_ok_same [OF _ same_view_ops(2)] by (metis Suc_lessD le_SucI order_refl)
next
  case (located n c iter exclude u k nodes c')
  then have "cas_ok lib n c" by simp
  from locate_ok [OF assms(1,2) located.hyps(2,2) this located.hyps(4,5)] have "cas_ok lib n c'" ..
  then show ?case by (rule cas_ok_mono) simp
next
  case (hint_taken n c)
  then show ?case using cas_ok_same [OF _ same_view_ops(4)] by (metis Suc_lessD le_SucI order_refl)
next
  case (closed n c ops env s c' s')
  then show ?case using cas_ok_same [OF _ same_view_ops(3)] by (metis Suc_lessD le_SucI order_refl)
next
  case (killed n c)
  then show ?case using cas_ok_same [OF _ same_view_ops(5)] by (metis Suc_lessD le_SucI order_refl)
qed

text \<open>C19: One snapshot, one basis. After any sequence of operations of a coordinator, against any store contents and with any map iteration
  orders: once started, the view contains the node itself under its identity; the view is sorted; a placement query, with or without
  exclusions, memoised or not, answers exactly as a ring freshly built from the view's members that are not excluded; and an
  observation that moves the published snapshot leaves a change hint. (Fewer than 2^64 operations, so that the epoch does not
  wrap; excluded ids without NUL bytes; the library builds without panicking and independently of member order.)\<close>

theorem snapshot_single_basis:
  assumes "lib_total lib" "lib_order_free lib" "cas_reach lib n c" "Suc n < 2 ^ 64" "iter_perm iter" "iter_perm iter'" "nul_free exclude"
  shows "(cr_started c \<longrightarrow> vw_Self (cas_View c) = cr_self c \<and> View_Member (node_ID (cr_self c)) (cas_View c) \<noteq> None) \<and>
    sorted (map (node_ID \<circ> cm_Node) (vw_Members (cas_View c))) \<and>
    fst (cas_Locate lib iter u k exclude c) = placed lib iter' u k exclude (vw_Members (cas_View c)) \<and>
    (cr_started c \<and> pollOnce lib iter ops env c s = (c', s') \<and> cr_snap c' \<noteq> cr_snap c \<longrightarrow> cr_changed c')"
proof -
  have ok: "cas_ok lib n c" using cas_reach_ok assms(1-4) by fastforce
  have "View_Member (node_ID (cr_self c)) (cas_View c) \<noteq> None" if "cr_started c"
    using ok that by (auto simp: cas_ok_def View_Member_def find_None_iff cas_View_def view_members_def)
  moreover obtain nodes d where "cas_Locate lib iter u k exclude c = (nodes, d)" by fastforce
  with locate_ok [OF assms(1,2,5,6) ok assms(7)]
  have "fst (cas_Locate lib iter u k exclude c) = placed lib iter' u k exclude (vw_Members (cas_View c))"
    by (simp add: view_members_def cas_View_def)
  ultimately show ?thesis
    using ok poll_ok(2) [OF assms(1,5) ok assms(4)] by (auto simp: cas_ok_def cas_View_def view_members_def)
qed

text \<open>A founder, in an empty store.\<close>

definition demo_founder :: "(mem_store, string list) Coordinator" where
  "demo_founder = fst (snd (cas_Start demo_lib (\<lambda>xs. xs) (\<lambda>_ s. s) ''12345678'' demo_params
     (cas_New \<lparr>cc_Store = Some mem_cond_ops, cc_Key = [], cc_RenewalInterval = 0, cc_PollInterval = 0, cc_ExpiryPolls = 0\<rparr>) NewMemConditionalStore))"

theorem snapshot_single_basis_witness:
  "fst (cas_Locate demo_lib (\<lambda>xs. xs) (GenUnit 0 1) 2 [''z''] demo_founder) =
     placed demo_lib rev (GenUnit 0 1) 2 [''z''] (vw_Members (cas_View demo_founder))"
proof -
  let ?cfg = "\<lparr>cc_Store = Some mem_cond_ops, cc_Key = [], cc_RenewalInterval = 0, cc_PollInterval = 0, cc_ExpiryPolls = 0\<rparr>"
  have p: "iter_perm (\<lambda>xs. xs)" "iter_perm rev" by (simp_all add: iter_perm_def)
  obtain r s where "cas_Start demo_lib (\<lambda>xs. xs) (\<lambda>_ s. s) ''12345678'' demo_params (cas_New ?cfg) NewMemConditionalStore = (r, demo_founder, s)"
    unfolding demo_founder_def by (metis prod.collapse)
  from cas_reach.started [OF cas_reach.made p(1) this] have "cas_reach demo_lib (Suc 0) demo_founder" .
  from snapshot_single_basis [OF demo_lib_ok(1,3) this _ p, of "[''z'']"] show ?thesis by (simp add: nul_free_def)
qed

end
