(* ===== verification/Refusals.thy ===== *)
theory Refusals
  imports Memory_Backend
begin

text \<open>
  Errors as the cluster classifies them: the Go error values the package builds, \<^verbatim>\<open>errors.Is\<close> over their
  wrapping, the machine-readable refusal reason of \<^verbatim>\<open>pkg/cluster/reason.go\<close>, the acquiring refusal of
  \<^verbatim>\<open>multibackend_rebalance.go\<close>, and the classifiers of \<^verbatim>\<open>replicate.go\<close> and \<^verbatim>\<open>multibackend_handoff_retry.go\<close>. The gRPC
  status package is a parameter, with its documented behaviour as the locale \<open>grpc_status\<close>.
\<close>

section \<open>Error values\<close>

datatype code = Unavailable | ResourceExhausted | Unknown | DeadlineExceeded | OtherCode nat

datatype status_detail = ErrorInfo string string | OtherDetail string

datatype status = Status (st_code: code) (st_message: string) (st_details: "status_detail list")

datatype goerr =
    BackendErr backend_error
  | ErrAcquiring
  | LocalReason string goerr
  | StatusError status
  | AcquiringError status
  | ReasonError goerr goerr
  | UnreachableOnlyError goerr
  | JoinError goerr goerr
  | ContextDeadlineExceeded
  | PlainError string

definition errAcquiringSentinel :: goerr where
  "errAcquiringSentinel = LocalReason ''cluster: unit acquiring (handoff window)'' ErrAcquiring"

text \<open>\<^verbatim>\<open>errors.Is\<close>: the error itself, or one that its \<^verbatim>\<open>Unwrap\<close> method gives; an \<^verbatim>\<open>acquiringError\<close> unwraps to the
  package's sentinel, which unwraps to the exported one.\<close>

fun errors_Is :: "goerr \<Rightarrow> goerr \<Rightarrow> bool" where
  "errors_Is (LocalReason msg sentinel) target \<longleftrightarrow> LocalReason msg sentinel = target \<or> errors_Is sentinel target"
| "errors_Is (AcquiringError st) target \<longleftrightarrow> target \<in> {AcquiringError st, errAcquiringSentinel, ErrAcquiring}"
| "errors_Is (ReasonError err sentinel) target \<longleftrightarrow>
     ReasonError err sentinel = target \<or> errors_Is err target \<or> errors_Is sentinel target"
| "errors_Is (UnreachableOnlyError inner) target \<longleftrightarrow> UnreachableOnlyError inner = target \<or> errors_Is inner target"
| "errors_Is (JoinError a b) target \<longleftrightarrow> JoinError a b = target \<or> errors_Is a target \<or> errors_Is b target"
| "errors_Is e target \<longleftrightarrow> e = target"

section \<open>The status package\<close>

text \<open>\<open>gs_FromError\<close> is the status and its ok flag; \<open>gs_WithDetails\<close> may fail; \<open>gs_wire\<close> is what a peer receives for an
  error a handler returns. \<open>None\<close> is a nil error.\<close>

record grpc_ops =
  gs_FromError :: "goerr \<Rightarrow> status \<times> bool"
  gs_WithDetails :: "status \<Rightarrow> status_detail \<Rightarrow> status option"
  gs_wire :: "goerr \<Rightarrow> goerr"

section \<open>Reasons\<close>

datatype RefusalReason = RefusalReason (reason_string: string)

definition ReasonAcquiring :: RefusalReason where
  "ReasonAcquiring = RefusalReason ''ACQUIRING''"

definition reasonDomain :: string where
  "reasonDomain = ''shale.dev''"

definition reasonSentinels :: "RefusalReason \<rightharpoonup> goerr" where
  "reasonSentinels = [ReasonAcquiring \<mapsto> ErrAcquiring]"

definition withReason :: "grpc_ops \<Rightarrow> status \<Rightarrow> RefusalReason \<Rightarrow> status" where
  "withReason gs st reason =
     (case gs_WithDetails gs st (ErrorInfo (reason_string reason) reasonDomain) of None \<Rightarrow> st | Some st' \<Rightarrow> st')"

fun detail_reason :: "status_detail list \<Rightarrow> RefusalReason option" where
  "detail_reason [] = None"
| "detail_reason (OtherDetail d # ds) = detail_reason ds"
| "detail_reason (ErrorInfo reason domain # ds) =
     (if domain \<noteq> reasonDomain then detail_reason ds
      else if RefusalReason reason \<in> dom reasonSentinels then Some (RefusalReason reason)
      else detail_reason ds)"

definition reasonOf :: "grpc_ops \<Rightarrow> goerr \<Rightarrow> RefusalReason option" where
  "reasonOf gs err = (case gs_FromError gs err of (st, ok) \<Rightarrow> if \<not> ok then None else detail_reason (st_details st))"

definition reasonTerminal :: "grpc_ops \<Rightarrow> code \<Rightarrow> RefusalReason \<Rightarrow> string \<Rightarrow> goerr" where
  "reasonTerminal gs cd reason msg =
     (case reasonSentinels reason of
        None \<Rightarrow> StatusError (Status cd msg [])
      | Some sentinel \<Rightarrow> ReasonError (StatusError (withReason gs (Status cd msg []) reason)) sentinel)"

definition legsCarryReason :: "goerr list \<Rightarrow> RefusalReason \<Rightarrow> bool" where
  "legsCarryReason legs reason =
     (case reasonSentinels reason of None \<Rightarrow> False | Some sentinel \<Rightarrow> list_ex (\<lambda>leg. errors_Is leg sentinel) legs)"

definition decodeRefusalReason :: "grpc_ops \<Rightarrow> goerr \<Rightarrow> goerr" where
  "decodeRefusalReason gs err =
     (case reasonOf gs err of
        None \<Rightarrow> err
      | Some r \<Rightarrow> (case reasonSentinels r of None \<Rightarrow> err | Some sentinel \<Rightarrow> ReasonError err sentinel))"

section \<open>The acquiring refusal\<close>

definition errUnitAcquiringBecause :: "grpc_ops \<Rightarrow> string \<Rightarrow> string \<Rightarrow> goerr" where
  "errUnitAcquiringBecause gs op cause =
     AcquiringError (withReason gs (Status Unavailable (''cluster: '' @ op @ '': unit for key is '' @ cause @ ''; retry shortly'') [])
       ReasonAcquiring)"

definition errUnitAcquiring :: "grpc_ops \<Rightarrow> string \<Rightarrow> goerr" where
  "errUnitAcquiring gs op = errUnitAcquiringBecause gs op ''handing off to this node''"

definition isAcquiringErr :: "goerr \<Rightarrow> bool" where
  "isAcquiringErr err = errors_Is err errAcquiringSentinel"

definition recodeForwardedReplicaErr :: "grpc_ops \<Rightarrow> goerr option \<Rightarrow> goerr option" where
  "recodeForwardedReplicaErr gs err =
     (case err of
        None \<Rightarrow> None
      | Some e \<Rightarrow>
          if \<not> isAcquiringErr e then Some e
          else Some (StatusError (withReason gs (Status ResourceExhausted
                 ''cluster: forwarded replica write: unit mid-acquire (handoff window); retry shortly'' []) ReasonAcquiring)))"

section \<open>Classifiers\<close>

definition isTransientReplicaErr :: "grpc_ops \<Rightarrow> goerr \<Rightarrow> bool" where
  "isTransientReplicaErr gs err =
     (if isAcquiringErr err then True
      else case gs_FromError gs err of (st, ok) \<Rightarrow> ok \<and> st_code st = ResourceExhausted)"

definition closed_text :: string where
  "closed_text = ''backend: closed''"

definition isTransientReadLegErr :: "grpc_ops \<Rightarrow> goerr \<Rightarrow> bool" where
  "isTransientReadLegErr gs err =
     (if isTransientReplicaErr gs err then True
      else if errors_Is err (BackendErr ErrClosed) then True
      else case gs_FromError gs err of (st, ok) \<Rightarrow> ok \<and> st_code st = Unknown \<and> st_message st = closed_text)"

definition isUnreachableLegErr :: "grpc_ops \<Rightarrow> goerr \<Rightarrow> bool" where
  "isUnreachableLegErr gs err = (case gs_FromError gs err of (st, ok) \<Rightarrow> ok \<and> st_code st = Unavailable)"

definition isDeadlineErr :: "grpc_ops \<Rightarrow> goerr \<Rightarrow> bool" where
  "isDeadlineErr gs err =
     (if errors_Is err ContextDeadlineExceeded then True
      else case gs_FromError gs err of (st, ok) \<Rightarrow> ok \<and> st_code st = DeadlineExceeded)"

text \<open>\<^verbatim>\<open>errors.As\<close> for the unreachable-only marker: the first one on the way down.\<close>

fun as_unreachable :: "goerr \<Rightarrow> goerr option" where
  "as_unreachable (UnreachableOnlyError inner) = Some inner"
| "as_unreachable (LocalReason msg sentinel) = as_unreachable sentinel"
| "as_unreachable (ReasonError err sentinel) =
     (case as_unreachable err of Some inner \<Rightarrow> Some inner | None \<Rightarrow> as_unreachable sentinel)"
| "as_unreachable (JoinError a b) = (case as_unreachable a of Some inner \<Rightarrow> Some inner | None \<Rightarrow> as_unreachable b)"
| "as_unreachable e = None"

definition isUnreachableOnly :: "goerr \<Rightarrow> bool" where
  "isUnreachableOnly err \<longleftrightarrow> as_unreachable err \<noteq> None"

definition unwrapUnreachableOnly :: "goerr \<Rightarrow> goerr" where
  "unwrapUnreachableOnly err = (case as_unreachable err of Some inner \<Rightarrow> inner | None \<Rightarrow> err)"

definition attributeToAcquiring :: "grpc_ops \<Rightarrow> goerr \<Rightarrow> bool \<Rightarrow> goerr" where
  "attributeToAcquiring gs err sawAcquiring =
     (if \<not> sawAcquiring then err
      else if errors_Is err ErrAcquiring then err
      else if \<not> isDeadlineErr gs err then err
      else JoinError err ErrAcquiring)"

section \<open>What the cluster relies on of the status package\<close>

text \<open>An error the package made, or one with a \<^verbatim>\<open>GRPCStatus\<close> method, gives its status with ok true; a plain error
  that wraps none gives ok false. A detail is appended, and the code and message stay, when
  the code is not OK. A handler's error reaches the peer as its status.\<close>

fun carries_status :: "goerr \<Rightarrow> bool" where
  "carries_status (StatusError st) \<longleftrightarrow> True"
| "carries_status (AcquiringError st) \<longleftrightarrow> True"
| "carries_status (ReasonError err sentinel) \<longleftrightarrow> True"
| "carries_status (UnreachableOnlyError inner) \<longleftrightarrow> carries_status inner"
| "carries_status (JoinError a b) \<longleftrightarrow> carries_status a \<or> carries_status b"
| "carries_status (LocalReason msg sentinel) \<longleftrightarrow> carries_status sentinel"
| "carries_status e \<longleftrightarrow> False"

locale grpc_status =
  fixes gs :: grpc_ops
  assumes from_status: "gs_FromError gs (StatusError st) = (st, True)"
    and from_acquiring: "gs_FromError gs (AcquiringError st) = (st, True)"
    and from_reason: "gs_FromError gs err = (st, True) \<Longrightarrow> gs_FromError gs (ReasonError err sentinel) = (st, True)"
    and from_plain: "\<not> carries_status err \<Longrightarrow> \<not> snd (gs_FromError gs err)"
    and with_details: "gs_WithDetails gs (Status cd msg ds) d = Some (Status cd msg (ds @ [d]))"
    and wire_status: "gs_FromError gs err = (st, True) \<Longrightarrow> gs_wire gs err = StatusError st"

text \<open>The documented behaviour as a function: the first status on the way down, \<open>Unknown\<close> with ok false otherwise.\<close>

fun ref_status :: "goerr \<Rightarrow> status option" where
  "ref_status (StatusError st) = Some st"
| "ref_status (AcquiringError st) = Some st"
| "ref_status (ReasonError err sentinel) = (case ref_status err of Some st \<Rightarrow> Some st | None \<Rightarrow> Some (Status Unknown '''' []))"
| "ref_status (UnreachableOnlyError inner) = ref_status inner"
| "ref_status (JoinError a b) = (case ref_status a of Some st \<Rightarrow> Some st | None \<Rightarrow> ref_status b)"
| "ref_status (LocalReason msg sentinel) = ref_status sentinel"
| "ref_status e = None"

definition ref_grpc :: grpc_ops where
  "ref_grpc = \<lparr>gs_FromError = (\<lambda>e. case ref_status e of Some st \<Rightarrow> (st, True) | None \<Rightarrow> (Status Unknown '''' [], False)),
     gs_WithDetails = (\<lambda>st d. Some (Status (st_code st) (st_message st) (st_details st @ [d]))),
     gs_wire = (\<lambda>e. case ref_status e of Some st \<Rightarrow> StatusError st | None \<Rightarrow> StatusError (Status Unknown '''' []))\<rparr>"

lemma ref_status_carries: "(\<exists>st. ref_status e = Some st) \<longleftrightarrow> carries_status e"
  by (induction e) (auto split: option.splits)

interpretation reference: grpc_status ref_grpc
proof
  fix err st sentinel
  show "gs_FromError ref_grpc err = (st, True) \<Longrightarrow> gs_FromError ref_grpc (ReasonError err sentinel) = (st, True)"
    "gs_FromError ref_grpc err = (st, True) \<Longrightarrow> gs_wire ref_grpc err = StatusError st"
    by (auto simp: ref_grpc_def split: option.splits)
  show "\<not> carries_status err \<Longrightarrow> \<not> snd (gs_FromError ref_grpc err)"
    using ref_status_carries [of err] by (auto simp: ref_grpc_def split: option.splits)
qed (simp_all add: ref_grpc_def)

section \<open>The reason survives every path\<close>

context grpc_status
begin

lemma withReason_eq: "withReason gs (Status cd msg ds) r = Status cd msg (ds @ [ErrorInfo (reason_string r) reasonDomain])"
  by (simp add: withReason_def with_details)

lemma detail_acquiring [simp]: "detail_reason [ErrorInfo (reason_string ReasonAcquiring) reasonDomain] = Some ReasonAcquiring"
  by (simp add: reasonSentinels_def ReasonAcquiring_def)

lemma decode_tagged:
  "decodeRefusalReason gs (StatusError (withReason gs (Status cd msg []) ReasonAcquiring)) =
     ReasonError (StatusError (withReason gs (Status cd msg []) ReasonAcquiring)) ErrAcquiring"
  by (simp add: decodeRefusalReason_def reasonOf_def from_status withReason_eq reasonSentinels_def)

lemma from_tagged:
  "gs_FromError gs (ReasonError (StatusError st) s) = (st, True)"
  by (rule from_reason [OF from_status])

lemma wire_acquiring: "gs_wire gs (AcquiringError st) = StatusError st"
  by (rule wire_status [OF from_acquiring])

lemma sentinel_differs [simp]: "ErrAcquiring \<noteq> errAcquiringSentinel" "errAcquiringSentinel \<noteq> ErrAcquiring"
  "StatusError st \<noteq> errAcquiringSentinel" "ReasonError e s \<noteq> errAcquiringSentinel"
  by (simp_all add: errAcquiringSentinel_def)

text \<open>A leg of a fan-out: local, or the answer of a peer that recoded its own refusal.\<close>

lemma local_leg:
  "isAcquiringErr (errUnitAcquiringBecause gs op cause)" "errors_Is (errUnitAcquiringBecause gs op cause) ErrAcquiring"
  "isTransientReplicaErr gs (errUnitAcquiringBecause gs op cause)"
  by (simp_all add: isTransientReplicaErr_def isAcquiringErr_def errUnitAcquiringBecause_def)

lemma forwarded_leg:
  assumes "isAcquiringErr e" "recodeForwardedReplicaErr gs (Some e) = Some f"
  shows "let leg = decodeRefusalReason gs (gs_wire gs f)
         in errors_Is leg ErrAcquiring \<and> \<not> isAcquiringErr leg \<and> isTransientReplicaErr gs leg"
proof -
  let ?st = "withReason gs (Status ResourceExhausted
     ''cluster: forwarded replica write: unit mid-acquire (handoff window); retry shortly'' []) ReasonAcquiring"
  have f: "f = StatusError ?st" using assms by (simp add: recodeForwardedReplicaErr_def)
  then have "decodeRefusalReason gs (gs_wire gs f) = ReasonError (StatusError ?st) ErrAcquiring"
    using decode_tagged by (simp add: wire_status [OF from_status])
  then show ?thesis
    by (simp add: isAcquiringErr_def isTransientReplicaErr_def from_tagged withReason_eq)
qed

lemma client_leg:
  "let leg = decodeRefusalReason gs (gs_wire gs (errUnitAcquiringBecause gs op cause))
   in errors_Is leg ErrAcquiring \<and> \<not> isTransientReplicaErr gs leg \<and> isUnreachableLegErr gs leg"
proof -
  let ?msg = "''cluster: '' @ op @ '': unit for key is '' @ cause @ ''; retry shortly''"
  have "decodeRefusalReason gs (gs_wire gs (errUnitAcquiringBecause gs op cause)) =
      ReasonError (StatusError (withReason gs (Status Unavailable ?msg []) ReasonAcquiring)) ErrAcquiring"
    unfolding errUnitAcquiringBecause_def wire_acquiring by (rule decode_tagged)
  then show ?thesis by (simp add: isTransientReplicaErr_def isAcquiringErr_def from_tagged withReason_eq isUnreachableLegErr_def)
qed

lemma down_leg:
  "decodeRefusalReason gs (StatusError (Status Unavailable msg [])) = StatusError (Status Unavailable msg [])"
  "\<not> isTransientReplicaErr gs (StatusError (Status Unavailable msg []))" "\<not> isTransientReadLegErr gs (StatusError (Status Unavailable msg []))"
  "isUnreachableLegErr gs (StatusError (Status Unavailable msg []))" "\<not> errors_Is (StatusError (Status Unavailable msg [])) ErrAcquiring"
  by (simp_all add: decodeRefusalReason_def reasonOf_def from_status isTransientReplicaErr_def isTransientReadLegErr_def
      isAcquiringErr_def isUnreachableLegErr_def)

lemma terminal_roundtrip:
  "errors_Is (reasonTerminal gs cd ReasonAcquiring msg) ErrAcquiring \<and>
   errors_Is (decodeRefusalReason gs (gs_wire gs (reasonTerminal gs cd ReasonAcquiring msg))) ErrAcquiring \<and>
   gs_FromError gs (reasonTerminal gs cd ReasonAcquiring msg) =
     (Status cd msg [ErrorInfo (reason_string ReasonAcquiring) reasonDomain], True)"
proof -
  have t: "reasonTerminal gs cd ReasonAcquiring msg = ReasonError (StatusError (withReason gs (Status cd msg []) ReasonAcquiring)) ErrAcquiring"
    by (simp add: reasonTerminal_def reasonSentinels_def)
  have "gs_wire gs (reasonTerminal gs cd ReasonAcquiring msg) = StatusError (withReason gs (Status cd msg []) ReasonAcquiring)"
    unfolding t by (rule wire_status [OF from_tagged])
  then show ?thesis using decode_tagged by (simp add: t from_tagged withReason_eq)
qed

end

text \<open>C36: The acquiring refusal keeps its identity on every path, and nothing else acquires it. Locally it matches the
  exported sentinel and is a transient of the fan-out; forwarded by a replica it crosses the wire as a transient and is
  decoded back to the exported sentinel without the package's private tag; forwarded to a client it matches the
  sentinel while its code is that of an unreachable peer; and a peer that is really down matches nothing of it.\<close>

theorem refusal_reason_survives:
  assumes "grpc_status gs"
  shows "let e = errUnitAcquiringBecause gs op cause;
             leg = decodeRefusalReason gs (gs_wire gs (the (recodeForwardedReplicaErr gs (Some e))));
             client = decodeRefusalReason gs (gs_wire gs e);
             down = decodeRefusalReason gs (StatusError (Status Unavailable msg []))
    in (errors_Is e ErrAcquiring \<and> isAcquiringErr e \<and> isTransientReplicaErr gs e) \<and>
       (errors_Is leg ErrAcquiring \<and> \<not> isAcquiringErr leg \<and> isTransientReplicaErr gs leg) \<and>
       (errors_Is client ErrAcquiring \<and> \<not> isTransientReplicaErr gs client \<and> isUnreachableLegErr gs client) \<and>
       (\<not> errors_Is down ErrAcquiring \<and> \<not> isTransientReplicaErr gs down \<and> \<not> isTransientReadLegErr gs down \<and> isUnreachableLegErr gs down)"
proof -
  note l = grpc_status.local_leg [OF assms, of op cause] and d = grpc_status.down_leg [OF assms, of msg]
    and c = grpc_status.client_leg [OF assms, of op cause]
  obtain f where f: "recodeForwardedReplicaErr gs (Some (errUnitAcquiringBecause gs op cause)) = Some f"
    using l(1) by (simp add: recodeForwardedReplicaErr_def)
  from grpc_status.forwarded_leg [OF assms l(1) f] l c d f show ?thesis by (simp add: Let_def)
qed

theorem refusal_reason_survives_witness:
  "errors_Is (decodeRefusalReason ref_grpc (gs_wire ref_grpc (errUnitAcquiringBecause ref_grpc ''Put'' ''moving''))) ErrAcquiring"
  using refusal_reason_survives [OF reference.grpc_status_axioms, of "''Put''" "''moving''"] by (simp add: Let_def)

end
