(* ===== verification/Envelope.thy ===== *)
theory Envelope
  imports Prelude "HOL-Library.Product_Lexorder"
begin

text \<open>
  The last-writer-wins envelope of a replicated value (\<^verbatim>\<open>src/pkg/cluster/envelope.go\<close>): the stamp and its
  order, the binary form and its parser; and the monotone stamp source of a node
  (\<^verbatim>\<open>src/pkg/cluster/stampclock.go\<close>), whose lock-free loops are modelled attempt by attempt.
\<close>

section \<open>Stamps and envelopes\<close>

definition envelopeMagic :: char where
  "envelopeMagic = CHR 0xE0"

definition MaxNodeIDLen :: nat where
  "MaxNodeIDLen = 256"

datatype Stamp = Stamp (sp_TimestampNanos: u64) (sp_NodeID: string)

definition zero_Stamp :: Stamp where
  "zero_Stamp = Stamp 0 []"

definition Greater :: "Stamp \<Rightarrow> Stamp \<Rightarrow> bool" where
  "Greater a b =
     (if sp_TimestampNanos a \<noteq> sp_TimestampNanos b then sp_TimestampNanos a > sp_TimestampNanos b
      else sp_NodeID a > sp_NodeID b)"

datatype Envelope = Envelope (ev_Stamp: Stamp) (ev_Payload: bytes)

text \<open>\<^verbatim>\<open>uint16(idLen)\<close> keeps the low 16 bits of the length.\<close>

definition Encode :: "Envelope \<Rightarrow> bytes" where
  "Encode env =
     envelopeMagic # put_u64 (sp_TimestampNanos (ev_Stamp env))
       @ put_u16 (of_nat (length (sp_NodeID (ev_Stamp env)))) @ sp_NodeID (ev_Stamp env) @ ev_Payload env"

datatype envelope_error = HeaderTruncated | NodeIDOverruns nat nat

definition decodeStamp :: "bytes \<Rightarrow> envelope_error + Stamp \<times> nat" where
  "decodeStamp b =
     (if length b = 0 \<or> b ! 0 \<noteq> envelopeMagic then Inr (zero_Stamp, 0)
      else if length b < 1 + 8 + 2 then Inl HeaderTruncated
      else
        (let ts = get_u64 (take 8 (drop 1 b));
             idLen = unat (get_u16 (take 2 (drop 9 b)));
             headerEnd = 11 + idLen
         in if headerEnd > length b then Inl (NodeIDOverruns idLen (length b))
            else Inr (Stamp ts (take idLen (drop 11 b)), headerEnd)))"

definition Decode :: "bytes \<Rightarrow> envelope_error + Envelope" where
  "Decode b =
     (case decodeStamp b of
        Inl e \<Rightarrow> Inl e
      | Inr (stamp, payloadStart) \<Rightarrow>
          if payloadStart = 0 then Inr (Envelope zero_Stamp b)
          else Inr (Envelope stamp (drop payloadStart b)))"

section \<open>The stamp clock\<close>

definition MaxUint64 :: u64 where
  "MaxUint64 = - 1"

text \<open>\<open>n\<close> is the reading of the wall clock, an int64.\<close>

definition wallNow :: "int \<Rightarrow> u64" where
  "wallNow n = (if n < 0 then 0 else word_of_int n)"

text \<open>The value one attempt of \<^verbatim>\<open>Next\<close> computes from the wall clock and the mark it loaded; \<^const>\<open>None\<close> is the
  saturated return.\<close>

definition next_stamp :: "u64 \<Rightarrow> u64 \<Rightarrow> u64 option" where
  "next_stamp wall mark =
     (if wall \<le> mark then (if mark = MaxUint64 then None else Some (mark + 1)) else Some wall)"

text \<open>The loops of \<^verbatim>\<open>Next\<close> and \<^verbatim>\<open>Observe\<close>. An attempt loads the mark, and other goroutines may change it
  before the compare-and-swap: each attempt comes with its wall reading and with what the others do
  to the mark in that window. The list is the schedule; \<^const>\<open>None\<close> means it ended with the loop still
  trying. The result is the stamp and the new mark.\<close>

fun stamp_Next :: "(int \<times> (u64 \<Rightarrow> u64)) list \<Rightarrow> u64 \<Rightarrow> (u64 \<times> u64) option" where
  "stamp_Next [] mark = None"
| "stamp_Next ((wall, others) # rest) mark =
     (case next_stamp (wallNow wall) mark of
        None \<Rightarrow> Some (MaxUint64, mark)
      | Some next \<Rightarrow> if others mark = mark then Some (next, next) else stamp_Next rest (others mark))"

fun stamp_Observe :: "u64 \<Rightarrow> (u64 \<Rightarrow> u64) list \<Rightarrow> u64 \<Rightarrow> u64 option" where
  "stamp_Observe ts [] mark = None"
| "stamp_Observe ts (others # rest) mark =
     (if ts \<le> mark then Some mark
      else if others mark = mark then Some ts else stamp_Observe ts rest (others mark))"

text \<open>Without contention one attempt is enough: the effect of the two operations on the mark.\<close>

definition clock_next :: "int \<Rightarrow> u64 \<Rightarrow> u64 \<times> u64" where
  "clock_next wall mark =
     (case next_stamp (wallNow wall) mark of None \<Rightarrow> (MaxUint64, mark) | Some n \<Rightarrow> (n, n))"

definition clock_observe :: "u64 \<Rightarrow> u64 \<Rightarrow> u64" where
  "clock_observe ts mark = (if ts \<le> mark then mark else ts)"

text \<open>A history of a node's clock: the operations in the order their compare-and-swaps took effect, and
  the stamps issued.\<close>

datatype clock_op = ClockNext int | ClockObserve u64

fun clock_run :: "clock_op list \<Rightarrow> u64 \<Rightarrow> u64 list \<times> u64" where
  "clock_run [] mark = ([], mark)"
| "clock_run (ClockNext w # cs) mark =
     (fst (clock_next w mark) # fst (clock_run cs (snd (clock_next w mark))),
      snd (clock_run cs (snd (clock_next w mark))))"
| "clock_run (ClockObserve ts # cs) mark = clock_run cs (clock_observe ts mark)"

section \<open>The stamp order is linear\<close>

instantiation Stamp :: linorder
begin

definition less_Stamp :: "Stamp \<Rightarrow> Stamp \<Rightarrow> bool" where
  "less_Stamp a b \<longleftrightarrow> Greater b a"

definition less_eq_Stamp :: "Stamp \<Rightarrow> Stamp \<Rightarrow> bool" where
  "less_eq_Stamp a b \<longleftrightarrow> a = b \<or> Greater b a"

instance
proof
  fix x y z :: Stamp
  have lt: "a < b \<longleftrightarrow> (sp_TimestampNanos a, sp_NodeID a) < (sp_TimestampNanos b, sp_NodeID b)" for a b :: Stamp
    by (auto simp: less_Stamp_def Greater_def)
  have eq: "a = b \<longleftrightarrow> (sp_TimestampNanos a, sp_NodeID a) = (sp_TimestampNanos b, sp_NodeID b)" for a b :: Stamp
    by (cases a; cases b) simp
  have le: "a \<le> b \<longleftrightarrow> (sp_TimestampNanos a, sp_NodeID a) \<le> (sp_TimestampNanos b, sp_NodeID b)" for a b :: Stamp
    unfolding order_le_less lt [symmetric] eq [symmetric] less_eq_Stamp_def less_Stamp_def by blast
  show "x < y \<longleftrightarrow> x \<le> y \<and> \<not> y \<le> x" unfolding lt le by (rule less_le_not_le)
  show "x \<le> x" unfolding le by simp
  show "x \<le> z" if "x \<le> y" "y \<le> z" using that unfolding le by (rule order_trans)
  show "x = y" if "x \<le> y" "y \<le> x" using that unfolding le eq by (rule order_antisym)
  show "x \<le> y \<or> y \<le> x" unfolding le by (rule linear)
qed

end

lemma Greater_less: "Greater a b \<longleftrightarrow> b < a"
  by (simp add: less_Stamp_def)

lemma zero_Stamp_least: "zero_Stamp \<le> s"
  by (cases s; cases "sp_NodeID s") (auto simp: less_eq_Stamp_def Greater_def zero_Stamp_def word_gt_0)

section \<open>Binary form\<close>

lemma decodeStamp_Encode:
  assumes "length (sp_NodeID (ev_Stamp env)) < 2 ^ 16"
  shows "decodeStamp (Encode env) = Inr (ev_Stamp env, 11 + length (sp_NodeID (ev_Stamp env)))"
proof -
  let ?ts = "put_u64 (sp_TimestampNanos (ev_Stamp env))" and ?id = "sp_NodeID (ev_Stamp env)"
  let ?len = "put_u16 (of_nat (length ?id))"
  have b: "Encode env = envelopeMagic # ?ts @ ?len @ ?id @ ev_Payload env" by (simp add: Encode_def)
  have "unat (of_nat (length ?id) :: u16) = length ?id"
    using assms by (intro of_nat_inverse [OF refl]) simp
  moreover have "take 8 (drop 1 (Encode env)) = ?ts" "take 2 (drop 9 (Encode env)) = ?len"
    "drop 11 (Encode env) = ?id @ ev_Payload env"
    by (simp_all add: b drop_Cons')
  ultimately show ?thesis
    by (simp add: decodeStamp_def b Let_def)
qed

lemma Decode_Encode_envelope:
  "length (sp_NodeID (ev_Stamp env)) < 2 ^ 16 \<Longrightarrow> Decode (Encode env) = Inr env"
proof -
  assume a: "length (sp_NodeID (ev_Stamp env)) < 2 ^ 16"
  have "drop (11 + length (sp_NodeID (ev_Stamp env))) (Encode env) = ev_Payload env"
    by (simp add: Encode_def drop_Cons')
  with decodeStamp_Encode [OF a] show ?thesis by (cases env) (simp add: Decode_def)
qed

lemma decodeStamp_payloadStart: "decodeStamp b = Inr (st, n) \<Longrightarrow> n = 0 \<and> st = zero_Stamp \<or> 11 \<le> n \<and> n \<le> length b"
  by (auto simp: decodeStamp_def Let_def split: if_splits)

lemma decodeStamp_zero: "decodeStamp b = Inr (st, 0) \<Longrightarrow> st = zero_Stamp"
  by (auto simp: decodeStamp_def Let_def split: if_splits)

lemma Decode_stamp: "Decode b = Inr env \<Longrightarrow> \<exists>n. decodeStamp b = Inr (ev_Stamp env, n)"
  by (auto simp: Decode_def dest!: decodeStamp_zero split: sum.splits if_splits)

text \<open>C29: The envelope codec is lossless and the cheap stamp parser agrees with the full one. An envelope whose
  node id is within the configured limit is decoded from its bytes exactly, tombstones (empty
  payload) included; bytes without the magic decode to themselves under the zero stamp, which no stamp
  loses to; and on all bytes \<^verbatim>\<open>decodeStamp\<close> returns the stamp, or the error, that \<^verbatim>\<open>Decode\<close> does.\<close>

theorem envelope_codec:
  "(length (sp_NodeID (ev_Stamp env)) \<le> MaxNodeIDLen \<longrightarrow> Decode (Encode env) = Inr env) \<and>
   (b = [] \<or> hd b \<noteq> envelopeMagic \<longrightarrow> Decode b = Inr (Envelope zero_Stamp b)) \<and>
   \<not> Greater zero_Stamp s \<and>
   (case Decode b of
      Inl e \<Rightarrow> decodeStamp b = Inl e
    | Inr e \<Rightarrow> \<exists>n. decodeStamp b = Inr (ev_Stamp e, n))"
proof (intro conjI impI)
  show "Decode (Encode env) = Inr env" if "length (sp_NodeID (ev_Stamp env)) \<le> MaxNodeIDLen"
    using that by (intro Decode_Encode_envelope) (simp add: MaxNodeIDLen_def)
  show "Decode b = Inr (Envelope zero_Stamp b)" if "b = [] \<or> hd b \<noteq> envelopeMagic"
    using that by (cases b) (auto simp: Decode_def decodeStamp_def)
  show "\<not> Greater zero_Stamp s" by (simp add: Greater_less not_less zero_Stamp_least)
  show "case Decode b of Inl e \<Rightarrow> decodeStamp b = Inl e | Inr e \<Rightarrow> \<exists>n. decodeStamp b = Inr (ev_Stamp e, n)"
    by (auto simp: Decode_def dest!: decodeStamp_zero split: sum.splits if_splits)
qed

theorem envelope_codec_witness:
  "let env = Envelope (Stamp 258 ''n1'') ''v'' in
   Encode env = [CHR 0xE0, CHR 0x00, CHR 0x00, CHR 0x00, CHR 0x00, CHR 0x00, CHR 0x00, CHR 0x01, CHR 0x02,
     CHR 0x00, CHR 0x02, CHR ''n'', CHR ''1'', CHR ''v''] \<and>
   Decode (Encode env) = Inr env"
proof -
  let ?env = "Envelope (Stamp 258 ''n1'') ''v''"
  have "Encode ?env = [CHR 0xE0, CHR 0x00, CHR 0x00, CHR 0x00, CHR 0x00, CHR 0x00, CHR 0x00, CHR 0x01, CHR 0x02,
     CHR 0x00, CHR 0x02, CHR ''n'', CHR ''1'', CHR ''v'']" by code_simp
  moreover have "length (sp_NodeID (ev_Stamp ?env)) \<le> MaxNodeIDLen" by (simp add: MaxNodeIDLen_def)
  ultimately show ?thesis using envelope_codec [of ?env "[]" zero_Stamp] by (simp add: Let_def)
qed

section \<open>Monotone stamps\<close>

lemma le_MaxUint64: "w \<le> MaxUint64"
  by (simp add: MaxUint64_def)

lemma not_max_Suc: "mark \<noteq> MaxUint64 \<Longrightarrow> mark < mark + 1"
  by (simp add: MaxUint64_def u64_succ_less)

lemma next_stamp_Some: "next_stamp wall mark = Some v \<Longrightarrow> mark < v \<and> wall \<le> v"
  using not_max_Suc [of mark] by (auto simp: next_stamp_def split: if_splits)

lemma next_stamp_None: "next_stamp wall mark = None \<longleftrightarrow> mark = MaxUint64"
  using le_MaxUint64 [of wall] by (auto simp: next_stamp_def)

text \<open>Under any interference that only raises the mark, the loop issues a stamp above every mark it started
  from, and leaves the mark at that stamp.\<close>

lemma stamp_Next_spec:
  assumes "stamp_Next sched mark = Some (v, mark')" "\<forall>(w, others)\<in>set sched. \<forall>x. x \<le> others x"
  shows "mark' = v \<and> mark \<le> v \<and> (v = MaxUint64 \<or> mark < v) \<and>
    (\<exists>cur wall. mark \<le> cur \<and> wall \<in> fst ` set sched \<and> clock_next wall cur = (v, mark'))"
  using assms
proof (induction sched arbitrary: mark)
  case (Cons a sched)
  obtain w others where a: "a = (w, others)" by fastforce
  have up: "x \<le> others x" for x using Cons.prems(2) a by auto
  show ?case
  proof (cases "next_stamp (wallNow w) mark")
    case None
    then have "clock_next w mark = (MaxUint64, mark)" by (simp add: clock_next_def)
    moreover have "mark = MaxUint64" using None by (simp add: next_stamp_None)
    moreover note None
    ultimately show ?thesis using Cons.prems a by (auto intro!: exI [of _ mark] exI [of _ w])
  next
    case (Some n)
    show ?thesis
    proof (cases "others mark = mark")
      case True
      moreover have "clock_next w mark = (n, n)" using Some by (simp add: clock_next_def)
      ultimately show ?thesis
        using Some Cons.prems a next_stamp_Some [OF Some] by (auto intro!: exI [of _ mark] exI [of _ w])
    next
      case False
      with up [of mark] have lt: "mark < others mark" by simp
      from False Some Cons.prems a have r: "stamp_Next sched (others mark) = Some (v, mark')" by simp
      from Cons.IH [OF r] Cons.prems(2) obtain cur wall where
        "mark' = v" "others mark \<le> v" "others mark \<le> cur" "wall \<in> fst ` set sched" "clock_next wall cur = (v, mark')"
        by auto
      with lt a show ?thesis by (auto intro!: exI [of _ cur] exI [of _ wall])
    qed
  qed
qed simp

text \<open>The loop returns at the first attempt nobody interferes with.\<close>

lemma stamp_Next_returns:
  "(w, others) \<in> set sched \<Longrightarrow> \<forall>x. others x = x \<Longrightarrow> \<exists>r. stamp_Next sched mark = Some r"
proof (induction sched arbitrary: mark)
  case (Cons a sched)
  obtain w' others' where a: "a = (w', others')" by fastforce
  with Cons show ?case by (auto split: option.splits)
qed simp

text \<open>Every issued stamp is above the starting mark, and each is above the one before, until saturation.\<close>

lemma clock_run_issued:
  "MaxUint64 \<notin> set (fst (clock_run cs mark)) \<Longrightarrow>
     sorted_wrt (<) (fst (clock_run cs mark)) \<and> (\<forall>v\<in>set (fst (clock_run cs mark)). mark < v)"
proof (induction cs mark rule: clock_run.induct)
  case (2 w cs mark)
  obtain v m where vm: "clock_next w mark = (v, m)" by fastforce
  with "2.prems" have nm: "v \<noteq> MaxUint64" "MaxUint64 \<notin> set (fst (clock_run cs m))" by auto
  with vm have n: "next_stamp (wallNow w) mark = Some v" "m = v"
    by (auto simp: clock_next_def split: option.splits)
  from "2.IH" vm nm have "sorted_wrt (<) (fst (clock_run cs m)) \<and> (\<forall>u\<in>set (fst (clock_run cs m)). m < u)"
    by simp
  with next_stamp_Some [OF n(1)] vm n(2) show ?case by auto
next
  case (3 ts cs mark)
  then have "sorted_wrt (<) (fst (clock_run cs (clock_observe ts mark)))"
    "\<forall>v\<in>set (fst (clock_run cs (clock_observe ts mark))). clock_observe ts mark < v" by simp_all
  moreover have "mark \<le> clock_observe ts mark" by (auto simp: clock_observe_def)
  ultimately show ?case by auto
qed simp



end
