(* ===== verification/Apply_Newer.thy ===== *)
theory Apply_Newer
  imports Envelope Memory_Backend
begin

text \<open>
  The replica-side write rule (\<^verbatim>\<open>applyEnvelopesTx\<close> in \<^verbatim>\<open>src/pkg/cluster/apply_if_newer.go\<close>,
  \<^verbatim>\<open>EnvelopeWrite\<close> and \<^verbatim>\<open>txApplyIfNewer\<close> in \<^verbatim>\<open>apply_batch.go\<close>): an incoming envelope is written only when
  its stamp strictly beats the stored one, a whole batch in one transaction. The transaction body is
  defined over the dictionary of any backend and holds \<^verbatim>\<open>applyMu\<close> throughout, so it is one step on
  the store. It refines \<open>lww_apply\<close>, the abstract last-writer-wins store; the node's stamp clock is
  threaded through as its mark.
\<close>

section \<open>The transaction body\<close>

datatype EnvelopeWrite = EnvelopeWrite (ew_Key: bytes) (ew_Envelope: bytes)

text \<open>A corrupt incoming envelope is returned raw; every other error went through one of the two mappers.\<close>

datatype 'e apply_error = CorruptEnvelope envelope_error | Mapped 'e

text \<open>The stamp a stored value takes part with: zero for a value that does not decode.\<close>

definition value_stamp :: "bytes \<Rightarrow> Stamp" where
  "value_stamp v = (case Decode v of Inl _ \<Rightarrow> zero_Stamp | Inr env \<Rightarrow> ev_Stamp env)"

definition txApplyIfNewer ::
    "('b, 't) backend_ops \<Rightarrow> bytes \<Rightarrow> Stamp \<Rightarrow> 't \<Rightarrow> 'b \<Rightarrow> backend_error + bool \<times> Stamp" where
  "txApplyIfNewer ops key incomingStamp tx b =
     (case bo_TxGet ops key tx b of
        Inl e \<Rightarrow> if e = ErrNotFound then Inr (True, zero_Stamp) else Inl e
      | Inr storedBytes \<Rightarrow>
          (let storedEnv = (case Decode storedBytes of Inl _ \<Rightarrow> Envelope zero_Stamp [] | Inr env \<Rightarrow> env)
           in Inr (Greater incomingStamp (ev_Stamp storedEnv), ev_Stamp storedEnv)))"

fun apply_entries ::
    "('b, 't) backend_ops \<Rightarrow> (backend_error \<Rightarrow> 'e) \<Rightarrow> EnvelopeWrite list \<Rightarrow> 't \<Rightarrow> 'b \<Rightarrow> u64 \<Rightarrow> bool \<Rightarrow>
     ('e apply_error + 't \<times> bool) \<times> u64" where
  "apply_entries ops mapTxErr [] tx b mark applied = (Inr (tx, applied), mark)"
| "apply_entries ops mapTxErr (w # ws) tx b mark applied =
     (case decodeStamp (ew_Envelope w) of
        Inl e \<Rightarrow> (Inl (CorruptEnvelope e), mark)
      | Inr (stamp, _) \<Rightarrow>
          (let mark = clock_observe (sp_TimestampNanos stamp) mark
           in case txApplyIfNewer ops (ew_Key w) stamp tx b of
                Inl e \<Rightarrow> (Inl (Mapped (mapTxErr e)), mark)
              | Inr (apply, stored) \<Rightarrow>
                  (let mark = clock_observe (sp_TimestampNanos stored) mark
                   in if \<not> apply then apply_entries ops mapTxErr ws tx b mark applied
                      else case bo_TxPut ops (ew_Key w) (ew_Envelope w) tx of
                          (Some e, _) \<Rightarrow> (Inl (Mapped (mapTxErr e)), mark)
                        | (None, tx) \<Rightarrow> apply_entries ops mapTxErr ws tx b mark True)))"

definition applyEnvelopesTx ::
    "('b, 't) backend_ops \<Rightarrow> EnvelopeWrite list \<Rightarrow> (backend_error \<Rightarrow> 'e) \<Rightarrow> (backend_error \<Rightarrow> 'e) \<Rightarrow> 'b \<Rightarrow> u64 \<Rightarrow>
     ('e apply_error + bool) \<times> 'b \<times> u64" where
  "applyEnvelopesTx ops writes mapBeginErr mapTxErr b mark =
     (case bo_Begin ops b of
        Inl e \<Rightarrow> (Inl (Mapped (mapBeginErr e)), b, mark)
      | Inr tx \<Rightarrow>
          (case apply_entries ops mapTxErr writes tx b mark False of
             (Inl e, mark) \<Rightarrow> (Inl e, b, mark)
           | (Inr (tx, applied), mark) \<Rightarrow>
               (case bo_TxCommit ops tx b of
                  (Some e, b) \<Rightarrow> (Inl (Mapped (mapTxErr e)), b, mark)
                | (None, b) \<Rightarrow> (Inr applied, b, mark))))"

definition rawApplyErr :: "backend_error \<Rightarrow> backend_error" where
  "rawApplyErr e = e"

section \<open>The abstract store\<close>

text \<open>An incoming value beats what is stored: nothing is stored, or its stamp is strictly greater.\<close>

definition beats :: "bytes \<Rightarrow> bytes option \<Rightarrow> bool" where
  "beats v cur \<longleftrightarrow> (case cur of None \<Rightarrow> True | Some c \<Rightarrow> value_stamp c < value_stamp v)"

definition lww_apply :: "EnvelopeWrite \<Rightarrow> (bytes \<rightharpoonup> bytes) \<Rightarrow> (bytes \<rightharpoonup> bytes)" where
  "lww_apply w s = (if beats (ew_Envelope w) (s (ew_Key w)) then s(ew_Key w \<mapsto> ew_Envelope w) else s)"

text \<open>The values that compete for a key: the stored one and every incoming one.\<close>

definition candidates :: "bytes \<Rightarrow> (bytes \<rightharpoonup> bytes) \<Rightarrow> EnvelopeWrite list \<Rightarrow> bytes set" where
  "candidates k s ws = set_option (s k) \<union> ew_Envelope ` {w \<in> set ws. ew_Key w = k}"

definition writes_decode :: "EnvelopeWrite list \<Rightarrow> bool" where
  "writes_decode ws \<longleftrightarrow> list_all (\<lambda>w. \<exists>st n. decodeStamp (ew_Envelope w) = Inr (st, n)) ws"

section \<open>Lemmas on the abstract store\<close>

lemma decodeStamp_value: "decodeStamp e = Inr (st, n) \<Longrightarrow> value_stamp e = st"
  by (cases "n = 0") (auto simp: value_stamp_def Decode_def dest: decodeStamp_zero)

lemma lww_apply_mono: "s k = Some v \<Longrightarrow> \<exists>v'. lww_apply w s k = Some v' \<and> value_stamp v \<le> value_stamp v'"
  by (auto simp: lww_apply_def beats_def)

lemma lww_apply_covers: "\<exists>v'. lww_apply w s (ew_Key w) = Some v' \<and> value_stamp (ew_Envelope w) \<le> value_stamp v'"
  by (auto simp: lww_apply_def beats_def not_less split: option.splits)

lemma lww_apply_from: "lww_apply w s k = Some v \<Longrightarrow> s k = Some v \<or> k = ew_Key w \<and> v = ew_Envelope w"
  by (auto simp: lww_apply_def split: if_splits)

lemma lww_fold_mono: "s k = Some v \<Longrightarrow> \<exists>v'. fold lww_apply ws s k = Some v' \<and> value_stamp v \<le> value_stamp v'"
proof (induction ws arbitrary: s v)
  case (Cons w ws)
  from lww_apply_mono [of s k v w] Cons.prems obtain u where "lww_apply w s k = Some u" "value_stamp v \<le> value_stamp u" by blast
  with Cons.IH [of "lww_apply w s" u] show ?case by (auto intro: order_trans)
qed simp

lemma lww_fold_max: "c \<in> candidates k s ws \<Longrightarrow> \<exists>v'. fold lww_apply ws s k = Some v' \<and> value_stamp c \<le> value_stamp v'"
proof (induction ws arbitrary: s)
  case Nil
  then show ?case by (auto simp: candidates_def)
next
  case (Cons w ws)
  consider "s k = Some c" | "ew_Key w = k" "ew_Envelope w = c" | "c \<in> candidates k (lww_apply w s) ws"
    using Cons.prems by (auto simp: candidates_def)
  then show ?case
  proof cases
    case 1
    with lww_fold_mono [of s k c "w # ws"] show ?thesis by simp
  next
    case 2
    with lww_apply_covers [of w s] obtain u where u: "lww_apply w s k = Some u" "value_stamp c \<le> value_stamp u" by auto
    with lww_fold_mono [of "lww_apply w s" k u ws] show ?thesis by (auto intro: order_trans)
  next
    case 3
    with Cons.IH show ?thesis by simp
  qed
qed

lemma lww_fold_from: "fold lww_apply ws s k = Some v \<Longrightarrow> v \<in> candidates k s ws"
proof (induction ws arbitrary: s)
  case (Cons w ws)
  then have "v \<in> candidates k (lww_apply w s) ws" by simp
  then show ?case by (auto simp: candidates_def dest!: lww_apply_from)
qed (simp add: candidates_def)

lemma lww_fold_converge:
  assumes same: "\<And>k. candidates k s1 ws1 = candidates k s2 ws2"
    and uniq: "\<And>k c d. c \<in> candidates k s1 ws1 \<Longrightarrow> d \<in> candidates k s1 ws1 \<Longrightarrow> value_stamp c = value_stamp d \<Longrightarrow> c = d"
  shows "fold lww_apply ws1 s1 = fold lww_apply ws2 s2"
proof
  fix k
  show "fold lww_apply ws1 s1 k = fold lww_apply ws2 s2 k"
  proof (cases "candidates k s1 ws1 = {}")
    case True
    then show ?thesis using lww_fold_from [of ws1 s1 k] lww_fold_from [of ws2 s2 k] same
      by (metis empty_iff not_Some_eq)
  next
    case False
    then obtain c where c: "c \<in> candidates k s1 ws1" by blast
    then obtain v1 v2 where v: "fold lww_apply ws1 s1 k = Some v1" "fold lww_apply ws2 s2 k = Some v2"
      using lww_fold_max [of c k s1 ws1] lww_fold_max [of c k s2 ws2] same [of k] by auto
    then have in1: "v1 \<in> candidates k s1 ws1" and in2: "v2 \<in> candidates k s1 ws1"
      using lww_fold_from [of ws1 s1 k v1] lww_fold_from [of ws2 s2 k v2] same [of k] by simp_all
    have "value_stamp v1 = value_stamp v2"
      using lww_fold_max [OF in2] lww_fold_max [of v1 k s2 ws2] in1 v same [of k] by (simp add: order_antisym)
    with uniq in1 in2 v show ?thesis by metis
  qed
qed

section \<open>Refinement\<close>

context kv_backend
begin

lemma txApplyIfNewer_spec:
  assumes "ok b" "tok t" "txApplyIfNewer ops k st t b = Inr (apply, stored)" "value_stamp e = st"
  shows "(apply \<longleftrightarrow> beats e (view t b k)) \<and> (\<forall>v. view t b k = Some v \<longrightarrow> stored = value_stamp v)"
proof (cases "bo_TxGet ops k t b")
  case (Inl err)
  with assms(3) have "err = ErrNotFound" "apply" by (auto simp: txApplyIfNewer_def split: if_splits)
  with txget_absent [OF assms(1,2)] Inl show ?thesis by (simp add: beats_def)
next
  case (Inr v)
  with txget_ok [OF assms(1,2)] have "view t b k = Some v" by blast
  moreover have "ev_Stamp (case Decode v of Inl _ \<Rightarrow> Envelope zero_Stamp [] | Inr env \<Rightarrow> env) = value_stamp v"
    by (simp add: value_stamp_def split: sum.splits)
  ultimately show ?thesis using Inr assms(3,4) by (auto simp: txApplyIfNewer_def beats_def Greater_less Let_def)
qed

lemma apply_entries_spec:
  assumes "ok b" "tok t" "apply_entries ops mapTx ws t b mark applied = (Inr (t', applied'), mark')"
  shows "tok t' \<and> view t' b = fold lww_apply ws (view t b) \<and> mark \<le> mark' \<and>
    (\<forall>w\<in>set ws. sp_TimestampNanos (value_stamp (ew_Envelope w)) \<le> mark')"
  using assms
proof (induction ws arbitrary: t mark applied)
  case Nil
  then show ?case by simp
next
  case (Cons w ws)
  from Cons.prems(3) obtain st n where d: "decodeStamp (ew_Envelope w) = Inr (st, n)"
    by (auto split: sum.splits)
  from Cons.prems(3) d obtain doit stored where
    a: "txApplyIfNewer ops (ew_Key w) st t b = Inr (doit, stored)"
    by (auto simp: Let_def split: sum.splits)
  note vs = decodeStamp_value [OF d]
  note sp = txApplyIfNewer_spec [OF Cons.prems(1,2) a vs]
  let ?m = "clock_observe (sp_TimestampNanos stored) (clock_observe (sp_TimestampNanos st) mark)"
  have m: "mark \<le> ?m" "sp_TimestampNanos st \<le> ?m" by (auto simp: clock_observe_def)
  obtain u ap where u: "tok u" "view u b = lww_apply w (view t b)"
    "apply_entries ops mapTx ws u b ?m ap = (Inr (t', applied'), mark')"
  proof (cases doit)
    case False
    with sp have "lww_apply w (view t b) = view t b" by (simp add: lww_apply_def)
    with that [of t applied] Cons.prems d a False show ?thesis by (simp add: Let_def)
  next
    case True
    with Cons.prems(3) d a obtain u where p: "bo_TxPut ops (ew_Key w) (ew_Envelope w) t = (None, u)"
      by (auto simp: Let_def split: prod.splits option.splits)
    from txput_ok [OF Cons.prems(1,2) p] True sp
    have "tok u" "view u b = lww_apply w (view t b)" by (auto simp: lww_apply_def)
    with that [of u True] Cons.prems d a True p show ?thesis by (simp add: Let_def)
  qed
  from Cons.IH [OF Cons.prems(1) u(1,3)] u(2) m vs show ?case by auto
qed

lemma apply_refines:
  assumes "ok b" "applyEnvelopesTx ops ws mapBegin mapTx b mark = (r, b', mark')"
  shows "case r of
      Inl _ \<Rightarrow> b' = b
    | Inr _ \<Rightarrow> ok b' \<and> kv b' = fold lww_apply ws (kv b) \<and> mark \<le> mark' \<and>
        (\<forall>w\<in>set ws. sp_TimestampNanos (value_stamp (ew_Envelope w)) \<le> mark')"
proof (cases r)
  case (Inl e)
  with assms(2) show ?thesis
    by (auto simp: applyEnvelopesTx_def dest!: commit_error split: sum.splits prod.splits option.splits)
next
  case (Inr applied)
  with assms(2) obtain t where t: "bo_Begin ops b = Inr t" by (auto simp: applyEnvelopesTx_def split: sum.splits)
  with Inr assms(2) obtain t' ap where
    e: "apply_entries ops mapTx ws t b mark False = (Inr (t', ap), mark')"
    and c: "bo_TxCommit ops t' b = (None, b')"
    by (auto simp: applyEnvelopesTx_def split: sum.splits prod.splits option.splits)
  from begin_ok [OF assms(1) t] have b: "tok t" "view t b = kv b" by auto
  from apply_entries_spec [OF assms(1) b(1) e] commit_ok [OF assms(1) _ c] b(2) Inr show ?thesis by auto
qed

end

section \<open>On the memory backend\<close>

lemma mem_txApplyIfNewer_total:
  "mem_ok m \<Longrightarrow> tx_ok t \<Longrightarrow> \<exists>b stored. txApplyIfNewer memory_ops k st t m = Inr (b, stored)"
  by (auto simp: txApplyIfNewer_def memory_ops_def tx_Get_def Memory_Get_def mem_ok_def tx_ok_def Let_def split: option.splits)

lemma mem_apply_entries_total:
  "mem_ok m \<Longrightarrow> tx_ok t \<Longrightarrow> writes_decode ws \<Longrightarrow>
     \<exists>t' ap mark'. apply_entries memory_ops mapTx ws t m mark applied = (Inr (t', ap), mark') \<and> tx_ok t'"
proof (induction ws arbitrary: t mark applied)
  case (Cons w ws)
  from Cons.prems(3) obtain st n where d: "decodeStamp (ew_Envelope w) = Inr (st, n)"
    by (auto simp: writes_decode_def)
  have g: "\<exists>b stored. txApplyIfNewer memory_ops (ew_Key w) st t m = Inr (b, stored)"
    using Cons.prems(1,2) by (rule mem_txApplyIfNewer_total)
  then obtain b stored where a: "txApplyIfNewer memory_ops (ew_Key w) st t m = Inr (b, stored)" by blast
  have ws: "writes_decode ws" using Cons.prems(3) by (simp add: writes_decode_def)
  obtain t' where p: "tx_Put (ew_Key w) (ew_Envelope w) t = (None, t')"
    using Cons.prems(2) by (simp add: tx_Put_def tx_ok_def)
  with tx_Put_view Cons.prems(2) have "tx_ok t'" by blast
  moreover have "bo_TxPut memory_ops = tx_Put" by (simp add: memory_ops_def)
  ultimately show ?case
    using Cons.IH [OF Cons.prems(1) _ ws] Cons.prems(2) p by (cases b) (simp_all add: d a Let_def)
qed simp

lemma mem_apply_total:
  assumes "mem_ok m" "writes_decode ws"
  shows "\<exists>ap m' mark'. applyEnvelopesTx memory_ops ws mapBegin mapTx m mark = (Inr ap, m', mark')"
proof -
  obtain t where t: "bo_Begin memory_ops m = Inr t" "tx_ok t"
    using assms(1) by (auto simp: memory_ops_def Memory_Begin_def mem_ok_def tx_ok_def)
  from mem_apply_entries_total [OF assms(1) t(2) assms(2)] obtain t' ap mark' where
    "apply_entries memory_ops mapTx ws t m mark False = (Inr (t', ap), mark')" "tx_ok t'" by blast
  moreover from this obtain m' where "bo_TxCommit memory_ops t' m = (None, m')"
    using assms(1) by (auto simp: memory_ops_def tx_Commit_def tx_ok_def mem_ok_def)
  ultimately show ?thesis using t(1) by (simp add: applyEnvelopesTx_def)
qed

lemma mem_apply_entries_corrupt:
  "mem_ok m \<Longrightarrow> tx_ok t \<Longrightarrow> \<not> writes_decode ws \<Longrightarrow>
     \<exists>e mark'. apply_entries memory_ops mapTx ws t m mark applied = (Inl (CorruptEnvelope e), mark')"
proof (induction ws arbitrary: t mark applied)
  case (Cons w ws)
  show ?case
  proof (cases "decodeStamp (ew_Envelope w)")
    case (Inr sn)
    obtain st n where sn: "sn = (st, n)" by fastforce
    have "\<exists>b stored. txApplyIfNewer memory_ops (ew_Key w) st t m = Inr (b, stored)"
      using Cons.prems(1,2) by (rule mem_txApplyIfNewer_total)
    then obtain b stored where a: "txApplyIfNewer memory_ops (ew_Key w) st t m = Inr (b, stored)" by blast
    have ws: "\<not> writes_decode ws" using Cons.prems(3) Inr sn by (simp add: writes_decode_def)
    obtain t' where p: "tx_Put (ew_Key w) (ew_Envelope w) t = (None, t')"
      using Cons.prems(2) by (simp add: tx_Put_def tx_ok_def)
    with tx_Put_view Cons.prems(2) have "tx_ok t'" by blast
    moreover have "bo_TxPut memory_ops = tx_Put" by (simp add: memory_ops_def)
    ultimately show ?thesis
      using Cons.IH [OF Cons.prems(1) _ ws] Cons.prems(2) p by (cases b) (simp_all add: Inr sn a Let_def)
  qed simp
qed (simp add: writes_decode_def)

text \<open>A replica: its store and its clock mark, applying batches in the order they arrive.\<close>

definition apply_batch_mem :: "EnvelopeWrite list \<Rightarrow> Memory \<times> u64 \<Rightarrow> Memory \<times> u64" where
  "apply_batch_mem ws s = snd (applyEnvelopesTx memory_ops ws rawApplyErr rawApplyErr (fst s) (snd s))"

lemma apply_batches_refine:
  "mem_ok (fst s) \<Longrightarrow> list_all writes_decode batches \<Longrightarrow>
     mem_ok (fst (fold apply_batch_mem batches s)) \<and>
     mem_abs (fst (fold apply_batch_mem batches s)) = fold lww_apply (concat batches) (mem_abs (fst s))"
proof (induction batches arbitrary: s)
  case (Cons ws batches)
  obtain m mark where s: "s = (m, mark)" by fastforce
  from mem_apply_total [of m ws rawApplyErr rawApplyErr mark] Cons.prems s obtain ap m' mark' where
    a: "applyEnvelopesTx memory_ops ws rawApplyErr rawApplyErr m mark = (Inr ap, m', mark')" by auto
  then have st: "apply_batch_mem ws s = (m', mark')" by (simp add: apply_batch_mem_def s)
  from mem_kv.apply_refines [of m ws rawApplyErr rawApplyErr mark] a Cons.prems(1) s
  have "mem_ok m'" "mem_abs m' = fold lww_apply ws (mem_abs m)" by auto
  with Cons.IH [of "(m', mark')"] Cons.prems(2) st s show ?case by simp
qed simp


lemma demo_stamps:
  "value_stamp (Encode (Envelope (Stamp 1 ''a'') ''old'')) = Stamp 1 ''a''"
  "value_stamp (Encode (Envelope (Stamp 2 ''b'') ''new'')) = Stamp 2 ''b''"
  by (simp_all add: value_stamp_def Decode_Encode_envelope)

lemma demo_decode:
  "\<exists>st n. decodeStamp (Encode (Envelope (Stamp 1 ''a'') ''old'')) = Inr (st, n)"
  "\<exists>st n. decodeStamp (Encode (Envelope (Stamp 2 ''b'') ''new'')) = Inr (st, n)"
  by (simp_all add: decodeStamp_Encode)


text \<open>C26: Apply-if-newer never goes back and is all or nothing. A batch of well-formed envelopes is applied
  completely: the store afterwards is the abstract last-writer-wins result, no key's stamp is lower
  than before, every incoming envelope is matched or beaten at its key, and the node's clock is at or
  above every incoming stamp. A batch with a corrupt envelope changes nothing. Applying the same batch
  again changes nothing.\<close>

theorem apply_never_regresses:
  assumes "mem_ok m" and "applyEnvelopesTx memory_ops ws rawApplyErr rawApplyErr m mark = (r, m', mark')"
  shows "(writes_decode ws \<longrightarrow>
      (\<exists>ap. r = Inr ap) \<and> mem_abs m' = fold lww_apply ws (mem_abs m) \<and>
      (\<forall>k v. mem_abs m k = Some v \<longrightarrow> (\<exists>v'. mem_abs m' k = Some v' \<and> value_stamp v \<le> value_stamp v')) \<and>
      (\<forall>w\<in>set ws. (\<exists>v'. mem_abs m' (ew_Key w) = Some v' \<and> value_stamp (ew_Envelope w) \<le> value_stamp v') \<and>
                   sp_TimestampNanos (value_stamp (ew_Envelope w)) \<le> mark') \<and>
      fold lww_apply ws (mem_abs m') = mem_abs m') \<and>
    (\<not> writes_decode ws \<longrightarrow> (\<exists>e. r = Inl (CorruptEnvelope e)) \<and> m' = m)"
proof (intro conjI impI)
  assume wd: "writes_decode ws"
  from mem_apply_total [OF assms(1) wd, of rawApplyErr rawApplyErr mark] assms(2) obtain ap where r: "r = Inr ap" by auto
  with mem_kv.apply_refines [OF assms] have ref: "mem_abs m' = fold lww_apply ws (mem_abs m)"
    and mk: "\<forall>w\<in>set ws. sp_TimestampNanos (value_stamp (ew_Envelope w)) \<le> mark'" by auto
  show "\<exists>ap. r = Inr ap" and "mem_abs m' = fold lww_apply ws (mem_abs m)" using r ref by auto
  show "\<forall>k v. mem_abs m k = Some v \<longrightarrow> (\<exists>v'. mem_abs m' k = Some v' \<and> value_stamp v \<le> value_stamp v')"
    unfolding ref using lww_fold_mono by blast
  have cov: "\<exists>v'. mem_abs m' (ew_Key w) = Some v' \<and> value_stamp (ew_Envelope w) \<le> value_stamp v'" if "w \<in> set ws" for w
    using lww_fold_max [of "ew_Envelope w" "ew_Key w" "mem_abs m" ws] that unfolding ref by (auto simp: candidates_def)
  with mk show "\<forall>w\<in>set ws. (\<exists>v'. mem_abs m' (ew_Key w) = Some v' \<and> value_stamp (ew_Envelope w) \<le> value_stamp v') \<and>
      sp_TimestampNanos (value_stamp (ew_Envelope w)) \<le> mark'" by blast
  have "lww_apply w (mem_abs m') = mem_abs m'" if "w \<in> set ws" for w
    using cov [OF that] by (auto simp: lww_apply_def beats_def)
  then show "fold lww_apply ws (mem_abs m') = mem_abs m'" by (induction ws) auto
next
  assume wd: "\<not> writes_decode ws"
  obtain t where t: "bo_Begin memory_ops m = Inr t" "tx_ok t"
    using assms(1) by (auto simp: memory_ops_def Memory_Begin_def mem_ok_def tx_ok_def)
  from mem_apply_entries_corrupt [OF assms(1) t(2) wd, of rawApplyErr mark False] assms(2) t(1)
  show "\<exists>e. r = Inl (CorruptEnvelope e)" and "m' = m" by (auto simp: applyEnvelopesTx_def)
qed

theorem apply_never_regresses_witness:
  "let old = EnvelopeWrite ''k'' (Encode (Envelope (Stamp 1 ''a'') ''old''));
       new = EnvelopeWrite ''k'' (Encode (Envelope (Stamp 2 ''b'') ''new''));
       ok = applyEnvelopesTx memory_ops [new, old] rawApplyErr rawApplyErr Memory_New 0;
       bad = applyEnvelopesTx memory_ops [new, EnvelopeWrite ''k'' [envelopeMagic]] rawApplyErr rawApplyErr Memory_New 0
   in mem_abs (fst (snd ok)) = fold lww_apply [new, old] Map.empty \<and> fst (snd bad) = Memory_New"
proof -
  let ?old = "EnvelopeWrite ''k'' (Encode (Envelope (Stamp 1 ''a'') ''old''))"
  let ?new = "EnvelopeWrite ''k'' (Encode (Envelope (Stamp 2 ''b'') ''new''))"
  let ?ok = "applyEnvelopesTx memory_ops [?new, ?old] rawApplyErr rawApplyErr Memory_New 0"
  let ?bad = "applyEnvelopesTx memory_ops [?new, EnvelopeWrite ''k'' [envelopeMagic]] rawApplyErr rawApplyErr Memory_New 0"
  have ok: "mem_ok Memory_New" and em: "mem_abs Memory_New = Map.empty"
    by (simp_all add: mem_ok_def mem_abs_def Memory_New_def fun_eq_iff)
  have "writes_decode [?new, ?old]" by (simp add: writes_decode_def demo_decode)
  moreover have "decodeStamp [envelopeMagic] = Inl HeaderTruncated" by (simp add: decodeStamp_def)
  then have "\<not> writes_decode [?new, EnvelopeWrite ''k'' [envelopeMagic]]" by (simp add: writes_decode_def)
  ultimately show ?thesis
    using apply_never_regresses [OF ok, of "[?new, ?old]" 0 "fst ?ok" "fst (snd ?ok)" "snd (snd ?ok)"]
      apply_never_regresses [OF ok, of "[?new, EnvelopeWrite ''k'' [envelopeMagic]]" 0 "fst ?bad" "fst (snd ?bad)" "snd (snd ?bad)"]
    unfolding Let_def em by simp
qed

end
