(* ===== verification/Cas_Commit.thy ===== *)
theory Cas_Commit
  imports Refusals Apply_Newer
begin

text \<open>
  The owner side of the conditional commit (\<^verbatim>\<open>src/pkg/cluster/cas.go\<close>, \<^verbatim>\<open>localBeginForKey\<close> of \<^verbatim>\<open>cluster.go\<close>, \<^verbatim>\<open>fenceToTransient\<close> of
  \<^verbatim>\<open>multibackend_replicated.go\<close>, the value objects of \<^verbatim>\<open>src/pkg/backend/backend.go\<close>): validate the read-set, apply the write-set, in one
  transaction of the pin unit's backend under \<^verbatim>\<open>casCommitMu\<close>, then replicate the encoded write-set and, when too few replicas answer,
  flush the owner's copy. The section under the lock is one step for other commits of the node.
\<close>

section \<open>Value objects\<close>

datatype ReadCheck = ReadCheck (rc_Key: bytes) (rc_ExpectedVal: bytes) (rc_ExpectAbsent: bool)

datatype WriteOp = WriteOp (wo_Key: bytes) (wo_Value: bytes) (wo_Del: bool)

record CASResult =
  cr_Committed :: bool
  cr_Conflict :: bool
  cr_UnderReplicated :: bool
  cr_Err :: "goerr option"

definition cas_failed :: "goerr \<Rightarrow> CASResult" where
  "cas_failed e = \<lparr>cr_Committed = False, cr_Conflict = False, cr_UnderReplicated = False, cr_Err = Some e\<rparr>"

definition cas_conflict :: CASResult where
  "cas_conflict = \<lparr>cr_Committed = False, cr_Conflict = True, cr_UnderReplicated = False, cr_Err = None\<rparr>"

definition cas_committed :: CASResult where
  "cas_committed = \<lparr>cr_Committed = True, cr_Conflict = False, cr_UnderReplicated = False, cr_Err = None\<rparr>"

section \<open>The owner\<close>

text \<open>The state a commit works on: the backend of the pin unit, the node's stamp clock, its mount table, and everything else
  (the peers). \<open>cc_mounted\<close> is whether \<^verbatim>\<open>localWriteBackendForKey\<close> finds the pin unit mounted; \<open>cc_evict\<close> is \<^verbatim>\<open>evictStaleMount\<close> of that
  mount; \<open>cc_replicate\<close> the fan-out of the batch; \<open>cc_flusher\<close> the flush of a backend that has one. The last two run without the lock,
  so what other clients do meanwhile is part of them.\<close>

record ('b, 'm, 'p) cas_owner =
  co_b :: 'b
  co_mark :: u64
  co_mounts :: 'm
  co_peers :: 'p

record ('b, 't, 'm, 'p) cas_cfg =
  cc_gs :: grpc_ops
  cc_ops :: "('b, 't) backend_ops"
  cc_notReady :: bool
  cc_multi :: bool
  cc_replicated :: bool
  cc_NodeID :: string
  cc_mounted :: "bytes \<Rightarrow> bool"
  cc_evict :: "'m \<Rightarrow> 'm"
  cc_replicate :: "bytes \<Rightarrow> EnvelopeWrite list \<Rightarrow> ('b, 'm, 'p) cas_owner \<Rightarrow> goerr option \<times> ('b, 'm, 'p) cas_owner"
  cc_flusher :: "(('b, 'm, 'p) cas_owner \<Rightarrow> goerr option \<times> ('b, 'm, 'p) cas_owner) option"

definition casReplicated :: "int \<Rightarrow> bool \<Rightarrow> bool \<Rightarrow> bool" where
  "casReplicated replicationFactor hasCoord populated \<longleftrightarrow> replicationFactor > 1 \<and> hasCoord \<and> populated"

definition fenceToTransient ::
    "grpc_ops \<Rightarrow> ('m \<Rightarrow> 'm) \<Rightarrow> string \<Rightarrow> goerr \<Rightarrow> 'm \<Rightarrow> goerr \<times> 'm" where
  "fenceToTransient gs evict op err mounts =
     (if errors_Is err (BackendErr ErrFenced)
      then (errUnitAcquiringBecause gs op ''held at a stale epoch here (fenced by a newer owner)'', evict mounts)
      else (err, mounts))"

text \<open>Only a transaction of the multi-backend mode is a \<^verbatim>\<open>pausedTx\<close>.\<close>

definition casFenceToTransient ::
    "('b, 't, 'm, 'p) cas_cfg \<Rightarrow> string \<Rightarrow> goerr \<Rightarrow> ('b, 'm, 'p) cas_owner \<Rightarrow> goerr \<times> ('b, 'm, 'p) cas_owner" where
  "casFenceToTransient cf op err s =
     (if \<not> cc_multi cf then (err, s)
      else case fenceToTransient (cc_gs cf) (cc_evict cf) op err (co_mounts s) of (e, m) \<Rightarrow> (e, s\<lparr>co_mounts := m\<rparr>))"

definition cas_fail ::
    "('b, 't, 'm, 'p) cas_cfg \<Rightarrow> goerr \<Rightarrow> ('b, 'm, 'p) cas_owner \<Rightarrow> CASResult \<times> ('b, 'm, 'p) cas_owner" where
  "cas_fail cf err s = (case casFenceToTransient cf ''CommitCASApply'' err s of (e, s) \<Rightarrow> (cas_failed e, s))"

definition localBeginForKey ::
    "('b, 't, 'm, 'p) cas_cfg \<Rightarrow> bytes \<Rightarrow> ('b, 'm, 'p) cas_owner \<Rightarrow> (goerr + 't) \<times> ('b, 'm, 'p) cas_owner" where
  "localBeginForKey cf key s =
     (if cc_notReady cf then (Inl (BackendErr ErrClosed), s)
      else if cc_multi cf then
        (if \<not> cc_mounted cf key then (Inl (errUnitAcquiring (cc_gs cf) ''CommitCASApply''), s)
         else case bo_Begin (cc_ops cf) (co_b s) of
             Inl _ \<Rightarrow> (Inl (errUnitAcquiring (cc_gs cf) ''CommitCASApply''), s\<lparr>co_mounts := cc_evict cf (co_mounts s)\<rparr>)
           | Inr tx \<Rightarrow> (Inr tx, s))
      else case bo_Begin (cc_ops cf) (co_b s) of Inl e \<Rightarrow> (Inl (BackendErr e), s) | Inr tx \<Rightarrow> (Inr tx, s))"

text \<open>The texts of \<^verbatim>\<open>decodeStamp\<close>'s errors.\<close>

definition envelopeErr :: "envelope_error \<Rightarrow> goerr" where
  "envelopeErr e = PlainError (case e of
       HeaderTruncated \<Rightarrow> ''cluster: envelope header truncated''
     | NodeIDOverruns idLen len \<Rightarrow> ''cluster: envelope nodeID length '' @ format_uint idLen @ '' overruns buffer of '' @
         format_uint len @ '' bytes'')"

definition observe_stored :: "u64 \<Rightarrow> ('b, 'm, 'p) cas_owner \<Rightarrow> ('b, 'm, 'p) cas_owner" where
  "observe_stored ts s = s\<lparr>co_mark := clock_observe ts (co_mark s)\<rparr>"

text \<open>\<^const>\<open>None\<close> is not found.\<close>

definition casReadPayload ::
    "('b, 't, 'm, 'p) cas_cfg \<Rightarrow> 't \<Rightarrow> bytes \<Rightarrow> ('b, 'm, 'p) cas_owner \<Rightarrow> (goerr + bytes option) \<times> ('b, 'm, 'p) cas_owner" where
  "casReadPayload cf tx key s =
     (case bo_TxGet (cc_ops cf) key tx (co_b s) of
        Inl e \<Rightarrow> (if e = ErrNotFound then (Inr None, s) else (Inl (BackendErr e), s))
      | Inr got \<Rightarrow>
          if \<not> cc_replicated cf then (Inr (Some got), s)
          else case Decode got of
              Inl derr \<Rightarrow> (Inl (envelopeErr derr), s)
            | Inr env \<Rightarrow>
                (let s = observe_stored (sp_TimestampNanos (ev_Stamp env)) s
                 in (Inr (if length (ev_Payload env) = 0 then None else Some (ev_Payload env)), s)))"

text \<open>The loop over the read-set: \<^const>\<open>None\<close> is that every check holds.\<close>

fun cas_validate ::
    "('b, 't, 'm, 'p) cas_cfg \<Rightarrow> 't \<Rightarrow> ReadCheck list \<Rightarrow> ('b, 'm, 'p) cas_owner \<Rightarrow> CASResult option \<times> ('b, 'm, 'p) cas_owner" where
  "cas_validate cf tx [] s = (None, s)"
| "cas_validate cf tx (r # rs) s =
     (case casReadPayload cf tx (rc_Key r) s of
        (Inl err, s) \<Rightarrow> (case cas_fail cf err s of (res, s) \<Rightarrow> (Some res, s))
      | (Inr got, s) \<Rightarrow>
          if rc_ExpectAbsent r
          then (if got \<noteq> None then (Some cas_conflict, s) else cas_validate cf tx rs s)
          else case got of
              None \<Rightarrow> (Some cas_conflict, s)
            | Some v \<Rightarrow> if v \<noteq> rc_ExpectedVal r then (Some cas_conflict, s) else cas_validate cf tx rs s)"

fun observe_blind ::
    "('b, 't, 'm, 'p) cas_cfg \<Rightarrow> 't \<Rightarrow> bytes list \<Rightarrow> bytes list \<Rightarrow> WriteOp list \<Rightarrow> ('b, 'm, 'p) cas_owner \<Rightarrow>
     goerr option \<times> ('b, 'm, 'p) cas_owner" where
  "observe_blind cf tx readKeys seen [] s = (None, s)"
| "observe_blind cf tx readKeys seen (w # ws) s =
     (if wo_Key w \<in> set readKeys then observe_blind cf tx readKeys seen ws s
      else if wo_Key w \<in> set seen then observe_blind cf tx readKeys seen ws s
      else case bo_TxGet (cc_ops cf) (wo_Key w) tx (co_b s) of
          Inl e \<Rightarrow> (if e = ErrNotFound then observe_blind cf tx readKeys (wo_Key w # seen) ws s else (Some (BackendErr e), s))
        | Inr got \<Rightarrow>
            (case decodeStamp got of
               Inl derr \<Rightarrow> (Some (envelopeErr derr), s)
             | Inr (stored, _) \<Rightarrow> observe_blind cf tx readKeys (wo_Key w # seen) ws (observe_stored (sp_TimestampNanos stored) s)))"

definition observeBlindWriteStamps ::
    "('b, 't, 'm, 'p) cas_cfg \<Rightarrow> 't \<Rightarrow> ReadCheck list \<Rightarrow> WriteOp list \<Rightarrow> ('b, 'm, 'p) cas_owner \<Rightarrow>
     goerr option \<times> ('b, 'm, 'p) cas_owner" where
  "observeBlindWriteStamps cf tx reads writes s = observe_blind cf tx (map rc_Key reads) [] writes s"

text \<open>The loop over the write-set: the transaction with the writes, and the batch for the replicas.\<close>

fun cas_apply ::
    "('b, 't, 'm, 'p) cas_cfg \<Rightarrow> Stamp \<Rightarrow> WriteOp list \<Rightarrow> 't \<Rightarrow> EnvelopeWrite list \<Rightarrow> ('b, 'm, 'p) cas_owner \<Rightarrow>
     (CASResult + 't \<times> EnvelopeWrite list) \<times> ('b, 'm, 'p) cas_owner" where
  "cas_apply cf stamp [] tx encoded s = (Inr (tx, encoded), s)"
| "cas_apply cf stamp (w # ws) tx encoded s =
     (if \<not> cc_replicated cf then
        (case (if wo_Del w then bo_TxDelete (cc_ops cf) (wo_Key w) tx else bo_TxPut (cc_ops cf) (wo_Key w) (wo_Value w) tx) of
           (Some e, _) \<Rightarrow> (case cas_fail cf (BackendErr e) s of (r, s) \<Rightarrow> (Inl r, s))
         | (None, tx) \<Rightarrow> cas_apply cf stamp ws tx encoded s)
      else
        (let payload = (if \<not> wo_Del w then wo_Value w else []);
             envBytes = Encode (Envelope stamp payload)
         in case bo_TxPut (cc_ops cf) (wo_Key w) envBytes tx of
              (Some e, _) \<Rightarrow> (case cas_fail cf (BackendErr e) s of (r, s) \<Rightarrow> (Inl r, s))
            | (None, tx) \<Rightarrow> cas_apply cf stamp ws tx (encoded @ [EnvelopeWrite (wo_Key w) envBytes]) s))"

text \<open>The write half of the section under \<^verbatim>\<open>casCommitMu\<close>: the commit stamp, the write-set and the commit of the local transaction.
  \<open>Inr\<close> is a commit. \<open>wall\<close> is the clock reading the stamp is drawn with. A transaction that is not committed is rolled back, which
  leaves the backend as it is.\<close>

definition cas_write ::
    "('b, 't, 'm, 'p) cas_cfg \<Rightarrow> int \<Rightarrow> ReadCheck list \<Rightarrow> WriteOp list \<Rightarrow> 't \<Rightarrow> ('b, 'm, 'p) cas_owner \<Rightarrow>
     (CASResult + EnvelopeWrite list) \<times> ('b, 'm, 'p) cas_owner" where
  "cas_write cf wall reads writes tx s =
     (case (if cc_replicated cf then observeBlindWriteStamps cf tx reads writes s else (None, s)) of
        (Some err, s) \<Rightarrow> (case cas_fail cf err s of (r, s) \<Rightarrow> (Inl r, s))
      | (None, s) \<Rightarrow>
          (let (stamp, s) = (if cc_replicated cf
                then (case clock_next wall (co_mark s) of (ts, mark) \<Rightarrow> (Stamp ts (cc_NodeID cf), s\<lparr>co_mark := mark\<rparr>))
                else (zero_Stamp, s))
           in case cas_apply cf stamp writes tx [] s of
                (Inl res, s) \<Rightarrow> (Inl res, s)
              | (Inr (tx, encoded), s) \<Rightarrow>
                  (case bo_TxCommit (cc_ops cf) tx (co_b s) of
                     (Some e, b) \<Rightarrow> (case cas_fail cf (BackendErr e) (s\<lparr>co_b := b\<rparr>) of (r, s) \<Rightarrow> (Inl r, s))
                   | (None, b) \<Rightarrow> (Inr encoded, s\<lparr>co_b := b\<rparr>))))"

text \<open>The whole section under the lock.\<close>

definition cas_critical ::
    "('b, 't, 'm, 'p) cas_cfg \<Rightarrow> goerr option \<Rightarrow> int \<Rightarrow> bytes \<Rightarrow> ReadCheck list \<Rightarrow> WriteOp list \<Rightarrow> ('b, 'm, 'p) cas_owner \<Rightarrow>
     (CASResult + EnvelopeWrite list) \<times> ('b, 'm, 'p) cas_owner" where
  "cas_critical cf ctxErr wall pinKey reads writes s =
     (case localBeginForKey cf pinKey s of
        (Inl err, s) \<Rightarrow> (Inl (cas_failed err), s)
      | (Inr tx, s) \<Rightarrow>
          (case ctxErr of
             Some err \<Rightarrow> (Inl (cas_failed err), s)
           | None \<Rightarrow>
               (case cas_validate cf tx reads s of
                  (Some res, s) \<Rightarrow> (Inl res, s)
                | (None, s) \<Rightarrow> cas_write cf wall reads writes tx s)))"

definition flushOwnerUnderReplicated ::
    "('b, 't, 'm, 'p) cas_cfg \<Rightarrow> ('b, 'm, 'p) cas_owner \<Rightarrow> goerr option \<times> ('b, 'm, 'p) cas_owner" where
  "flushOwnerUnderReplicated cf s = (case cc_flusher cf of None \<Rightarrow> (None, s) | Some flush \<Rightarrow> flush s)"

definition CommitCASApply ::
    "('b, 't, 'm, 'p) cas_cfg \<Rightarrow> goerr option \<Rightarrow> int \<Rightarrow> bytes \<Rightarrow> ReadCheck list \<Rightarrow> WriteOp list \<Rightarrow> ('b, 'm, 'p) cas_owner \<Rightarrow>
     CASResult \<times> ('b, 'm, 'p) cas_owner" where
  "CommitCASApply cf ctxErr wall pinKey reads writes s =
     (if cc_notReady cf then (cas_failed (BackendErr ErrClosed), s)
      else case cas_critical cf ctxErr wall pinKey reads writes s of
          (Inl res, s) \<Rightarrow> (res, s)
        | (Inr encoded, s) \<Rightarrow>
            if cc_replicated cf \<and> length encoded > 0 then
              (case cc_replicate cf pinKey encoded s of
                 (None, s) \<Rightarrow> (cas_committed, s)
               | (Some err, s) \<Rightarrow>
                   (case flushOwnerUnderReplicated cf s of
                      (Some ferr, s) \<Rightarrow> (cas_failed ferr, s)
                    | (None, s) \<Rightarrow> (cas_committed\<lparr>cr_UnderReplicated := True, cr_Err := Some err\<rparr>, s)))
            else (cas_committed, s))"


section \<open>What a commit promises\<close>

text \<open>The value a client sees for a stored one: at \<open>R > 1\<close> the payload of the envelope, an empty one being a tombstone.\<close>

definition payload_of :: "bool \<Rightarrow> bytes option \<Rightarrow> bytes option" where
  "payload_of replicated stored =
     (case stored of
        None \<Rightarrow> None
      | Some b \<Rightarrow>
          if \<not> replicated then Some b
          else case Decode b of Inl _ \<Rightarrow> None | Inr env \<Rightarrow> if ev_Payload env = [] then None else Some (ev_Payload env))"

definition seen_map :: "bool \<Rightarrow> (bytes \<rightharpoonup> bytes) \<Rightarrow> (bytes \<rightharpoonup> bytes)" where
  "seen_map replicated m = (\<lambda>k. payload_of replicated (m k))"

definition reads_hold :: "ReadCheck list \<Rightarrow> (bytes \<rightharpoonup> bytes) \<Rightarrow> bool" where
  "reads_hold reads m \<longleftrightarrow> list_all (\<lambda>r. m (rc_Key r) = (if rc_ExpectAbsent r then None else Some (rc_ExpectedVal r))) reads"

text \<open>What a write leaves for a client to see, and the bytes it stores.\<close>

definition written :: "bool \<Rightarrow> WriteOp \<Rightarrow> bytes option" where
  "written replicated w = (if wo_Del w \<or> replicated \<and> wo_Value w = [] then None else Some (wo_Value w))"

definition apply_writes :: "bool \<Rightarrow> WriteOp list \<Rightarrow> (bytes \<rightharpoonup> bytes) \<Rightarrow> (bytes \<rightharpoonup> bytes)" where
  "apply_writes replicated ws m = fold (\<lambda>w m. m(wo_Key w := written replicated w)) ws m"

definition stored_as :: "bool \<Rightarrow> Stamp \<Rightarrow> WriteOp \<Rightarrow> bytes option" where
  "stored_as replicated stamp w =
     (if replicated then Some (Encode (Envelope stamp (if wo_Del w then [] else wo_Value w)))
      else if wo_Del w then None else Some (wo_Value w))"

definition store_writes :: "bool \<Rightarrow> Stamp \<Rightarrow> WriteOp list \<Rightarrow> (bytes \<rightharpoonup> bytes) \<Rightarrow> (bytes \<rightharpoonup> bytes)" where
  "store_writes replicated stamp ws m = fold (\<lambda>w m. m(wo_Key w := stored_as replicated stamp w)) ws m"

definition batch_of :: "Stamp \<Rightarrow> WriteOp list \<Rightarrow> EnvelopeWrite list" where
  "batch_of stamp ws = map (\<lambda>w. EnvelopeWrite (wo_Key w) (Encode (Envelope stamp (if wo_Del w then [] else wo_Value w)))) ws"

lemma store_writes_simps [simp]:
  "store_writes replicated stamp [] m = m"
  "store_writes replicated stamp (w # ws) m = store_writes replicated stamp ws (m(wo_Key w := stored_as replicated stamp w))"
  by (simp_all add: store_writes_def)

lemma apply_writes_simps [simp]:
  "apply_writes replicated [] m = m"
  "apply_writes replicated (w # ws) m = apply_writes replicated ws (m(wo_Key w := written replicated w))"
  by (simp_all add: apply_writes_def)

lemma batch_of_simps [simp]:
  "batch_of stamp [] = []"
  "batch_of stamp (w # ws) =
     EnvelopeWrite (wo_Key w) (Encode (Envelope stamp (if wo_Del w then [] else wo_Value w))) # batch_of stamp ws"
  by (simp_all add: batch_of_def)

lemma payload_stored:
  "length (sp_NodeID stamp) < 2 ^ 16 \<Longrightarrow> payload_of replicated (stored_as replicated stamp w) = written replicated w"
  by (simp add: payload_of_def stored_as_def written_def Decode_Encode_envelope)

lemma seen_store_writes:
  "length (sp_NodeID stamp) < 2 ^ 16 \<Longrightarrow>
     seen_map replicated (store_writes replicated stamp ws m) = apply_writes replicated ws (seen_map replicated m)"
proof (induction ws arbitrary: m)
  case (Cons w ws)
  have "seen_map replicated (m(wo_Key w := stored_as replicated stamp w)) =
      (seen_map replicated m)(wo_Key w := written replicated w)"
    using payload_stored [OF Cons.prems] by (auto simp: seen_map_def)
  with Cons show ?case by simp
qed simp

lemma clock_observe_mark: "ts \<le> clock_observe ts mark" "mark \<le> clock_observe ts mark"
  by (auto simp: clock_observe_def)

lemma observe_fields [simp]:
  "co_b (observe_stored ts s) = co_b s" "co_mark (observe_stored ts s) = clock_observe ts (co_mark s)"
  by (simp_all add: observe_stored_def)

lemma cas_fail_spec:
  "cas_fail cf e s = (r, s') \<Longrightarrow> co_b s' = co_b s \<and> co_mark s' = co_mark s \<and> (\<exists>e'. r = cas_failed e')"
  by (auto simp: cas_fail_def casFenceToTransient_def split: if_splits prod.splits)

lemma cas_results_differ [simp]: "cas_failed e \<noteq> cas_conflict" "cas_conflict \<noteq> cas_failed e"
  "\<not> cr_Committed (cas_failed e)" "\<not> cr_Conflict (cas_failed e)" "\<not> cr_Committed cas_conflict" "cr_Conflict cas_conflict"
  "cr_Committed cas_committed" "\<not> cr_Conflict cas_committed" "cr_Err (cas_failed e) = Some e" "cr_Err cas_conflict = None"
  by (simp_all add: cas_failed_def cas_conflict_def cas_committed_def)

text \<open>The relation between the store before and after the section under the lock: refused, with the store untouched; or committed, with
  every check true before, the whole write-set stored under one stamp, and that stamp above everything the commit read or
  replaced (unless the clock is exhausted).\<close>

definition commit_post ::
    "bool \<Rightarrow> ReadCheck list \<Rightarrow> WriteOp list \<Rightarrow> (bytes \<rightharpoonup> bytes) \<Rightarrow> CASResult + EnvelopeWrite list \<Rightarrow> (bytes \<rightharpoonup> bytes) \<Rightarrow> bool" where
  "commit_post replicated reads writes m r m' \<longleftrightarrow>
     (case r of
        Inl x \<Rightarrow> m' = m \<and> (x = cas_conflict \<and> \<not> reads_hold reads (seen_map replicated m) \<or> (\<exists>e. x = cas_failed e))
      | Inr batch \<Rightarrow>
          reads_hold reads (seen_map replicated m) \<and> seen_map replicated m' = apply_writes replicated writes (seen_map replicated m) \<and>
          (\<exists>stamp. m' = store_writes replicated stamp writes m \<and> batch = (if replicated then batch_of stamp writes else []) \<and>
             length (sp_NodeID stamp) < 2 ^ 16 \<and>
             (replicated \<and> sp_TimestampNanos stamp \<noteq> MaxUint64 \<longrightarrow>
               (\<forall>k\<in>rc_Key ` set reads \<union> wo_Key ` set writes. \<forall>v. m k = Some v \<longrightarrow> value_stamp v < stamp))))"

section \<open>The critical section, piece by piece\<close>

text \<open>The mark is at or above the stamp stored at a key.\<close>

definition mark_above :: "(bytes \<rightharpoonup> bytes) \<Rightarrow> bytes \<Rightarrow> u64 \<Rightarrow> bool" where
  "mark_above m k mark \<longleftrightarrow> (\<forall>v. m k = Some v \<longrightarrow> sp_TimestampNanos (value_stamp v) \<le> mark)"

lemma mark_above_mono: "mark_above m k mark \<Longrightarrow> mark \<le> mark' \<Longrightarrow> mark_above m k mark'"
  by (auto simp: mark_above_def intro: order_trans)

lemma stamp_exceeds:
  assumes "clock_next wall mark = (ts, mark')" "ts \<noteq> MaxUint64" "mark_above m k mark" "m k = Some v"
  shows "value_stamp v < Stamp ts node"
proof -
  from assms(1,2) have "next_stamp (wallNow wall) mark = Some ts" by (auto simp: clock_next_def split: option.splits)
  with next_stamp_Some have "mark < ts" by blast
  moreover from assms(3,4) have "sp_TimestampNanos (value_stamp v) \<le> mark" by (simp add: mark_above_def)
  ultimately have "sp_TimestampNanos (value_stamp v) < ts" by simp
  then show ?thesis by (auto simp: less_Stamp_def Greater_def)
qed

context kv_backend
begin

lemma casReadPayload_spec:
  assumes "ok (co_b s)" "tok t" "cc_ops cf = ops" "casReadPayload cf t k s = (r, s')"
  shows "co_b s' = co_b s \<and> co_mark s \<le> co_mark s' \<and>
    (\<forall>got. r = Inr got \<longrightarrow> got = payload_of (cc_replicated cf) (view t (co_b s) k) \<and>
       (cc_replicated cf \<longrightarrow> mark_above (view t (co_b s)) k (co_mark s')))"
proof (cases "bo_TxGet ops k t (co_b s)")
  case (Inl e)
  with assms(3,4) txget_absent [OF assms(1,2), of k] show ?thesis
    by (auto simp: casReadPayload_def payload_of_def mark_above_def split: if_splits)
next
  case (Inr got)
  note v = txget_ok [OF assms(1,2) Inr]
  show ?thesis
  proof (cases "cc_replicated cf")
    case False
    with Inr assms(3,4) v show ?thesis by (auto simp: casReadPayload_def payload_of_def)
  next
    case True
    show ?thesis
    proof (cases "Decode got")
      case (Inl d)
      with Inr assms(3,4) True show ?thesis by (auto simp: casReadPayload_def)
    next
      case env: (Inr env)
      with Inr assms(3,4) True v show ?thesis
        by (auto simp: casReadPayload_def payload_of_def mark_above_def value_stamp_def clock_observe_mark Let_def)
    qed
  qed
qed

lemma cas_validate_spec:
  assumes "ok (co_b s)" "tok t" "cc_ops cf = ops" "cas_validate cf t reads s = (res, s')"
  shows "co_b s' = co_b s \<and> co_mark s \<le> co_mark s' \<and>
    (res = None \<longrightarrow> reads_hold reads (seen_map (cc_replicated cf) (view t (co_b s))) \<and>
       (cc_replicated cf \<longrightarrow> (\<forall>r\<in>set reads. mark_above (view t (co_b s)) (rc_Key r) (co_mark s')))) \<and>
    (res = Some cas_conflict \<longrightarrow> \<not> reads_hold reads (seen_map (cc_replicated cf) (view t (co_b s)))) \<and>
    (\<forall>x. res = Some x \<longrightarrow> x = cas_conflict \<or> (\<exists>e. x = cas_failed e))"
  using assms(1,2,4)
proof (induction reads arbitrary: s)
  case Nil
  then show ?case by (simp add: reads_hold_def)
next
  case (Cons r rs)
  obtain p s1 where p: "casReadPayload cf t (rc_Key r) s = (p, s1)" by fastforce
  note sp = casReadPayload_spec [OF Cons.prems(1,2) assms(3) p]
  show ?case
  proof (cases p)
    case (Inl err)
    obtain x s2 where f: "cas_fail cf err s1 = (x, s2)" by fastforce
    with Cons.prems(3) p Inl have "res = Some x" "s' = s2" by auto
    with cas_fail_spec [OF f] sp show ?thesis by auto
  next
    case (Inr got)
    with sp have got: "got = seen_map (cc_replicated cf) (view t (co_b s)) (rc_Key r)"
      and ab: "cc_replicated cf \<longrightarrow> mark_above (view t (co_b s)) (rc_Key r) (co_mark s1)" by (auto simp: seen_map_def)
    let ?want = "if rc_ExpectAbsent r then None else Some (rc_ExpectedVal r)"
    have step: "cas_validate cf t (r # rs) s = (if got = ?want then cas_validate cf t rs s1 else (Some cas_conflict, s1))"
      using p Inr by (auto split: option.splits)
    show ?thesis
    proof (cases "got = ?want")
      case False
      with step Cons.prems(3) sp got show ?thesis by (auto simp: reads_hold_def)
    next
      case True
      with step Cons.prems(3) have n: "cas_validate cf t rs s1 = (res, s')" by simp
      have b1: "co_b s1 = co_b s" "co_mark s \<le> co_mark s1" using sp by auto
      note IH = Cons.IH [of s1, unfolded b1(1), OF Cons.prems(1,2) n]
      from IH b1(2) have m: "co_mark s1 \<le> co_mark s'" "co_mark s \<le> co_mark s'" by auto
      from True got have c: "reads_hold (r # rs) (seen_map (cc_replicated cf) (view t (co_b s))) \<longleftrightarrow>
          reads_hold rs (seen_map (cc_replicated cf) (view t (co_b s)))"
        by (simp add: reads_hold_def)
      from IH m c ab mark_above_mono [OF _ m(1)] show ?thesis by auto
    qed
  qed
qed

lemma observe_blind_spec:
  assumes "ok (co_b s)" "tok t" "cc_ops cf = ops" "observe_blind cf t readKeys seen ws s = (r, s')"
  shows "co_b s' = co_b s \<and> co_mark s \<le> co_mark s' \<and>
    (r = None \<longrightarrow> (\<forall>w\<in>set ws. wo_Key w \<in> set readKeys \<union> set seen \<or> mark_above (view t (co_b s)) (wo_Key w) (co_mark s')))"
  using assms(1,2,4)
proof (induction ws arbitrary: s seen)
  case Nil
  then show ?case by simp
next
  case (Cons w ws)
  show ?case
  proof (cases "wo_Key w \<in> set readKeys \<union> set seen")
    case True
    with Cons.prems(3) have "observe_blind cf t readKeys seen ws s = (r, s')" by (auto split: if_splits)
    from Cons.IH [OF Cons.prems(1,2) this] True show ?thesis by auto
  next
    case new: False
    show ?thesis
    proof (cases "bo_TxGet ops (wo_Key w) t (co_b s)")
      case (Inl e)
      show ?thesis
      proof (cases "e = ErrNotFound")
        case True
        with txget_absent [OF Cons.prems(1,2)] Inl have "mark_above (view t (co_b s)) (wo_Key w) m" for m
          by (simp add: mark_above_def)
        moreover from Cons.prems(3) new Inl True assms(3) have n: "observe_blind cf t readKeys (wo_Key w # seen) ws s = (r, s')"
          by simp
        ultimately show ?thesis using Cons.IH [OF Cons.prems(1,2) n] by auto
      next
        case False
        with Cons.prems(3) new Inl assms(3) show ?thesis by auto
      qed
    next
      case (Inr got)
      note v = txget_ok [OF Cons.prems(1,2) Inr]
      show ?thesis
      proof (cases "decodeStamp got")
        case (Inl d)
        with Cons.prems(3) new Inr assms(3) show ?thesis by auto
      next
        case (Inr sn)
        obtain st n where sn: "sn = (st, n)" by fastforce
        let ?s = "observe_stored (sp_TimestampNanos st) s"
        from decodeStamp_value Inr sn have "value_stamp got = st" by blast
        with v have "mark_above (view t (co_b s)) (wo_Key w) (co_mark ?s)" by (simp add: mark_above_def clock_observe_mark)
        moreover from Cons.prems(3) new \<open>bo_TxGet ops (wo_Key w) t (co_b s) = Inr got\<close> Inr sn assms(3)
        have n: "observe_blind cf t readKeys (wo_Key w # seen) ws ?s = (r, s')" by simp
        moreover have "co_mark s \<le> co_mark ?s" by (simp add: clock_observe_mark)
        ultimately show ?thesis using Cons.IH [of ?s, unfolded observe_fields(1), OF Cons.prems(1,2) n] mark_above_mono
          by (auto intro: order_trans)
      qed
    qed
  qed
qed

lemma cas_apply_spec:
  assumes "ok (co_b s)" "tok t" "cc_ops cf = ops" "cas_apply cf stamp ws t encoded s = (r, s')"
  shows "co_b s' = co_b s \<and> co_mark s' = co_mark s \<and>
    (\<forall>t' encoded'. r = Inr (t', encoded') \<longrightarrow> tok t' \<and>
       view t' (co_b s) = store_writes (cc_replicated cf) stamp ws (view t (co_b s)) \<and>
       encoded' = encoded @ (if cc_replicated cf then batch_of stamp ws else [])) \<and>
    (\<forall>x. r = Inl x \<longrightarrow> (\<exists>e. x = cas_failed e))"
  using assms(2,4)
proof (induction ws arbitrary: t encoded)
  case Nil
  then show ?case by auto
next
  case (Cons w ws)
  let ?op = "if cc_replicated cf then bo_TxPut ops (wo_Key w) (Encode (Envelope stamp (if wo_Del w then [] else wo_Value w))) t
      else if wo_Del w then bo_TxDelete ops (wo_Key w) t else bo_TxPut ops (wo_Key w) (wo_Value w) t"
  let ?enc = "encoded @ (if cc_replicated cf then batch_of stamp [w] else [])"
  obtain e u where op: "?op = (e, u)" by fastforce
  have step: "cas_apply cf stamp (w # ws) t encoded s =
      (case e of Some e \<Rightarrow> (case cas_fail cf (BackendErr e) s of (r, s) \<Rightarrow> (Inl r, s)) | None \<Rightarrow> cas_apply cf stamp ws u ?enc s)"
    using op assms(3) by (cases "cc_replicated cf"; cases "wo_Del w"; cases e) (simp_all add: Let_def)
  show ?case
  proof (cases e)
    case (Some err)
    with step Cons.prems(2) obtain x s2 where "cas_fail cf (BackendErr err) s = (x, s2)" "r = Inl x" "s' = s2"
      by (auto split: prod.splits)
    with cas_fail_spec [of cf "BackendErr err" s x s2] show ?thesis by auto
  next
    case None
    from op None have u: "tok u \<and> view u (co_b s) = (view t (co_b s))(wo_Key w := stored_as (cc_replicated cf) stamp w)"
      using txput_ok [OF assms(1) Cons.prems(1)] txdelete_ok [OF assms(1) Cons.prems(1)]
      by (auto simp: stored_as_def split: if_splits)
    from step None Cons.prems(2) have n: "cas_apply cf stamp ws u ?enc s = (r, s')" by simp
    from Cons.IH [OF conjunct1 [OF u] n] show ?thesis unfolding store_writes_simps conjunct2 [OF u, symmetric] by auto
  qed
qed

lemma localBegin_spec:
  assumes "ok (co_b s)" "cc_ops cf = ops" "localBeginForKey cf k s = (r, s')"
  shows "co_b s' = co_b s \<and> co_mark s' = co_mark s \<and> (\<forall>t. r = Inr t \<longrightarrow> tok t \<and> view t (co_b s) = kv (co_b s))"
  using assms begin_ok [OF assms(1)] by (auto simp: localBeginForKey_def split: if_splits sum.splits)

lemma commit_tail:
  assumes "ok (co_b s)" "tok t" "cc_ops cf = ops"
    and run: "(case cas_apply cf stamp writes t [] s of
         (Inl res, s) \<Rightarrow> (Inl res, s)
       | (Inr (tx, encoded), s) \<Rightarrow>
           (case bo_TxCommit ops tx (co_b s) of
              (Some e, b) \<Rightarrow> (case cas_fail cf (BackendErr e) (s\<lparr>co_b := b\<rparr>) of (r, s) \<Rightarrow> (Inl r, s))
            | (None, b) \<Rightarrow> (Inr encoded, s\<lparr>co_b := b\<rparr>))) = (r, s')"
  shows "co_b s' = co_b s \<and> (\<exists>e. r = Inl (cas_failed e)) \<or>
    r = Inr (if cc_replicated cf then batch_of stamp writes else []) \<and> ok (co_b s') \<and>
      kv (co_b s') = store_writes (cc_replicated cf) stamp writes (view t (co_b s))"
proof -
  obtain x s1 where a: "cas_apply cf stamp writes t [] s = (x, s1)" by fastforce
  note A = cas_apply_spec [OF assms(1-3) a]
  show ?thesis
  proof (cases x)
    case (Inl y)
    with run a A show ?thesis by auto
  next
    case (Inr te)
    obtain t' enc where te: "te = (t', enc)" by fastforce
    obtain e b where c: "bo_TxCommit ops t' (co_b s) = (e, b)" by fastforce
    show ?thesis
    proof (cases e)
      case None
      with run a Inr te c A commit_ok [OF assms(1)] show ?thesis by auto
    next
      case (Some err)
      with commit_error c have b: "b = co_b s" by blast
      obtain y s2 where f: "cas_fail cf (BackendErr err) (s1\<lparr>co_b := b\<rparr>) = (y, s2)" by fastforce
      with run a Inr te c Some A have "r = Inl y" "s' = s2" by auto
      with cas_fail_spec [OF f] b show ?thesis by auto
    qed
  qed
qed

lemma cas_write_spec:
  assumes "ok (co_b s)" "tok t" "cc_ops cf = ops" "length (cc_NodeID cf) < 2 ^ 16" "view t (co_b s) = kv (co_b s)"
    and reads: "reads_hold reads (seen_map (cc_replicated cf) (kv (co_b s)))"
      "cc_replicated cf \<longrightarrow> (\<forall>r\<in>set reads. mark_above (kv (co_b s)) (rc_Key r) (co_mark s))"
    and run: "cas_write cf wall reads writes t s = (r, s')"
  shows "ok (co_b s') \<and> commit_post (cc_replicated cf) reads writes (kv (co_b s)) r (kv (co_b s'))"
proof -
  let ?b = "co_b s" and ?repl = "cc_replicated cf"
  have failed: ?thesis if "co_b s' = ?b" "r = Inl (cas_failed e)" for e
    using that assms(1) by (auto simp: commit_post_def)
  obtain x s1 where o: "(if ?repl then observeBlindWriteStamps cf t reads writes s else (None, s)) = (x, s1)" by fastforce
  have B: "co_b s1 = ?b" "co_mark s \<le> co_mark s1" and bl: "x = None \<and> ?repl \<longrightarrow>
      (\<forall>w\<in>set writes. wo_Key w \<in> rc_Key ` set reads \<or> mark_above (kv ?b) (wo_Key w) (co_mark s1))"
    using observe_blind_spec [OF assms(1-3), of "map rc_Key reads" "[]" writes x s1] o assms(5)
    by (auto simp: observeBlindWriteStamps_def split: if_splits)
  show ?thesis
  proof (cases x)
    case (Some e)
    obtain y s2 where f: "cas_fail cf e s1 = (y, s2)" by fastforce
    with run o Some have "r = Inl y" "s' = s2" by (auto simp: cas_write_def)
    with cas_fail_spec [OF f] B failed show ?thesis by auto
  next
    case None
    obtain stamp s2 where st: "(if ?repl then (case clock_next wall (co_mark s1) of (ts, mark) \<Rightarrow>
          (Stamp ts (cc_NodeID cf), s1\<lparr>co_mark := mark\<rparr>)) else (zero_Stamp, s1)) = (stamp, s2)" by fastforce
    then have b2: "co_b s2 = ?b" using B by (auto split: if_splits prod.splits)
    note T = commit_tail [OF _ assms(2,3), of s2 stamp writes r s', unfolded b2 assms(5), OF assms(1)]
    have len: "length (sp_NodeID stamp) < 2 ^ 16"
      using st assms(4) by (auto simp: zero_Stamp_def split: if_splits prod.splits)
    have ex: "value_stamp v < stamp" if "?repl" "sp_TimestampNanos stamp \<noteq> MaxUint64"
      "k \<in> rc_Key ` set reads \<union> wo_Key ` set writes" "kv ?b k = Some v" for k v
    proof -
      from that(1) st obtain ts mark where n: "clock_next wall (co_mark s1) = (ts, mark)" "stamp = Stamp ts (cc_NodeID cf)"
        by (auto split: prod.splits)
      have "mark_above (kv ?b) k (co_mark s1)"
        using that(1,3) reads(2) bl None mark_above_mono [OF _ B(2)] by auto
      with stamp_exceeds [OF n(1)] n(2) that(2,4) show ?thesis by simp
    qed
    have "cas_write cf wall reads writes t s = (case cas_apply cf stamp writes t [] s2 of
         (Inl res, s) \<Rightarrow> (Inl res, s)
       | (Inr (tx, encoded), s) \<Rightarrow>
           (case bo_TxCommit ops tx (co_b s) of
              (Some e, b) \<Rightarrow> (case cas_fail cf (BackendErr e) (s\<lparr>co_b := b\<rparr>) of (r, s) \<Rightarrow> (Inl r, s))
            | (None, b) \<Rightarrow> (Inr encoded, s\<lparr>co_b := b\<rparr>)))"
      using o None st unfolding cas_write_def assms(3) by simp
    from T [OF this [symmetric, unfolded run]]
    show ?thesis
    proof (elim disjE conjE exE)
      fix e assume "co_b s' = ?b" "r = Inl (cas_failed e)"
      then show ?thesis by (rule failed)
    next
      assume r: "r = Inr (if ?repl then batch_of stamp writes else [])" and "ok (co_b s')"
        and k: "kv (co_b s') = store_writes ?repl stamp writes (kv ?b)"
      then show ?thesis unfolding r commit_post_def k seen_store_writes [OF len]
        using reads(1) len ex by (auto intro!: exI [of _ stamp])
    qed
  qed
qed

lemma cas_critical_spec:
  assumes "ok (co_b s)" "cc_ops cf = ops" "length (cc_NodeID cf) < 2 ^ 16"
    and run: "cas_critical cf ctxErr wall pinKey reads writes s = (r, s')"
  shows "ok (co_b s') \<and> commit_post (cc_replicated cf) reads writes (kv (co_b s)) r (kv (co_b s'))"
proof -
  obtain r0 s0 where l: "localBeginForKey cf pinKey s = (r0, s0)" by fastforce
  from localBegin_spec [OF assms(1,2) l] have b0: "co_b s0 = co_b s" by simp
  show ?thesis
  proof (cases "\<exists>t. r0 = Inr t \<and> ctxErr = None")
    case False
    with run l b0 assms(1) show ?thesis by (auto simp: cas_critical_def commit_post_def split: sum.splits option.splits)
  next
    case True
    then obtain t where t: "r0 = Inr t" "ctxErr = None" by blast
    with localBegin_spec [OF assms(1,2) l] have tt: "tok t" "view t (co_b s) = kv (co_b s)" by auto
    obtain x s1 where v: "cas_validate cf t reads s0 = (x, s1)" by fastforce
    note V = cas_validate_spec [OF _ tt(1) assms(2) v, unfolded b0 tt(2), OF assms(1)]
    then have b1: "co_b s1 = co_b s" by simp
    show ?thesis
    proof (cases x)
      case (Some y)
      with run l t v have "r = Inl y" "s' = s1" by (auto simp: cas_critical_def)
      with V Some assms(1) show ?thesis by (auto simp: commit_post_def)
    next
      case None
      with run l t v have w: "cas_write cf wall reads writes t s1 = (r, s')" by (auto simp: cas_critical_def)
      from cas_write_spec [OF _ tt(1) assms(2,3) _ _ _ w, unfolded b1 tt(2)] V None assms(1) show ?thesis by auto
    qed
  qed
qed

end

section \<open>The outcomes of a commit\<close>


text \<open>A node on the memory backend, for concrete runs: every replica acks, and there is nothing to flush.\<close>

definition demo_cas :: "bool \<Rightarrow> (Memory, mem_tx, unit, unit) cas_cfg" where
  "demo_cas replicated = \<lparr>cc_gs = ref_grpc, cc_ops = memory_ops, cc_notReady = False, cc_multi = True, cc_replicated = replicated,
     cc_NodeID = ''a'', cc_mounted = (\<lambda>_. True), cc_evict = id, cc_replicate = (\<lambda>_ _ s. (None, s)), cc_flusher = None\<rparr>"

definition demo_owner :: "kv_list \<Rightarrow> (Memory, unit, unit) cas_owner" where
  "demo_owner d = \<lparr>co_b = \<lparr>me_data = d, me_closed = False\<rparr>, co_mark = 0, co_mounts = (), co_peers = ()\<rparr>"

lemma demo_cas_simps [simp]:
  "cc_gs (demo_cas r) = ref_grpc" "cc_ops (demo_cas r) = memory_ops" "\<not> cc_notReady (demo_cas r)" "cc_multi (demo_cas r)"
  "cc_replicated (demo_cas r) = r" "cc_NodeID (demo_cas r) = ''a''" "cc_mounted (demo_cas r) k"
  "cc_replicate (demo_cas r) k b s = (None, s)" "cc_flusher (demo_cas r) = None"
  by (simp_all add: demo_cas_def)

lemma demo_owner_simps [simp]:
  "co_b (demo_owner d) = \<lparr>me_data = d, me_closed = False\<rparr>" "co_mark (demo_owner d) = 0"
  by (simp_all add: demo_owner_def)

lemmas memory_eval = memory_ops_def Memory_Begin_def tx_Get_def tx_Put_def tx_Delete_def tx_Commit_def Memory_Get_def

lemmas commit_eval = CommitCASApply_def cas_critical_def cas_write_def localBeginForKey_def casReadPayload_def
  observeBlindWriteStamps_def memory_eval


lemma value_stamp_Encode: "length (sp_NodeID stamp) < 2 ^ 16 \<Longrightarrow> value_stamp (Encode (Envelope stamp p)) = stamp"
  by (simp add: value_stamp_def Decode_Encode_envelope)

lemma store_writes_other: "k \<notin> wo_Key ` set ws \<Longrightarrow> store_writes replicated stamp ws m k = m k"
  by (induction ws arbitrary: m) auto

lemma batch_wins:
  assumes "length (sp_NodeID stamp) < 2 ^ 16" "distinct (map wo_Key ws)"
    and "\<forall>k\<in>wo_Key ` set ws. \<forall>v. m k = Some v \<longrightarrow> value_stamp v < stamp"
  shows "fold lww_apply (batch_of stamp ws) m = store_writes True stamp ws m"
  using assms(2,3)
proof (induction ws arbitrary: m)
  case (Cons w ws)
  let ?e = "Encode (Envelope stamp (if wo_Del w then [] else wo_Value w))"
  have "beats ?e (m (wo_Key w))"
    using Cons.prems(2) value_stamp_Encode [OF assms(1)] by (auto simp: beats_def split: option.splits)
  then have eq: "lww_apply (EnvelopeWrite (wo_Key w) ?e) m = m(wo_Key w := stored_as True stamp w)"
    by (simp add: lww_apply_def stored_as_def)
  have "\<forall>k\<in>wo_Key ` set ws. \<forall>v. (m(wo_Key w := stored_as True stamp w)) k = Some v \<longrightarrow> value_stamp v < stamp"
    using Cons.prems by (auto simp: image_iff)
  moreover have "distinct (map wo_Key ws)" using Cons.prems(1) by simp
  ultimately show ?case unfolding batch_of_simps store_writes_simps fold_simps eq by (intro Cons.IH)
qed simp

text \<open>C5: A commit wins everywhere. When the section under the lock commits at \<open>R > 1\<close> and the clock is not exhausted, the batch it hands
  to the fan-out replaces what the owner held on every store whose values at the written keys are no newer than the owner's were:
  such a replica ends with exactly the owner's bytes at every written key and unchanged elsewhere, and applying the batch to the owner
  again changes nothing. (A write-set names a key once, as the client's buffer guarantees.)\<close>

theorem commit_wins_on_replicas:
  assumes "kv_backend ops kv view ok tok" "cc_ops cf = ops" "ok (co_b s)" "length (cc_NodeID cf) \<le> MaxNodeIDLen"
    and "cc_replicated cf" "distinct (map wo_Key writes)"
    and "cas_critical cf ctxErr wall pinKey reads writes s = (Inr batch, s')"
    and "\<forall>w\<in>set batch. sp_TimestampNanos (value_stamp (ew_Envelope w)) \<noteq> MaxUint64"
    and "\<forall>w\<in>set writes. \<forall>v. replica (wo_Key w) = Some v \<longrightarrow>
           (\<exists>u. kv (co_b s) (wo_Key w) = Some u \<and> value_stamp v \<le> value_stamp u)"
  shows "(\<forall>k. fold lww_apply batch replica k = (if k \<in> wo_Key ` set writes then kv (co_b s') k else replica k)) \<and>
    fold lww_apply batch (kv (co_b s')) = kv (co_b s')"
proof -
  have "length (cc_NodeID cf) < 2 ^ 16" using assms(4) by (simp add: MaxNodeIDLen_def)
  from kv_backend.cas_critical_spec [OF assms(1,3,2) this assms(7)] assms(5) obtain stamp where
    st: "kv (co_b s') = store_writes True stamp writes (kv (co_b s))" "batch = batch_of stamp writes" "length (sp_NodeID stamp) < 2 ^ 16"
    and ab: "sp_TimestampNanos stamp \<noteq> MaxUint64 \<longrightarrow> (\<forall>w\<in>set writes. \<forall>v. kv (co_b s) (wo_Key w) = Some v \<longrightarrow> value_stamp v < stamp)"
    by (auto simp: commit_post_def)
  have below: "\<forall>k\<in>wo_Key ` set writes. \<forall>v. replica k = Some v \<longrightarrow> value_stamp v < stamp"
  proof (intro ballI allI impI)
    fix k v assume k: "k \<in> wo_Key ` set writes" and v: "replica k = Some v"
    then obtain w u where u: "w \<in> set writes" "k = wo_Key w" "kv (co_b s) k = Some u" "value_stamp v \<le> value_stamp u" using assms(9) by blast
    from u(1) st(2) have "EnvelopeWrite (wo_Key w) (Encode (Envelope stamp (if wo_Del w then [] else wo_Value w))) \<in> set batch"
      by (auto simp: batch_of_def)
    with assms(8) have "sp_TimestampNanos stamp \<noteq> MaxUint64" by (auto simp: value_stamp_Encode [OF st(3)])
    with ab u show "value_stamp v < stamp" by (metis order_le_less_trans)
  qed
  have same: "store_writes True stamp writes m k = kv (co_b s') k" if "k \<in> wo_Key ` set writes" for k m
    using that unfolding st(1)
  proof (induction writes arbitrary: m rule: rev_induct)
    case (snoc w ws)
    then show ?case by (auto simp: store_writes_def)
  qed simp
  have "lww_apply w (kv (co_b s')) = kv (co_b s')" if "w \<in> set batch" for w
  proof -
    from that st(2) obtain wo where wo: "wo \<in> set writes" "w = EnvelopeWrite (wo_Key wo) (Encode (Envelope stamp (if wo_Del wo then [] else wo_Value wo)))"
      by (auto simp: batch_of_def)
    have "\<exists>p. kv (co_b s') (wo_Key wo) = Some (Encode (Envelope stamp p))"
      using wo(1) unfolding st(1) by (induction writes rule: rev_induct) (auto simp: store_writes_def stored_as_def)
    with wo(2) show ?thesis by (auto simp: lww_apply_def beats_def value_stamp_Encode [OF st(3)])
  qed
  then have "fold lww_apply batch (kv (co_b s')) = kv (co_b s')" by (induction batch) auto
  moreover have "fold lww_apply batch replica k = (if k \<in> wo_Key ` set writes then kv (co_b s') k else replica k)" for k
    unfolding st(2) batch_wins [OF st(3) assms(6) below] using same store_writes_other by metis
  ultimately show ?thesis by blast
qed

theorem commit_wins_on_replicas_witness:
  "let env = (\<lambda>ts node v. Encode (Envelope (Stamp ts node) v)); fast = env 9 ''b'' ''old'';
       run = cas_critical (demo_cas True) None 3 ''k'' [] [WriteOp ''k'' ''new'' False] (demo_owner [(''k'', fast)])
   in fst run = Inr [EnvelopeWrite ''k'' (env 10 ''a'' ''new'')] \<and>
      fold lww_apply [EnvelopeWrite ''k'' (env 10 ''a'' ''new'')] [''k'' \<mapsto> fast] ''k'' = mem_abs (co_b (snd run)) ''k''"
proof -
  let ?env = "\<lambda>ts node v. Encode (Envelope (Stamp ts node) v)"
  let ?s = "demo_owner [(''k'', ?env 9 ''b'' ''old'')]" and ?ws = "[WriteOp ''k'' ''new'' False]"
  let ?run = "cas_critical (demo_cas True) None 3 ''k'' [] ?ws ?s"
  have d: "decodeStamp (?env 9 ''b'' ''old'') = Inr (Stamp 9 ''b'', 12)" by (simp add: decodeStamp_Encode)
  have n: "clock_next 3 (clock_observe 9 0) = (10, 10)" by (simp add: clock_next_def clock_observe_def next_stamp_def wallNow_def MaxUint64_def)
  have r: "fst ?run = Inr [EnvelopeWrite ''k'' (?env 10 ''a'' ''new'')]"
    by (simp add: commit_eval d n Let_def)
  have v: "value_stamp (?env ts ''a'' p) = Stamp ts ''a''" for ts p by (simp add: value_stamp_Encode)
  have "?run = (Inr [EnvelopeWrite ''k'' (?env 10 ''a'' ''new'')], snd ?run)" using r by (metis prod.collapse)
  note T = commit_wins_on_replicas [OF mem_kv.kv_backend_axioms _ _ _ _ _ this, of "[''k'' \<mapsto> ?env 9 ''b'' ''old'']"]
  have "\<forall>k. fold lww_apply [EnvelopeWrite ''k'' (?env 10 ''a'' ''new'')] [''k'' \<mapsto> ?env 9 ''b'' ''old''] k =
      (if k \<in> wo_Key ` set ?ws then mem_abs (co_b (snd ?run)) k else [''k'' \<mapsto> ?env 9 ''b'' ''old''] k)"
    by (rule conjunct1 [OF T]) (simp_all add: mem_ok_def MaxNodeIDLen_def v MaxUint64_def mem_abs_def)
  with r show ?thesis unfolding Let_def by simp
qed

end
