(* ===== verification/Cas_Tx.thy ===== *)
theory Cas_Tx
  imports Cas_Commit Units Retry_Wait
begin

text \<open>
  The client side of the conditional commit: the buffered transaction and the dispatch of its commit to the owner
  (\<^verbatim>\<open>src/pkg/cluster/castx.go\<close>), the owner's handler and its wire form (\<^verbatim>\<open>src/pkg/rpc/cas_server.go\<close>), and the retry closure
  \<^verbatim>\<open>Transact\<close> (\<^verbatim>\<open>src/pkg/cluster/cas.go\<close>). The caller's closure is a program over the transaction's operations; what other clients
  do to the cluster before each operation is the argument \<open>env\<close>.
\<close>

section \<open>From an outcome to an error\<close>

definition FailedPrecondition :: code where
  "FailedPrecondition = OtherCode 9"

definition commitRetryable :: "grpc_ops \<Rightarrow> goerr \<Rightarrow> bool" where
  "commitRetryable gs err =
     (if errors_Is err (BackendErr ErrFenced) then True
      else case gs_FromError gs err of (st, ok) \<Rightarrow>
        if \<not> ok then False else st_code st = Unavailable \<or> st_code st = FailedPrecondition)"

definition casResultToError :: "CASResult \<Rightarrow> goerr option" where
  "casResultToError r =
     (if cr_Committed r then None
      else if cr_Conflict r then Some (BackendErr ErrCASConflict)
      else case cr_Err r of Some e \<Rightarrow> Some e | None \<Rightarrow> None)"

record CommitCASResponse =
  rp_Committed :: bool
  rp_Conflict :: bool
  rp_UnderReplicated :: bool
  rp_Error :: string

text \<open>\<open>describe\<close> is the text of an error. \<open>Inl\<close> is a gRPC error.\<close>

definition casCommitResponse :: "grpc_ops \<Rightarrow> (goerr \<Rightarrow> string) \<Rightarrow> CASResult \<Rightarrow> goerr + CommitCASResponse" where
  "casCommitResponse gs describe res =
     (let resp = \<lparr>rp_Committed = False, rp_Conflict = False, rp_UnderReplicated = False, rp_Error = ''''\<rparr>
      in if cr_Committed res then Inr (resp\<lparr>rp_Committed := True, rp_UnderReplicated := cr_UnderReplicated res\<rparr>)
         else if cr_Conflict res then Inr (resp\<lparr>rp_Conflict := True\<rparr>)
         else case cr_Err res of
             None \<Rightarrow> Inr resp
           | Some e \<Rightarrow> if snd (gs_FromError gs e) then Inl e else Inr (resp\<lparr>rp_Error := describe e\<rparr>))"

text \<open>The handler on the owner. \<open>apply\<close> is \<^const>\<open>CommitCASApply\<close> there, on the request's sets; \<open>ownsPin\<close> is \<^verbatim>\<open>OwnsCASPin\<close>.\<close>

definition server_CommitCAS ::
    "grpc_ops \<Rightarrow> (goerr \<Rightarrow> string) \<Rightarrow> bool \<Rightarrow> ('w \<Rightarrow> CASResult \<times> 'w) \<Rightarrow> 'w \<Rightarrow> (goerr + CommitCASResponse) \<times> 'w" where
  "server_CommitCAS gs describe ownsPin apply w =
     (if \<not> ownsPin
      then (Inl (StatusError (Status FailedPrecondition
              ''shale: CommitCAS: this node does not own pin_key; re-pin against the current ring'' [])), w)
      else case apply w of (res, w) \<Rightarrow> (casCommitResponse gs describe res, w))"

definition commit_reply :: "CommitCASResponse \<Rightarrow> goerr option" where
  "commit_reply resp =
     (if rp_Conflict resp then Some (BackendErr ErrCASConflict)
      else if rp_Committed resp then None
      else if rp_Error resp \<noteq> '''' then Some (PlainError (''cluster: CommitCAS owner error: '' @ rp_Error resp))
      else None)"

text \<open>What becomes of a call to a peer: it arrives and its answer comes back, or the call fails with an error of the transport, before
  the handler ran or after.\<close>

datatype rpc_fate = Delivered | RequestLost goerr | ReplyLost goerr

text \<open>\<open>isLocal\<close> is the answer of \<^verbatim>\<open>casDesignatedOwner\<close>, \<open>clientErr\<close> that of \<^verbatim>\<open>clientFor\<close>. An error from the wire passes the client's
  interceptor.\<close>

definition commitCAS ::
    "grpc_ops \<Rightarrow> (goerr \<Rightarrow> string) \<Rightarrow> bool \<Rightarrow> bool \<Rightarrow> goerr option \<Rightarrow> rpc_fate \<Rightarrow> bool \<Rightarrow> ('w \<Rightarrow> CASResult \<times> 'w) \<Rightarrow> 'w \<Rightarrow>
     goerr option \<times> 'w" where
  "commitCAS gs describe notReady isLocal clientErr fate ownsPin apply w =
     (if notReady then (Some (BackendErr ErrClosed), w)
      else if isLocal then (case apply w of (res, w) \<Rightarrow> (casResultToError res, w))
      else case clientErr of
          Some e \<Rightarrow> (Some e, w)
        | None \<Rightarrow>
            (case fate of
               RequestLost e \<Rightarrow> (Some e, w)
             | ReplyLost e \<Rightarrow> (Some e, snd (server_CommitCAS gs describe ownsPin apply w))
             | Delivered \<Rightarrow>
                 (case server_CommitCAS gs describe ownsPin apply w of
                    (Inl e, w) \<Rightarrow> (Some (decodeRefusalReason gs (gs_wire gs e)), w)
                  | (Inr resp, w) \<Rightarrow> (commit_reply resp, w))))"

section \<open>The buffered transaction\<close>

text \<open>What a transaction uses of the cluster: the live view (owner and unit of a key), the routed read, and the dispatch of a commit.\<close>

record 'w cas_cluster =
  cl_gs :: grpc_ops
  cl_notReady :: "'w \<Rightarrow> bool"
  cl_multi :: bool
  cl_ownerOf :: "bytes \<Rightarrow> 'w \<Rightarrow> NodeID"
  cl_genUnitForKey :: "bytes \<Rightarrow> 'w \<Rightarrow> GenUnit"
  cl_shardKey :: "bytes \<Rightarrow> bytes"
  cl_Get :: "bytes \<Rightarrow> 'w \<Rightarrow> (goerr + bytes) \<times> 'w"
  cl_commitCAS :: "bytes \<Rightarrow> ReadCheck list \<Rightarrow> WriteOp list \<Rightarrow> 'w \<Rightarrow> goerr option \<times> 'w"

record clusterTx =
  ct_pinned :: bool
  ct_pinKey :: bytes
  ct_ownerID :: NodeID
  ct_pinUnit :: GenUnit
  ct_done :: bool
  ct_reads :: "ReadCheck list"
  ct_readSeen :: "bytes \<rightharpoonup> nat"
  ct_writeBuf :: "WriteOp list"
  ct_writeIdx :: "bytes \<rightharpoonup> nat"

text \<open>The zero unit of an unpinned transaction is never compared.\<close>

definition newCASTx :: clusterTx where
  "newCASTx = \<lparr>ct_pinned = False, ct_pinKey = [], ct_ownerID = [], ct_pinUnit = GenUnit 0 0, ct_done = False, ct_reads = [],
     ct_readSeen = Map.empty, ct_writeBuf = [], ct_writeIdx = Map.empty\<rparr>"

definition pinLocked :: "'w cas_cluster \<Rightarrow> bytes \<Rightarrow> clusterTx \<Rightarrow> 'w \<Rightarrow> clusterTx" where
  "pinLocked cl key t w =
     (if ct_pinned t then t
      else (let t = t\<lparr>ct_pinned := True, ct_pinKey := key, ct_ownerID := cl_ownerOf cl key w\<rparr>
            in if cl_multi cl then t\<lparr>ct_pinUnit := cl_genUnitForKey cl key w\<rparr> else t))"

definition finalized :: goerr where
  "finalized = PlainError ''cluster: transaction already finalized''"

definition guardShard :: "'w cas_cluster \<Rightarrow> bytes \<Rightarrow> clusterTx \<Rightarrow> 'w \<Rightarrow> goerr option \<times> clusterTx" where
  "guardShard cl key t w =
     (if ct_done t then (Some finalized, t)
      else if \<not> ct_pinned t then (None, pinLocked cl key t w)
      else if cl_multi cl then
        (if cl_genUnitForKey cl key w \<noteq> ct_pinUnit t then
           (if cl_shardKey cl key = cl_shardKey cl (ct_pinKey t)
            then (Some (errUnitAcquiringBecause (cl_gs cl) ''Transact''
                    ''the unit layout changed mid-transaction (reshard cut-over); retry''), t)
            else (Some (BackendErr ErrCrossShard), t))
         else (None, t))
      else if cl_ownerOf cl key w \<noteq> ct_ownerID t then (Some (BackendErr ErrCrossShard), t)
      else (None, t))"

definition recordRead :: "bytes \<Rightarrow> bytes \<Rightarrow> bool \<Rightarrow> clusterTx \<Rightarrow> clusterTx" where
  "recordRead key val absent t =
     (if ct_readSeen t key \<noteq> None then t
      else t\<lparr>ct_readSeen := (ct_readSeen t)(key \<mapsto> length (ct_reads t)),
             ct_reads := ct_reads t @ [ReadCheck key (if \<not> absent then val else []) absent]\<rparr>)"

definition clusterTx_Get :: "'w cas_cluster \<Rightarrow> bytes \<Rightarrow> clusterTx \<Rightarrow> 'w \<Rightarrow> (goerr + bytes) \<times> clusterTx \<times> 'w" where
  "clusterTx_Get cl key t w =
     (case guardShard cl key t w of
        (Some e, t) \<Rightarrow> (Inl e, t, w)
      | (None, t) \<Rightarrow>
          (case ct_writeIdx t key of
             Some idx \<Rightarrow>
               (let wo = ct_writeBuf t ! idx
                in if wo_Del wo then (Inl (BackendErr ErrNotFound), t, w) else (Inr (wo_Value wo), t, w))
           | None \<Rightarrow>
               (case cl_Get cl key w of
                  (Inr val, w) \<Rightarrow> (Inr val, recordRead key val False t, w)
                | (Inl e, w) \<Rightarrow>
                    if \<not> errors_Is e (BackendErr ErrNotFound) then (Inl e, t, w)
                    else (Inl (BackendErr ErrNotFound), recordRead key [] True t, w))))"

definition bufferWrite :: "WriteOp \<Rightarrow> clusterTx \<Rightarrow> clusterTx" where
  "bufferWrite wo t =
     (case ct_writeIdx t (wo_Key wo) of
        Some idx \<Rightarrow> t\<lparr>ct_writeBuf := (ct_writeBuf t)[idx := wo]\<rparr>
      | None \<Rightarrow> t\<lparr>ct_writeIdx := (ct_writeIdx t)(wo_Key wo \<mapsto> length (ct_writeBuf t)), ct_writeBuf := ct_writeBuf t @ [wo]\<rparr>)"

definition clusterTx_Put :: "'w cas_cluster \<Rightarrow> bytes \<Rightarrow> bytes \<Rightarrow> clusterTx \<Rightarrow> 'w \<Rightarrow> goerr option \<times> clusterTx" where
  "clusterTx_Put cl key val t w =
     (case guardShard cl key t w of (Some e, t) \<Rightarrow> (Some e, t) | (None, t) \<Rightarrow> (None, bufferWrite (WriteOp key val False) t))"

definition clusterTx_Delete :: "'w cas_cluster \<Rightarrow> bytes \<Rightarrow> clusterTx \<Rightarrow> 'w \<Rightarrow> goerr option \<times> clusterTx" where
  "clusterTx_Delete cl key t w =
     (case guardShard cl key t w of (Some e, t) \<Rightarrow> (Some e, t) | (None, t) \<Rightarrow> (None, bufferWrite (WriteOp key [] True) t))"

definition clusterTx_ScanPrefix :: "bytes \<Rightarrow> goerr" where
  "clusterTx_ScanPrefix pre =
     PlainError ''cluster: ScanPrefix is not supported inside a CAS transaction; scan outside the transaction (see docs/SPEC.md)''"

definition clusterTx_Commit :: "'w cas_cluster \<Rightarrow> clusterTx \<Rightarrow> 'w \<Rightarrow> goerr option \<times> clusterTx \<times> 'w" where
  "clusterTx_Commit cl t w =
     (if ct_done t then (Some finalized, t, w)
      else (let t = t\<lparr>ct_done := True\<rparr>
            in if \<not> ct_pinned t \<or> length (ct_writeBuf t) = 0 \<and> length (ct_reads t) = 0 then (None, t, w)
               else case cl_commitCAS cl (ct_pinKey t) (ct_reads t) (ct_writeBuf t) w of (e, w) \<Rightarrow> (e, t, w)))"

definition clusterTx_Rollback :: "clusterTx \<Rightarrow> clusterTx" where
  "clusterTx_Rollback t = t\<lparr>ct_done := True\<rparr>"

section \<open>The closure\<close>

text \<open>A closure is what it does next, depending on the answers so far: return, or call an operation of the transaction.\<close>

datatype tx_prog =
    TxReturn "goerr option"
  | TxGet bytes "goerr + bytes \<Rightarrow> tx_prog"
  | TxPut bytes bytes "goerr option \<Rightarrow> tx_prog"
  | TxDelete bytes "goerr option \<Rightarrow> tx_prog"
  | TxScan bytes "goerr \<Rightarrow> tx_prog"

text \<open>\<open>env i\<close> is what the others do before the \<open>i\<close>-th call.\<close>

primrec run_tx ::
    "'w cas_cluster \<Rightarrow> (nat \<Rightarrow> 'w \<Rightarrow> 'w) \<Rightarrow> tx_prog \<Rightarrow> nat \<Rightarrow> clusterTx \<Rightarrow> 'w \<Rightarrow> goerr option \<times> nat \<times> clusterTx \<times> 'w" where
  "run_tx cl env (TxReturn r) = (\<lambda>i t w. (r, i, t, w))"
| "run_tx cl env (TxGet k cont) =
     (\<lambda>i t w. case clusterTx_Get cl k t (env i w) of (r, t, w) \<Rightarrow> run_tx cl env (cont r) (Suc i) t w)"
| "run_tx cl env (TxPut k v cont) =
     (\<lambda>i t w. case clusterTx_Put cl k v t (env i w) of (r, t) \<Rightarrow> run_tx cl env (cont r) (Suc i) t (env i w))"
| "run_tx cl env (TxDelete k cont) =
     (\<lambda>i t w. case clusterTx_Delete cl k t (env i w) of (r, t) \<Rightarrow> run_tx cl env (cont r) (Suc i) t (env i w))"
| "run_tx cl env (TxScan pre cont) = (\<lambda>i t w. run_tx cl env (cont (clusterTx_ScanPrefix pre)) i t w)"

section \<open>The retry closure\<close>

definition CASMaxAttempts :: nat where
  "CASMaxAttempts = 10"

definition casBaseBackoff :: int where
  "casBaseBackoff = 2 * millisecond"

definition transactUnavailableTimeout :: int where
  "transactUnavailableTimeout = 30000 * millisecond"

definition transactRetryableBackoffCap :: int where
  "transactRetryableBackoffCap = 500 * millisecond"

definition transactRetryableMaxRuns :: nat where
  "transactRetryableMaxRuns = 24"

definition ErrTransactRetriesExhausted :: goerr where
  "ErrTransactRetriesExhausted = PlainError ''cluster: Transact retryable-commit re-run budget exhausted''"

text \<open>The locals of \<^verbatim>\<open>Transact\<close>, the time, and for the theorems how often the closure ran and how long the loop slept.\<close>

record transact_state =
  ts_attempt :: nat
  ts_conflicted :: bool
  ts_retryableRuns :: nat
  ts_backoff :: int
  ts_now :: int
  ts_step :: nat
  ts_runs :: nat
  ts_slept :: "int list"

definition sleep_for :: "int \<Rightarrow> transact_state \<Rightarrow> transact_state" where
  "sleep_for d st = st\<lparr>ts_now := ts_now st + d, ts_slept := ts_slept st @ [d]\<rparr>"

text \<open>After a retryable refusal: count the re-run, sleep with full jitter, double the backoff up to its cap; the attempt is not consumed.
  \<open>rnd j n\<close> is the \<open>j\<close>-th draw of \<^verbatim>\<open>rand.Int63n(n)\<close>.\<close>

definition after_retryable :: "(nat \<Rightarrow> int \<Rightarrow> int) \<Rightarrow> transact_state \<Rightarrow> transact_state" where
  "after_retryable rnd st =
     (let st = st\<lparr>ts_retryableRuns := ts_retryableRuns st + 1\<rparr>;
          st = (if ts_backoff st > 0 then sleep_for (int64 (rnd (ts_runs st) (ts_backoff st) + 1)) st else st);
          backoff = int64 (ts_backoff st * 2)
      in st\<lparr>ts_backoff := (if backoff > transactRetryableBackoffCap then transactRetryableBackoffCap else backoff)\<rparr>)"

text \<open>After a conflict: the attempt is consumed, with an additive jitter that grows with it; no sleep before giving up.\<close>

definition after_conflict :: "(nat \<Rightarrow> int \<Rightarrow> int) \<Rightarrow> transact_state \<Rightarrow> transact_state" where
  "after_conflict rnd st =
     (let st = st\<lparr>ts_conflicted := True\<rparr>;
          st = (if ts_attempt st < CASMaxAttempts - 1 \<and> casBaseBackoff > 0
                then sleep_for (int64 (casBaseBackoff + rnd (ts_runs st) (int64 (casBaseBackoff * int (ts_attempt st + 1))))) st
                else st)
      in st\<lparr>ts_attempt := ts_attempt st + 1\<rparr>)"

lemma after_measure:
  "ts_attempt (after_retryable rnd st) = ts_attempt st" "ts_retryableRuns (after_retryable rnd st) = ts_retryableRuns st + 1"
  "ts_attempt (after_conflict rnd st) = ts_attempt st + 1" "ts_retryableRuns (after_conflict rnd st) = ts_retryableRuns st"
  by (simp_all add: after_retryable_def after_conflict_def sleep_for_def Let_def)

text \<open>One run of the closure and its commit: a new transaction, pinned; the closure; the commit. \<open>took j\<close> is how long the \<open>j\<close>-th run took.\<close>

definition transact_run ::
    "'w cas_cluster \<Rightarrow> (nat \<Rightarrow> 'w \<Rightarrow> 'w) \<Rightarrow> (nat \<Rightarrow> int) \<Rightarrow> bytes \<Rightarrow> tx_prog \<Rightarrow> transact_state \<Rightarrow> 'w \<Rightarrow>
     (goerr option + goerr option) \<times> transact_state \<times> 'w" where
  "transact_run cl env took pinKey fn st w =
     (let w = env (ts_step st) w;
          t = pinLocked cl pinKey newCASTx w
      in case run_tx cl env fn (Suc (ts_step st)) t w of (err, i, t, w) \<Rightarrow>
        (let st = st\<lparr>ts_runs := Suc (ts_runs st), ts_now := ts_now st + took (ts_runs st), ts_step := i\<rparr>
         in case err of
              Some e \<Rightarrow> (Inl (Some e), st, w)
            | None \<Rightarrow> (case clusterTx_Commit cl t (env i w) of (e, t, w) \<Rightarrow> (Inr e, st\<lparr>ts_step := Suc i\<rparr>, w))))"

lemma transact_run_measure:
  "transact_run cl env took pinKey fn st w = (r, st', w') \<Longrightarrow>
     ts_attempt st' = ts_attempt st \<and> ts_retryableRuns st' = ts_retryableRuns st"
  by (auto simp: transact_run_def Let_def split: prod.splits option.splits)

function (sequential) transact_loop ::
    "'w cas_cluster \<Rightarrow> (nat \<Rightarrow> 'w \<Rightarrow> 'w) \<Rightarrow> (nat \<Rightarrow> int) \<Rightarrow> (nat \<Rightarrow> int \<Rightarrow> int) \<Rightarrow> int \<Rightarrow> bytes \<Rightarrow> tx_prog \<Rightarrow>
     transact_state \<Rightarrow> 'w \<Rightarrow> goerr option \<times> transact_state \<times> 'w" where
  "transact_loop cl env took rnd deadline pinKey fn st w =
     (if \<not> ts_attempt st < CASMaxAttempts then
        (Some (if ts_conflicted st
               then LocalReason (''cluster: Transact exhausted '' @ format_uint CASMaxAttempts @ '' attempts'') (BackendErr ErrCASConflict)
               else BackendErr ErrCASConflict), st, w)
      else case transact_run cl env took pinKey fn st w of
          (Inl err, st, w) \<Rightarrow> (err, st, w)
        | (Inr None, st, w) \<Rightarrow> (None, st, w)
        | (Inr (Some err), st, w) \<Rightarrow>
            if commitRetryable (cl_gs cl) err then
              (if ts_now st > deadline then (Some err, st, w)
               else if ts_retryableRuns st \<ge> transactRetryableMaxRuns then (Some (JoinError ErrTransactRetriesExhausted err), st, w)
               else transact_loop cl env took rnd deadline pinKey fn (after_retryable rnd st) w)
            else if \<not> errors_Is err (BackendErr ErrCASConflict) then (Some err, st, w)
            else transact_loop cl env took rnd deadline pinKey fn (after_conflict rnd st) w)"
  by pat_completeness auto
termination
  by (relation "measure (\<lambda>(cl, env, took, rnd, deadline, pinKey, fn, st, w).
        (CASMaxAttempts - ts_attempt st) + (transactRetryableMaxRuns - ts_retryableRuns st))")
    (auto simp: after_measure dest!: transact_run_measure [OF sym] transact_run_measure)

declare transact_loop.simps [simp del]

definition Transact ::
    "'w cas_cluster \<Rightarrow> (nat \<Rightarrow> 'w \<Rightarrow> 'w) \<Rightarrow> (nat \<Rightarrow> int) \<Rightarrow> (nat \<Rightarrow> int \<Rightarrow> int) \<Rightarrow> int \<Rightarrow> bytes \<Rightarrow> tx_prog \<Rightarrow> 'w \<Rightarrow>
     goerr option \<times> transact_state \<times> 'w" where
  "Transact cl env took rnd now pinKey fn w =
     (let st = \<lparr>ts_attempt = 0, ts_conflicted = False, ts_retryableRuns = 0, ts_backoff = casBaseBackoff, ts_now = now,
           ts_step = 0, ts_runs = 0, ts_slept = []\<rparr>
      in if cl_notReady cl w then (Some (BackendErr ErrClosed), st, w)
         else transact_loop cl env took rnd (now + transactUnavailableTimeout) pinKey fn st w)"

section \<open>Running a closure alone\<close>

text \<open>The reference: the closure runs on fixed contents \<open>m\<close>, with nobody else around. Its writes are collected in order of the first write
  of a key.\<close>

definition buf_put :: "WriteOp \<Rightarrow> WriteOp list \<Rightarrow> WriteOp list" where
  "buf_put wo buf = (if wo_Key wo \<in> wo_Key ` set buf then map (\<lambda>w. if wo_Key w = wo_Key wo then wo else w) buf else buf @ [wo])"

definition read_alone :: "(bytes \<rightharpoonup> bytes) \<Rightarrow> WriteOp list \<Rightarrow> bytes \<Rightarrow> goerr + bytes" where
  "read_alone m buf k =
     (case (case find (\<lambda>w. wo_Key w = k) buf of Some w \<Rightarrow> (if wo_Del w then None else Some (wo_Value w)) | None \<Rightarrow> m k) of
        None \<Rightarrow> Inl (BackendErr ErrNotFound) | Some v \<Rightarrow> Inr v)"

primrec run_alone :: "tx_prog \<Rightarrow> (bytes \<rightharpoonup> bytes) \<Rightarrow> WriteOp list \<Rightarrow> goerr option \<times> WriteOp list" where
  "run_alone (TxReturn r) = (\<lambda>m buf. (r, buf))"
| "run_alone (TxGet k cont) = (\<lambda>m buf. run_alone (cont (read_alone m buf k)) m buf)"
| "run_alone (TxPut k v cont) = (\<lambda>m buf. run_alone (cont None) m (buf_put (WriteOp k v False) buf))"
| "run_alone (TxDelete k cont) = (\<lambda>m buf. run_alone (cont None) m (buf_put (WriteOp k [] True) buf))"
| "run_alone (TxScan pre cont) = (\<lambda>m buf. run_alone (cont (clusterTx_ScanPrefix pre)) m buf)"

text \<open>A closure that plays by the rules: it returns the errors it gets (except a key that is not found), and it does not read a key
  of the cluster twice. \<open>S\<close> are the keys it has read, \<open>W\<close> those it has written.\<close>

primrec closure_ok :: "tx_prog \<Rightarrow> bytes set \<Rightarrow> bytes set \<Rightarrow> bool" where
  "closure_ok (TxReturn r) = (\<lambda>S W. True)"
| "closure_ok (TxGet k cont) = (\<lambda>S W. (k \<in> W \<or> k \<notin> S) \<and>
     (\<forall>e. e \<noteq> BackendErr ErrNotFound \<longrightarrow> (\<exists>x. cont (Inl e) = TxReturn (Some x))) \<and> (\<forall>r. closure_ok (cont r) (insert k S) W))"
| "closure_ok (TxPut k v cont) = (\<lambda>S W. (\<forall>e. \<exists>x. cont (Some e) = TxReturn (Some x)) \<and> closure_ok (cont None) S (insert k W))"
| "closure_ok (TxDelete k cont) = (\<lambda>S W. (\<forall>e. \<exists>x. cont (Some e) = TxReturn (Some x)) \<and> closure_ok (cont None) S (insert k W))"
| "closure_ok (TxScan pre cont) = (\<lambda>S W. \<forall>e. \<exists>x. cont e = TxReturn (Some x))"

section \<open>The buffer\<close>

text \<open>The index maps of a transaction describe its two lists.\<close>

definition tx_inv :: "clusterTx \<Rightarrow> bool" where
  "tx_inv t \<longleftrightarrow>
     (\<forall>k i. ct_writeIdx t k = Some i \<longleftrightarrow> i < length (ct_writeBuf t) \<and> wo_Key (ct_writeBuf t ! i) = k) \<and>
     (\<forall>k. ct_readSeen t k \<noteq> None \<longleftrightarrow> k \<in> rc_Key ` set (ct_reads t))"

lemma tx_inv_new: "tx_inv newCASTx" "tx_inv (pinLocked cl k newCASTx w)"
  by (simp_all add: tx_inv_def newCASTx_def pinLocked_def Let_def)

lemma guardShard_fields:
  "guardShard cl k t w = (r, t') \<Longrightarrow> ct_reads t' = ct_reads t \<and> ct_writeBuf t' = ct_writeBuf t \<and> ct_writeIdx t' = ct_writeIdx t \<and>
     ct_readSeen t' = ct_readSeen t \<and> ct_done t' = ct_done t \<and> (ct_pinned t \<longrightarrow> t' = t)"
  by (auto simp: guardShard_def pinLocked_def Let_def split: if_splits)

lemma tx_inv_idx: "tx_inv t \<Longrightarrow> ct_writeIdx t k = Some i \<longleftrightarrow> i < length (ct_writeBuf t) \<and> wo_Key (ct_writeBuf t ! i) = k"
  unfolding tx_inv_def by blast

lemma tx_inv_seen: "tx_inv t \<Longrightarrow> ct_readSeen t k \<noteq> None \<longleftrightarrow> k \<in> rc_Key ` set (ct_reads t)"
  unfolding tx_inv_def by blast

lemma tx_invI:
  assumes "\<And>k i. ct_writeIdx t k = Some i \<longleftrightarrow> i < length (ct_writeBuf t) \<and> wo_Key (ct_writeBuf t ! i) = k"
    "\<And>k. ct_readSeen t k \<noteq> None \<longleftrightarrow> k \<in> rc_Key ` set (ct_reads t)"
  shows "tx_inv t"
  unfolding tx_inv_def using assms by blast

lemma tx_inv_distinct:
  assumes "tx_inv t"
  shows "distinct (map wo_Key (ct_writeBuf t))"
proof -
  have "i = j" if "i < length (ct_writeBuf t)" "j < length (ct_writeBuf t)" "wo_Key (ct_writeBuf t ! i) = wo_Key (ct_writeBuf t ! j)" for i j
    using that tx_inv_idx [OF assms] by (metis option.inject)
  then show ?thesis unfolding distinct_conv_nth length_map by (metis nth_map)
qed

lemma writeIdx_Some: "tx_inv t \<Longrightarrow> ct_writeIdx t k = Some i \<Longrightarrow> i < length (ct_writeBuf t) \<and> wo_Key (ct_writeBuf t ! i) = k"
  by (simp add: tx_inv_idx)

lemma writeIdx_None: "tx_inv t \<Longrightarrow> ct_writeIdx t k = None \<longleftrightarrow> k \<notin> wo_Key ` set (ct_writeBuf t)"
proof -
  assume t: "tx_inv t"
  have "k \<in> wo_Key ` set (ct_writeBuf t) \<longleftrightarrow> (\<exists>i < length (ct_writeBuf t). wo_Key (ct_writeBuf t ! i) = k)"
    by (metis (no_types, lifting) image_iff in_set_conv_nth)
  also have "\<dots> \<longleftrightarrow> (\<exists>i. ct_writeIdx t k = Some i)" by (simp only: tx_inv_idx [OF t])
  finally show ?thesis by auto
qed

lemma find_buffered:
  assumes "tx_inv t"
  shows "find (\<lambda>w. wo_Key w = k) (ct_writeBuf t) = map_option (\<lambda>i. ct_writeBuf t ! i) (ct_writeIdx t k)"
proof (cases "ct_writeIdx t k")
  case None
  then have "k \<notin> wo_Key ` set (ct_writeBuf t)" by (simp add: writeIdx_None [OF assms])
  then have "find (\<lambda>w. wo_Key w = k) (ct_writeBuf t) = None" by (auto simp: find_None_iff)
  with None show ?thesis by simp
next
  case (Some i)
  from writeIdx_Some [OF assms Some] have i: "i < length (ct_writeBuf t)" "wo_Key (ct_writeBuf t ! i) = k" by auto
  moreover have "wo_Key (ct_writeBuf t ! j) \<noteq> k" if "j < i" for j
    using nth_eq_iff_index_eq [OF tx_inv_distinct [OF assms], of i j] i that by auto
  ultimately have "find (\<lambda>w. wo_Key w = k) (ct_writeBuf t) = Some (ct_writeBuf t ! i)" by (auto simp: find_Some_iff)
  with Some show ?thesis by simp
qed

lemma buf_put_keys: "wo_Key ` set (buf_put wo buf) = insert (wo_Key wo) (wo_Key ` set buf)"
  by (auto simp: buf_put_def image_iff)

lemma bufferWrite_spec:
  assumes "tx_inv t"
  shows "tx_inv (bufferWrite wo t) \<and> ct_writeBuf (bufferWrite wo t) = buf_put wo (ct_writeBuf t) \<and>
    ct_reads (bufferWrite wo t) = ct_reads t \<and> ct_readSeen (bufferWrite wo t) = ct_readSeen t \<and> ct_done (bufferWrite wo t) = ct_done t"
proof (cases "ct_writeIdx t (wo_Key wo)")
  case None
  with writeIdx_None [OF assms] have n: "wo_Key wo \<notin> wo_Key ` set (ct_writeBuf t)" by simp
  moreover have "tx_inv (bufferWrite wo t)"
  proof (rule tx_invI)
    fix k i
    have old: "ct_writeIdx t k = Some i \<longleftrightarrow> i < length (ct_writeBuf t) \<and> wo_Key (ct_writeBuf t ! i) = k"
      by (rule tx_inv_idx [OF assms])
    have "wo_Key (ct_writeBuf t ! i) \<noteq> wo_Key wo" if "i < length (ct_writeBuf t)"
      using n imageI [OF nth_mem [OF that], of wo_Key] by auto
    with old None show "ct_writeIdx (bufferWrite wo t) k = Some i \<longleftrightarrow>
        i < length (ct_writeBuf (bufferWrite wo t)) \<and> wo_Key (ct_writeBuf (bufferWrite wo t) ! i) = k"
      by (auto simp: bufferWrite_def nth_append less_Suc_eq)
  next
    show "ct_readSeen (bufferWrite wo t) k \<noteq> None \<longleftrightarrow> k \<in> rc_Key ` set (ct_reads (bufferWrite wo t))" for k
      using tx_inv_seen [OF assms, of k] None by (simp add: bufferWrite_def)
  qed
  ultimately show ?thesis using None by (simp add: bufferWrite_def buf_put_def)
next
  case (Some i)
  from writeIdx_Some [OF assms Some] have i: "i < length (ct_writeBuf t)" "wo_Key (ct_writeBuf t ! i) = wo_Key wo" by auto
  have j: "wo_Key (ct_writeBuf t ! j) \<noteq> wo_Key wo" if "j < length (ct_writeBuf t)" "j \<noteq> i" for j
    using nth_eq_iff_index_eq [OF tx_inv_distinct [OF assms], of i j] i that by auto
  have "(ct_writeBuf t)[i := wo] = map (\<lambda>w. if wo_Key w = wo_Key wo then wo else w) (ct_writeBuf t)"
    using i j by (intro nth_equalityI) (auto simp: nth_list_update)
  moreover have "wo_Key wo \<in> wo_Key ` set (ct_writeBuf t)" using i(2) imageI [OF nth_mem [OF i(1)], of wo_Key] by simp
  ultimately have "ct_writeBuf (bufferWrite wo t) = buf_put wo (ct_writeBuf t)" using Some by (simp add: bufferWrite_def buf_put_def)
  moreover have "tx_inv (bufferWrite wo t)"
  proof (rule tx_invI)
    show "ct_readSeen (bufferWrite wo t) k \<noteq> None \<longleftrightarrow> k \<in> rc_Key ` set (ct_reads (bufferWrite wo t))" for k
      using tx_inv_seen [OF assms, of k] Some by (simp add: bufferWrite_def)
    have "wo_Key ((ct_writeBuf t)[i := wo] ! n) = wo_Key (ct_writeBuf t ! n)" if "n < length (ct_writeBuf t)" for n
      using i that by (auto simp: nth_list_update)
    then show "ct_writeIdx (bufferWrite wo t) k = Some n \<longleftrightarrow>
        n < length (ct_writeBuf (bufferWrite wo t)) \<and> wo_Key (ct_writeBuf (bufferWrite wo t) ! n) = k" for k n
      using tx_inv_idx [OF assms, of k n] Some by (auto simp: bufferWrite_def)
  qed
  ultimately show ?thesis using Some by (simp add: bufferWrite_def)
qed

lemma recordRead_spec:
  assumes "tx_inv t"
  shows "tx_inv (recordRead k v a t) \<and> ct_writeBuf (recordRead k v a t) = ct_writeBuf t \<and> ct_done (recordRead k v a t) = ct_done t \<and>
    ct_reads (recordRead k v a t) =
      ct_reads t @ (if k \<in> rc_Key ` set (ct_reads t) then [] else [ReadCheck k (if a then [] else v) a])"
proof -
  have seen: "ct_readSeen t k \<noteq> None \<longleftrightarrow> k \<in> rc_Key ` set (ct_reads t)" by (rule tx_inv_seen [OF assms])
  have "tx_inv (recordRead k v a t)"
  proof (rule tx_invI)
    show "ct_readSeen (recordRead k v a t) k' \<noteq> None \<longleftrightarrow> k' \<in> rc_Key ` set (ct_reads (recordRead k v a t))" for k'
      using tx_inv_seen [OF assms, of k'] by (auto simp: recordRead_def)
    show "ct_writeIdx (recordRead k v a t) k' = Some i \<longleftrightarrow>
        i < length (ct_writeBuf (recordRead k v a t)) \<and> wo_Key (ct_writeBuf (recordRead k v a t) ! i) = k'" for k' i
      using tx_inv_idx [OF assms, of k' i] by (simp add: recordRead_def)
  qed
  with seen show ?thesis by (auto simp: recordRead_def)
qed

section \<open>A validated run is a run alone\<close>

lemma guard_error: "guardShard cl k t w = (Some e, t') \<Longrightarrow> e \<noteq> BackendErr ErrNotFound"
  by (auto simp: guardShard_def finalized_def errUnitAcquiringBecause_def split: if_splits)

lemma reads_hold_append [simp]: "reads_hold (xs @ ys) m \<longleftrightarrow> reads_hold xs m \<and> reads_hold ys m"
  by (simp add: reads_hold_def)

lemma tx_inv_guard: "tx_inv t \<Longrightarrow> guardShard cl k t w = (r, t') \<Longrightarrow> tx_inv t'"
  using guardShard_fields [of cl k t w r t'] by (simp add: tx_inv_def)

lemma clusterTx_Get_spec:
  assumes inv: "tx_inv t" and run: "clusterTx_Get cl k t w = (r, t', w')"
  shows "tx_inv t' \<and> ct_writeBuf t' = ct_writeBuf t \<and> ct_done t' = ct_done t \<and>
    (\<exists>more. ct_reads t' = ct_reads t @ more \<and> rc_Key ` set more \<subseteq> {k}) \<and>
    ((\<exists>e. r = Inl e \<and> e \<noteq> BackendErr ErrNotFound) \<or>
     (k \<in> wo_Key ` set (ct_writeBuf t) \<or> k \<notin> rc_Key ` set (ct_reads t) \<longrightarrow>
       (\<forall>m. reads_hold (ct_reads t') m \<longrightarrow> r = read_alone m (ct_writeBuf t) k)))"
proof -
  obtain g t1 where g: "guardShard cl k t w = (g, t1)" by fastforce
  note F = guardShard_fields [OF g] and inv1 = tx_inv_guard [OF inv g]
  show ?thesis
  proof (cases g)
    case (Some e)
    with run g have "r = Inl e" "t' = t1" by (auto simp: clusterTx_Get_def)
    with F inv1 guard_error [of cl k t w e t1] g Some show ?thesis by auto
  next
    case None
    show ?thesis
    proof (cases "ct_writeIdx t k")
      case (Some i)
      with find_buffered [OF inv, of k] have fd: "find (\<lambda>w. wo_Key w = k) (ct_writeBuf t) = Some (ct_writeBuf t ! i)" by simp
      from run g None Some F have "t' = t1" "r = (if wo_Del (ct_writeBuf t ! i) then Inl (BackendErr ErrNotFound) else Inr (wo_Value (ct_writeBuf t ! i)))"
        by (auto simp: clusterTx_Get_def Let_def split: if_splits)
      with F inv1 fd show ?thesis by (auto simp: read_alone_def)
    next
      case new: None
      with find_buffered [OF inv, of k] writeIdx_None [OF inv, of k]
      have fd: "find (\<lambda>w. wo_Key w = k) (ct_writeBuf t) = None" "k \<notin> wo_Key ` set (ct_writeBuf t)" by simp_all
      obtain x w1 where x: "cl_Get cl k w = (x, w1)" by fastforce
      show ?thesis
      proof (cases "\<exists>e. x = Inl e \<and> \<not> errors_Is e (BackendErr ErrNotFound)")
        case True
        then obtain e where e: "x = Inl e" "\<not> errors_Is e (BackendErr ErrNotFound)" by blast
        with run g None new F x have "r = Inl e" "t' = t1" by (auto simp: clusterTx_Get_def)
        moreover have "e \<noteq> BackendErr ErrNotFound" using e(2) by auto
        ultimately show ?thesis using F inv1 by auto
      next
        case False
        let ?v = "case x of Inl _ \<Rightarrow> [] | Inr v \<Rightarrow> v" and ?a = "\<exists>e. x = Inl e"
        from False run g None new F x have r: "r = (if ?a then Inl (BackendErr ErrNotFound) else Inr ?v)" "t' = recordRead k ?v ?a t1"
          by (auto simp: clusterTx_Get_def split: sum.splits)
        with recordRead_spec [OF inv1, of k ?v ?a] F fd show ?thesis
          by (auto simp: read_alone_def reads_hold_def split: if_splits)
      qed
    qed
  qed
qed

lemma buffered_write_spec:
  assumes inv: "tx_inv t" and run: "(case guardShard cl k t w of (Some e, t) \<Rightarrow> (Some e, t) | (None, t) \<Rightarrow> (None, bufferWrite wo t)) = (r, t')"
  shows "tx_inv t' \<and> ct_reads t' = ct_reads t \<and> ct_done t' = ct_done t \<and> (r = None \<longrightarrow> ct_writeBuf t' = buf_put wo (ct_writeBuf t))"
proof -
  obtain g t1 where g: "guardShard cl k t w = (g, t1)" by fastforce
  note F = guardShard_fields [OF g] and inv1 = tx_inv_guard [OF inv g]
  show ?thesis
  proof (cases g)
    case (Some e)
    with run g have "r = Some e" "t' = t1" by auto
    with F inv1 show ?thesis by simp
  next
    case None
    with run g have "r = None" "t' = bufferWrite wo t1" by auto
    with bufferWrite_spec [OF inv1, of wo] F show ?thesis by simp
  qed
qed

lemma run_tx_alone:
  assumes "run_tx cl env fn i t w = (None, i', t', w')" "tx_inv t" "closure_ok fn S W"
    "rc_Key ` set (ct_reads t) \<subseteq> S" "W \<subseteq> wo_Key ` set (ct_writeBuf t)"
  shows "tx_inv t' \<and> ct_done t' = ct_done t \<and> (\<exists>more. ct_reads t' = ct_reads t @ more) \<and>
    (\<forall>m. reads_hold (ct_reads t') m \<longrightarrow> run_alone fn m (ct_writeBuf t) = (None, ct_writeBuf t'))"
  using assms
proof (induction fn arbitrary: i t w S W)
  case (TxReturn r)
  then show ?case by simp
next
  case (TxGet k cont)
  obtain r t1 w1 where g: "clusterTx_Get cl k t (env i w) = (r, t1, w1)" by (rule prod_cases3)
  note G = clusterTx_Get_spec [OF TxGet.prems(2) g]
  from TxGet.prems(1) g have n: "run_tx cl env (cont r) (Suc i) t1 w1 = (None, i', t', w')" by simp
  then have "\<not> (\<exists>e. r = Inl e \<and> e \<noteq> BackendErr ErrNotFound)" using TxGet.prems(3) by auto
  moreover have "k \<in> wo_Key ` set (ct_writeBuf t) \<or> k \<notin> rc_Key ` set (ct_reads t)" using TxGet.prems(3-5) by auto
  ultimately have al: "\<forall>m. reads_hold (ct_reads t1) m \<longrightarrow> r = read_alone m (ct_writeBuf t) k" using G by blast
  from G obtain new where "ct_reads t1 = ct_reads t @ new" "rc_Key ` set new \<subseteq> {k}" by blast
  then have sub1: "rc_Key ` set (ct_reads t1) \<subseteq> insert k S" using TxGet.prems(4) by (auto simp: image_subset_iff)
  have sub2: "W \<subseteq> wo_Key ` set (ct_writeBuf t1)" using G TxGet.prems(5) by simp
  have "closure_ok (cont r) (insert k S) W" using TxGet.prems(3) by auto
  note IH = TxGet.IH [OF rangeI n conjunct1 [OF G] this sub1 sub2]
  from IH obtain more where m: "ct_reads t' = ct_reads t1 @ more" by blast
  have "run_alone (TxGet k cont) m (ct_writeBuf t) = (None, ct_writeBuf t')" if "reads_hold (ct_reads t') m" for m
  proof -
    from that m al have "r = read_alone m (ct_writeBuf t) k" by simp
    with IH that G show ?thesis by simp
  qed
  with IH G show ?case by auto
next
  case (TxPut k v cont)
  obtain r t1 where g: "clusterTx_Put cl k v t (env i w) = (r, t1)" by fastforce
  note G = buffered_write_spec [OF TxPut.prems(2) g [unfolded clusterTx_Put_def]]
  from TxPut.prems(1) g have n: "run_tx cl env (cont r) (Suc i) t1 (env i w) = (None, i', t', w')" by simp
  then have r: "r = None" using TxPut.prems(3) by (cases r) (auto, metis option.distinct(1) prod.inject run_tx.simps(1))
  from n r have n': "run_tx cl env (cont None) (Suc i) t1 (env i w) = (None, i', t', w')" by simp
  have "closure_ok (cont None) S (insert k W)" "rc_Key ` set (ct_reads t1) \<subseteq> S" "insert k W \<subseteq> wo_Key ` set (ct_writeBuf t1)"
    using TxPut.prems(3-5) G r by (auto simp: buf_put_keys)
  from TxPut.IH [OF rangeI n' conjunct1 [OF G] this] G r show ?case by auto
next
  case (TxDelete k cont)
  obtain r t1 where g: "clusterTx_Delete cl k t (env i w) = (r, t1)" by fastforce
  note G = buffered_write_spec [OF TxDelete.prems(2) g [unfolded clusterTx_Delete_def]]
  from TxDelete.prems(1) g have n: "run_tx cl env (cont r) (Suc i) t1 (env i w) = (None, i', t', w')" by simp
  then have r: "r = None" using TxDelete.prems(3) by (cases r) (auto, metis option.distinct(1) prod.inject run_tx.simps(1))
  from n r have n': "run_tx cl env (cont None) (Suc i) t1 (env i w) = (None, i', t', w')" by simp
  have "closure_ok (cont None) S (insert k W)" "rc_Key ` set (ct_reads t1) \<subseteq> S" "insert k W \<subseteq> wo_Key ` set (ct_writeBuf t1)"
    using TxDelete.prems(3-5) G r by (auto simp: buf_put_keys)
  from TxDelete.IH [OF rangeI n' conjunct1 [OF G] this] G r show ?case by auto
next
  case (TxScan pre cont)
  from TxScan.prems(3) obtain x where "cont (clusterTx_ScanPrefix pre) = TxReturn (Some x)" unfolding closure_ok.simps by blast
  with TxScan.prems(1) show ?case by simp
qed

section \<open>The loop, over any commit that keeps the contract\<close>

lemma guard_pinned: "guardShard cl k t w = (r, t') \<Longrightarrow> ct_pinned t \<Longrightarrow> t' = t"
  by (auto simp: guardShard_def split: if_splits)

lemma bufferWrite_pinned [simp]: "ct_pinned (bufferWrite wo t) = ct_pinned t" "ct_pinned (recordRead k v a t) = ct_pinned t"
  by (auto simp: bufferWrite_def recordRead_def split: option.splits)

lemma op_pinned:
  assumes "ct_pinned t"
  shows "clusterTx_Get cl k t w = (x, t', w') \<Longrightarrow> ct_pinned t'" "clusterTx_Put cl k v t w = (y, t') \<Longrightarrow> ct_pinned t'"
    "clusterTx_Delete cl k t w = (y, t') \<Longrightarrow> ct_pinned t'"
  using assms guard_pinned [of cl k t w]
  by (auto simp: clusterTx_Get_def clusterTx_Put_def clusterTx_Delete_def Let_def
      split: prod.splits option.splits if_splits sum.splits)

lemma run_tx_pinned: "run_tx cl env fn i t w = (r, i', t', w') \<Longrightarrow> ct_pinned t \<Longrightarrow> ct_pinned t'"
proof (induction fn arbitrary: i t w)
  case (TxGet k cont)
  obtain x t1 w1 where g: "clusterTx_Get cl k t (env i w) = (x, t1, w1)" by (rule prod_cases3)
  from TxGet.IH [OF rangeI, of x "Suc i" t1 w1] TxGet.prems g op_pinned(1) [OF TxGet.prems(2) g] show ?case by simp
next
  case (TxPut k v cont)
  obtain x t1 where g: "clusterTx_Put cl k v t (env i w) = (x, t1)" by fastforce
  from TxPut.IH [OF rangeI, of x "Suc i" t1 "env i w"] TxPut.prems g op_pinned(2) [OF TxPut.prems(2) g] show ?case by simp
next
  case (TxDelete k cont)
  obtain x t1 where g: "clusterTx_Delete cl k t (env i w) = (x, t1)" by fastforce
  from TxDelete.IH [OF rangeI, of x "Suc i" t1 "env i w"] TxDelete.prems g op_pinned(3) [OF TxDelete.prems(2) g] show ?case by simp
next
  case (TxScan pre cont)
  from TxScan.IH [OF rangeI] TxScan.prems show ?case by simp
qed simp

text \<open>One turn of the loop: it gives up, or it returns after a run, or it goes on after one.\<close>

definition transact_next :: "grpc_ops \<Rightarrow> (nat \<Rightarrow> int \<Rightarrow> int) \<Rightarrow> goerr \<Rightarrow> transact_state \<Rightarrow> transact_state \<Rightarrow> bool" where
  "transact_next gs rnd e st st' \<longleftrightarrow>
     commitRetryable gs e \<and> ts_retryableRuns st < transactRetryableMaxRuns \<and> st' = after_retryable rnd st \<or>
     \<not> commitRetryable gs e \<and> errors_Is e (BackendErr ErrCASConflict) \<and> st' = after_conflict rnd st"

lemma transact_loop_turn:
  assumes "transact_loop cl env took rnd deadline pinKey fn st w = (r, st', w')"
  shows "\<not> ts_attempt st < CASMaxAttempts \<and> r \<noteq> None \<and> st' = st \<and> w' = w \<or>
    (\<exists>x st1 w1. ts_attempt st < CASMaxAttempts \<and> transact_run cl env took pinKey fn st w = (x, st1, w1) \<and>
       ((x = Inl r \<or> x = Inr None \<and> r = None \<or> (\<exists>e. x = Inr (Some e)) \<and> r \<noteq> None) \<and> st' = st1 \<and> w' = w1 \<or>
        (\<exists>e st2. x = Inr (Some e) \<and> transact_next (cl_gs cl) rnd e st1 st2 \<and>
           transact_loop cl env took rnd deadline pinKey fn st2 w1 = (r, st', w'))))"
proof (cases "ts_attempt st < CASMaxAttempts")
  case False
  with assms show ?thesis by (auto simp: transact_loop.simps [of cl env took rnd deadline pinKey fn st w])
next
  case True
  obtain x st1 w1 where x: "transact_run cl env took pinKey fn st w = (x, st1, w1)" by (rule prod_cases3)
  note U = assms [unfolded transact_loop.simps [of cl env took rnd deadline pinKey fn st w], simplified True x, simplified]
  show ?thesis
  proof (cases "\<exists>e. x = Inr (Some e)")
    case False
    with U x True show ?thesis by (cases x) auto
  next
    case True
    then obtain e where "x = Inr (Some e)" by blast
    with U x \<open>ts_attempt st < CASMaxAttempts\<close> show ?thesis
      by (cases "commitRetryable (cl_gs cl) e"; cases "ts_now st1 > deadline"; cases "ts_retryableRuns st1 \<ge> transactRetryableMaxRuns";
          cases "errors_Is e (BackendErr ErrCASConflict)") (auto simp: transact_next_def not_le)
  qed
qed

lemma transact_next_measure:
  assumes "transact_next gs rnd e st1 st2" "transact_run cl env took pinKey fn st w = (x, st1, w1)" "ts_attempt st < CASMaxAttempts"
  shows "CASMaxAttempts - ts_attempt st2 + (transactRetryableMaxRuns - ts_retryableRuns st2) <
    CASMaxAttempts - ts_attempt st + (transactRetryableMaxRuns - ts_retryableRuns st)"
  using assms(1,3) transact_run_measure [OF assms(2)] by (auto simp: transact_next_def after_measure)

lemma transact_loop_induct [case_names turn]:
  assumes "\<And>st w. (\<And>x st1 w1 e st2. transact_run cl env took pinKey fn st w = (x, st1, w1) \<Longrightarrow> x = Inr (Some e) \<Longrightarrow>
      transact_next (cl_gs cl) rnd e st1 st2 \<Longrightarrow> ts_attempt st < CASMaxAttempts \<Longrightarrow> P st2 w1) \<Longrightarrow> P st w"
  shows "P st w"
proof (induction "CASMaxAttempts - ts_attempt st + (transactRetryableMaxRuns - ts_retryableRuns st)" arbitrary: st w rule: less_induct)
  case less
  show ?case by (rule assms) (rule less, rule transact_next_measure)
qed

text \<open>A closure took effect at one moment, alone, between effects of others.\<close>

definition took_effect ::
    "('w \<Rightarrow> bytes \<rightharpoonup> bytes) \<Rightarrow> ((bytes \<rightharpoonup> bytes) \<times> (bytes \<rightharpoonup> bytes)) set \<Rightarrow> bool \<Rightarrow> tx_prog \<Rightarrow> 'w \<Rightarrow> 'w \<Rightarrow> bool" where
  "took_effect kv others replicated fn w w' \<longleftrightarrow>
     (\<exists>m ws. (kv w, m) \<in> others\<^sup>* \<and> run_alone fn m [] = (None, ws) \<and> (apply_writes replicated ws m, kv w') \<in> others\<^sup>*)"

text \<open>What \<^verbatim>\<open>Transact\<close> relies on of the cluster. \<open>kv\<close> is what clients see, \<open>others\<close> the effects other clients may have. A commit that
  returns nil validated its checks on the contents it replaced and stored its write-set, all at once; a refused one stored nothing.\<close>

locale cas_world =
  fixes cl :: "'w cas_cluster" and env :: "nat \<Rightarrow> 'w \<Rightarrow> 'w" and kv :: "'w \<Rightarrow> bytes \<rightharpoonup> bytes" and ok :: "'w \<Rightarrow> bool"
    and others :: "((bytes \<rightharpoonup> bytes) \<times> (bytes \<rightharpoonup> bytes)) set" and replicated :: bool
  assumes env_ok: "ok w \<Longrightarrow> ok (env i w) \<and> (kv w, kv (env i w)) \<in> others\<^sup>*"
    and get_ok: "ok w \<Longrightarrow> cl_Get cl k w = (r, w') \<Longrightarrow> ok w' \<and> (kv w, kv w') \<in> others\<^sup>*"
    and commit_done: "ok w \<Longrightarrow> cl_commitCAS cl p rs ws w = (None, w') \<Longrightarrow>
      ok w' \<and> reads_hold rs (kv w) \<and> (apply_writes replicated ws (kv w), kv w') \<in> others\<^sup>*"
    and commit_refused: "ok w \<Longrightarrow> cl_commitCAS cl p rs ws w = (Some e, w') \<Longrightarrow> ok w' \<and> (kv w, kv w') \<in> others\<^sup>*"
begin

lemma Get_world: "ok w \<Longrightarrow> clusterTx_Get cl k t w = (r, t', w') \<Longrightarrow> ok w' \<and> (kv w, kv w') \<in> others\<^sup>*"
  using get_ok [of w k]
  by (auto simp: clusterTx_Get_def Let_def split: prod.splits option.splits if_splits sum.splits)

lemma run_tx_world: "ok w \<Longrightarrow> run_tx cl env fn i t w = (r, i', t', w') \<Longrightarrow> ok w' \<and> (kv w, kv w') \<in> others\<^sup>*"
proof (induction fn arbitrary: i t w)
  case (TxReturn x)
  then show ?case by simp
next
  case (TxGet k cont)
  obtain x t1 w1 where g: "clusterTx_Get cl k t (env i w) = (x, t1, w1)" by (rule prod_cases3)
  from env_ok [OF TxGet.prems(1)] Get_world [OF _ g] have "ok w1" "(kv w, kv w1) \<in> others\<^sup>*" by (auto intro: rtrancl_trans)
  with TxGet.IH [OF rangeI, of w1 x "Suc i" t1] TxGet.prems(2) g show ?case by (auto intro: rtrancl_trans)
next
  case (TxPut k v cont)
  obtain x t1 where "clusterTx_Put cl k v t (env i w) = (x, t1)" by fastforce
  with TxPut.IH [OF rangeI, of "env i w" x "Suc i" t1] TxPut.prems env_ok [of w i] show ?case by (auto intro: rtrancl_trans)
next
  case (TxDelete k cont)
  obtain x t1 where "clusterTx_Delete cl k t (env i w) = (x, t1)" by fastforce
  with TxDelete.IH [OF rangeI, of "env i w" x "Suc i" t1] TxDelete.prems env_ok [of w i] show ?case by (auto intro: rtrancl_trans)
next
  case (TxScan pre cont)
  from TxScan.IH [OF rangeI TxScan.prems(1)] TxScan.prems(2) show ?case by simp
qed

lemma took_effect_before: "(kv w, kv w1) \<in> others\<^sup>* \<Longrightarrow> took_effect kv others replicated fn w1 w' \<Longrightarrow> took_effect kv others replicated fn w w'"
  unfolding took_effect_def by (blast intro: rtrancl_trans)

lemma transact_run_effect:
  assumes "ok w" "closure_ok fn {} {}" "transact_run cl env took pinKey fn st w = (r, st', w')"
  shows "ok w' \<and> (if r = Inr None then took_effect kv others replicated fn w w' else (kv w, kv w') \<in> others\<^sup>*) \<and> r \<noteq> Inl None"
proof -
  let ?w = "env (ts_step st) w"
  let ?t = "pinLocked cl pinKey newCASTx ?w"
  obtain err i t w1 where run: "run_tx cl env fn (Suc (ts_step st)) ?t ?w = (err, i, t, w1)" by (metis prod_cases4)
  from run_tx_world [OF _ run] env_ok [OF assms(1)] have w1: "ok w1" "(kv w, kv w1) \<in> others\<^sup>*" by (auto intro: rtrancl_trans)
  from env_ok [OF w1(1), of i] w1(2) have w2: "ok (env i w1)" "(kv w, kv (env i w1)) \<in> others\<^sup>*" by (auto intro: rtrancl_trans)
  show ?thesis
  proof (cases err)
    case (Some e)
    with assms(3) run w1 show ?thesis by (auto simp: transact_run_def Let_def)
  next
    case None
    have t0: "ct_reads ?t = []" "ct_writeBuf ?t = []" "\<not> ct_done ?t" by (simp_all add: pinLocked_def newCASTx_def Let_def)
    from run_tx_alone [OF run [unfolded None] tx_inv_new(2) assms(2)] t0
    have al: "\<not> ct_done t" "reads_hold (ct_reads t) m \<Longrightarrow> run_alone fn m [] = (None, ct_writeBuf t)" for m by auto
    obtain e t2 w3 where c: "clusterTx_Commit cl t (env i w1) = (e, t2, w3)" by (rule prod_cases3)
    with assms(3) run None have r: "r = Inr e" "w' = w3" by (auto simp: transact_run_def Let_def)
    from c al(1) consider "ct_writeBuf t = []" "ct_reads t = []" "e = None" "w3 = env i w1"
      | "\<not> ct_pinned t" "e = None" "w3 = env i w1"
      | "cl_commitCAS cl (ct_pinKey t) (ct_reads t) (ct_writeBuf t) (env i w1) = (e, w3)"
      by (auto simp: clusterTx_Commit_def Let_def split: if_splits prod.splits)
    then show ?thesis
    proof cases
      case 1
      with al(2) have "run_alone fn (kv (env i w1)) [] = (None, [])" by (simp add: reads_hold_def)
      with w2 r 1 show ?thesis unfolding took_effect_def by (auto intro!: exI [of _ "kv (env i w1)"] exI [of _ "[]"])
    next
      case 2
      have "ct_pinned t" using run_tx_pinned [OF run] by (simp add: pinLocked_def newCASTx_def Let_def)
      with 2 show ?thesis by simp
    next
      case 3
      show ?thesis
      proof (cases e)
        case None
        with commit_done [OF w2(1)] 3 have "ok w3" "reads_hold (ct_reads t) (kv (env i w1))"
          "(apply_writes replicated (ct_writeBuf t) (kv (env i w1)), kv w3) \<in> others\<^sup>*" by auto
        with al(2) w2(2) None r show ?thesis unfolding took_effect_def by auto
      next
        case (Some x)
        with commit_refused [OF w2(1)] 3 w2(2) r show ?thesis by (auto intro: rtrancl_trans)
      qed
    qed
  qed
qed

lemma transact_loop_effect:
  assumes "closure_ok fn {} {}"
  shows "ok w \<Longrightarrow> transact_loop cl env took rnd deadline pinKey fn st w = (r, st', w') \<Longrightarrow>
    ok w' \<and> (if r = None then took_effect kv others replicated fn w w' else (kv w, kv w') \<in> others\<^sup>*)"
proof (induction st w rule: transact_loop_induct [where cl = cl and env = env and took = took and rnd = rnd and pinKey = pinKey and fn = fn])
  case (turn st w)
  from transact_loop_turn [OF turn.prems(2)] show ?case
  proof (elim disjE exE conjE)
    assume "r \<noteq> None" "w' = w"
    with turn.prems(1) show ?thesis by auto
  next
    fix x st1 w1 e st2
    assume x: "transact_run cl env took pinKey fn st w = (x, st1, w1)" "x = Inr (Some e)" "transact_next (cl_gs cl) rnd e st1 st2"
      "ts_attempt st < CASMaxAttempts" and l: "transact_loop cl env took rnd deadline pinKey fn st2 w1 = (r, st', w')"
    from transact_run_effect [OF turn.prems(1) assms x(1)] x(2) have w1: "ok w1" "(kv w, kv w1) \<in> others\<^sup>*" by auto
    from turn.IH [OF x w1(1) l] w1(2) show ?thesis by (auto intro: rtrancl_trans took_effect_before split: if_splits)
  next
    fix x st1 w1 assume x: "transact_run cl env took pinKey fn st w = (x, st1, w1)" "x = Inl r" "w' = w1"
    from transact_run_effect [OF turn.prems(1) assms x(1)] x(2,3) show ?thesis by (cases r) auto
  next
    fix x st1 w1 assume x: "transact_run cl env took pinKey fn st w = (x, st1, w1)" "x = Inr None" "r = None" "w' = w1"
    from transact_run_effect [OF turn.prems(1) assms x(1)] x(2-4) show ?thesis by simp
  next
    fix x st1 w1 e assume x: "transact_run cl env took pinKey fn st w = (x, st1, w1)" "x = Inr (Some e)" "r \<noteq> None" "w' = w1"
    from transact_run_effect [OF turn.prems(1) assms x(1)] x(2-4) show ?thesis by auto
  qed
qed

lemma Transact_effect:
  assumes "ok w" "closure_ok fn {} {}" "Transact cl env took rnd now pinKey fn w = (r, st', w')"
  shows "ok w' \<and> (if r = None then took_effect kv others replicated fn w w' else (kv w, kv w') \<in> others\<^sup>*)"
  using assms transact_loop_effect [OF assms(2,1)] by (auto simp: Transact_def Let_def split: if_splits)

end

end
