(* ===== verification/Cas_Cluster.thy ===== *)
theory Cas_Cluster
  imports Cas_Tx
begin

text \<open>
  The conditional commit end to end: \<^verbatim>\<open>Transact\<close> over the dispatch of \<^verbatim>\<open>commitCAS\<close> and the owner's validate-and-apply, on any backend that
  keeps the storage contract. The theorems say when a closure takes effect exactly once, how long the loop may run, and the two
  ways in which a caller can be surprised: a lost reply and a key read twice.
\<close>

section \<open>The dispatch of a client\<close>

text \<open>How a commit travels, depending on the state of the cluster.\<close>

record 'w cas_route =
  ro_local :: "'w \<Rightarrow> bool"
  ro_client :: "'w \<Rightarrow> goerr option"
  ro_fate :: "'w \<Rightarrow> rpc_fate"
  ro_owns :: "'w \<Rightarrow> bool"
  ro_ctxErr :: "'w \<Rightarrow> goerr option"
  ro_wall :: "'w \<Rightarrow> int"

definition cas_commit ::
    "('b, 't, 'm, 'p) cas_cfg \<Rightarrow> (goerr \<Rightarrow> string) \<Rightarrow> ('b, 'm, 'p) cas_owner cas_route \<Rightarrow> bytes \<Rightarrow> ReadCheck list \<Rightarrow> WriteOp list \<Rightarrow>
     ('b, 'm, 'p) cas_owner \<Rightarrow> goerr option \<times> ('b, 'm, 'p) cas_owner" where
  "cas_commit cf describe ro pinKey reads writes w =
     commitCAS (cc_gs cf) describe (cc_notReady cf) (ro_local ro w) (ro_client ro w) (ro_fate ro w) (ro_owns ro w)
       (CommitCASApply cf (ro_ctxErr ro w) (ro_wall ro w) pinKey reads writes) w"

text \<open>No call to a peer fails after its handler ran.\<close>

definition no_lost_reply :: "'w cas_route \<Rightarrow> bool" where
  "no_lost_reply ro \<longleftrightarrow> (\<forall>w e. ro_fate ro w \<noteq> ReplyLost e)"

lemma commitCAS_spec:
  assumes "\<forall>e. fate \<noteq> ReplyLost e" "\<forall>e. describe e \<noteq> ''''"
    and "apply w = (res, w1)" "cr_Committed res \<or> cr_Conflict res \<or> cr_Err res \<noteq> None"
    and "commitCAS gs describe notReady isLocal clientErr fate ownsPin apply w = (r, w')"
  shows "r = None \<and> cr_Committed res \<and> w' = w1 \<or> r \<noteq> None \<and> (w' = w \<or> \<not> cr_Committed res \<and> w' = w1)"
proof -
  have l: "casResultToError res = None \<longleftrightarrow> cr_Committed res" using assms(4) by (auto simp: casResultToError_def split: option.splits)
  have s: "case casCommitResponse gs describe res of Inl e \<Rightarrow> \<not> cr_Committed res | Inr resp \<Rightarrow> commit_reply resp = None \<longleftrightarrow> cr_Committed res"
    using assms(2,4) by (auto simp: casCommitResponse_def commit_reply_def Let_def split: option.splits)
  show ?thesis
  proof (cases "\<not> notReady \<and> (isLocal \<or> clientErr = None \<and> fate = Delivered \<and> ownsPin)")
    case False
    with assms(1,5) show ?thesis
      by (cases fate) (auto simp: commitCAS_def server_CommitCAS_def split: if_splits option.splits)
  next
    case True
    show ?thesis
    proof (cases isLocal)
      case True
      with assms(3,5) \<open>\<not> notReady \<and> _\<close> l show ?thesis by (auto simp: commitCAS_def)
    next
      case False
      with True assms(3,5) s show ?thesis
        by (auto simp: commitCAS_def server_CommitCAS_def split: sum.splits)
    qed
  qed
qed

text \<open>What the owner does after its local commit, seen from the contents of the pin unit: the fan-out and the flush let others in and
  change nothing themselves, and the flush succeeds.\<close>

definition quiet_tail ::
    "('b, 't, 'm, 'p) cas_cfg \<Rightarrow> ('b \<Rightarrow> bool) \<Rightarrow> ('b \<Rightarrow> bytes \<rightharpoonup> bytes) \<Rightarrow> ((bytes \<rightharpoonup> bytes) \<times> (bytes \<rightharpoonup> bytes)) set \<Rightarrow> bool" where
  "quiet_tail cf ok kv others \<longleftrightarrow>
     (\<forall>k batch s e s'. ok (co_b s) \<and> cc_replicate cf k batch s = (e, s') \<longrightarrow>
        ok (co_b s') \<and> (seen_map (cc_replicated cf) (kv (co_b s)), seen_map (cc_replicated cf) (kv (co_b s'))) \<in> others\<^sup>*) \<and>
     (\<forall>s e s'. ok (co_b s) \<and> flushOwnerUnderReplicated cf s = (e, s') \<longrightarrow>
        e = None \<and> ok (co_b s') \<and> (seen_map (cc_replicated cf) (kv (co_b s)), seen_map (cc_replicated cf) (kv (co_b s'))) \<in> others\<^sup>*)"

lemma quiet_replicate:
  "quiet_tail cf ok kv others \<Longrightarrow> ok (co_b s) \<Longrightarrow> cc_replicate cf k batch s = (e, s') \<Longrightarrow>
     ok (co_b s') \<and> (seen_map (cc_replicated cf) (kv (co_b s)), seen_map (cc_replicated cf) (kv (co_b s'))) \<in> others\<^sup>*"
  unfolding quiet_tail_def by blast

lemma quiet_flush:
  "quiet_tail cf ok kv others \<Longrightarrow> ok (co_b s) \<Longrightarrow> flushOwnerUnderReplicated cf s = (e, s') \<Longrightarrow>
     e = None \<and> ok (co_b s') \<and> (seen_map (cc_replicated cf) (kv (co_b s)), seen_map (cc_replicated cf) (kv (co_b s'))) \<in> others\<^sup>*"
  unfolding quiet_tail_def by blast

context kv_backend
begin

lemma CommitCASApply_effect:
  assumes "cc_ops cf = ops" "ok (co_b s)" "length (cc_NodeID cf) \<le> MaxNodeIDLen" "quiet_tail cf ok kv others"
    and run: "CommitCASApply cf ctxErr wall pinKey reads writes s = (res, s')"
  shows "ok (co_b s') \<and> (cr_Committed res \<or> cr_Conflict res \<or> cr_Err res \<noteq> None) \<and>
    (if cr_Committed res
     then reads_hold reads (seen_map (cc_replicated cf) (kv (co_b s))) \<and>
       (apply_writes (cc_replicated cf) writes (seen_map (cc_replicated cf) (kv (co_b s))), seen_map (cc_replicated cf) (kv (co_b s'))) \<in> others\<^sup>*
     else kv (co_b s') = kv (co_b s))"
proof (cases "cc_notReady cf")
  case True
  with run assms(2) show ?thesis by (auto simp: CommitCASApply_def)
next
  case False
  obtain r s1 where c: "cas_critical cf ctxErr wall pinKey reads writes s = (r, s1)" by fastforce
  have "length (cc_NodeID cf) < 2 ^ 16" using assms(3) by (simp add: MaxNodeIDLen_def)
  note P = cas_critical_spec [OF assms(2,1) this c]
  show ?thesis
  proof (cases r)
    case (Inl x)
    with run c False have "res = x" "s' = s1" by (auto simp: CommitCASApply_def)
    with P Inl show ?thesis by (auto simp: commit_post_def)
  next
    case (Inr batch)
    with P have ok1: "ok (co_b s1)" and post: "reads_hold reads (seen_map (cc_replicated cf) (kv (co_b s)))"
      "seen_map (cc_replicated cf) (kv (co_b s1)) = apply_writes (cc_replicated cf) writes (seen_map (cc_replicated cf) (kv (co_b s)))"
      by (auto simp: commit_post_def)
    have tail: "ok (co_b s') \<and> cr_Committed res \<and>
        (seen_map (cc_replicated cf) (kv (co_b s1)), seen_map (cc_replicated cf) (kv (co_b s'))) \<in> others\<^sup>*"
    proof (cases "cc_replicated cf \<and> length batch > 0")
      case False
      with run c \<open>\<not> cc_notReady cf\<close> Inr ok1 show ?thesis by (auto simp: CommitCASApply_def split: if_splits)
    next
      case True
      obtain e s2 where f: "cc_replicate cf pinKey batch s1 = (e, s2)" by fastforce
      with quiet_replicate [OF assms(4) ok1]
      have s2: "ok (co_b s2)" "(seen_map (cc_replicated cf) (kv (co_b s1)), seen_map (cc_replicated cf) (kv (co_b s2))) \<in> others\<^sup>*"
        by simp_all
      obtain fe s3 where l: "flushOwnerUnderReplicated cf s2 = (fe, s3)" by fastforce
      with quiet_flush [OF assms(4) s2(1)] have s3: "fe = None" "ok (co_b s3)"
        "(seen_map (cc_replicated cf) (kv (co_b s2)), seen_map (cc_replicated cf) (kv (co_b s3))) \<in> others\<^sup>*"
        by simp_all
      have "CommitCASApply cf ctxErr wall pinKey reads writes s =
          (case e of None \<Rightarrow> (cas_committed, s2) | Some err \<Rightarrow> (cas_committed\<lparr>cr_UnderReplicated := True, cr_Err := Some err\<rparr>, s3))"
        using c False Inr True f l s3(1) by (cases e) (auto simp: CommitCASApply_def)
      with run s2 s3 show ?thesis by (cases e) (auto intro: rtrancl_trans)
    qed
    with post show ?thesis by auto
  qed
qed

lemma cas_commit_effect:
  assumes "cc_ops cf = ops" "ok (co_b w)" "length (cc_NodeID cf) \<le> MaxNodeIDLen" "quiet_tail cf ok kv others"
    "no_lost_reply ro" "\<forall>e. describe e \<noteq> ''''"
    and run: "cas_commit cf describe ro pinKey reads writes w = (r, w')"
  shows "ok (co_b w') \<and>
    (if r = None
     then reads_hold reads (seen_map (cc_replicated cf) (kv (co_b w))) \<and>
       (apply_writes (cc_replicated cf) writes (seen_map (cc_replicated cf) (kv (co_b w))), seen_map (cc_replicated cf) (kv (co_b w'))) \<in> others\<^sup>*
     else kv (co_b w') = kv (co_b w))"
proof -
  obtain res w1 where a: "CommitCASApply cf (ro_ctxErr ro w) (ro_wall ro w) pinKey reads writes w = (res, w1)" by fastforce
  note E = CommitCASApply_effect [OF assms(1-4) a]
  have "\<forall>e. ro_fate ro w \<noteq> ReplyLost e" using assms(5) by (simp add: no_lost_reply_def)
  from commitCAS_spec [OF this assms(6) a _ run [unfolded cas_commit_def]] E assms(2) show ?thesis by auto
qed

end

section \<open>A closure takes effect once, alone\<close>


section \<open>Clients of a node on the memory backend\<close>

text \<open>The node, with any fan-out to its peers; a client of it, reached by calls with any fate; and other clients, which commit what
  \<open>cs i\<close> lists before the \<open>i\<close>-th step.\<close>

definition mem_cfg ::
    "bool \<Rightarrow> (bytes \<Rightarrow> EnvelopeWrite list \<Rightarrow> 'p \<Rightarrow> goerr option \<times> 'p) \<Rightarrow> (Memory, mem_tx, unit, 'p) cas_cfg" where
  "mem_cfg replicated fan = \<lparr>cc_gs = ref_grpc, cc_ops = memory_ops, cc_notReady = False, cc_multi = True, cc_replicated = replicated,
     cc_NodeID = ''node-0'', cc_mounted = (\<lambda>_. True), cc_evict = id,
     cc_replicate = (\<lambda>k batch s. case fan k batch (co_peers s) of (e, p) \<Rightarrow> (e, s\<lparr>co_peers := p\<rparr>)), cc_flusher = None\<rparr>"

definition mem_cluster ::
    "bool \<Rightarrow> (bytes \<Rightarrow> EnvelopeWrite list \<Rightarrow> 'p \<Rightarrow> goerr option \<times> 'p) \<Rightarrow> ((Memory, unit, 'p) cas_owner \<Rightarrow> rpc_fate) \<Rightarrow>
     (Memory, unit, 'p) cas_owner cas_cluster" where
  "mem_cluster replicated fan fate = \<lparr>cl_gs = ref_grpc, cl_notReady = (\<lambda>_. False), cl_multi = False, cl_ownerOf = (\<lambda>_ _. ''node-0''),
     cl_genUnitForKey = (\<lambda>_ _. GenUnit 0 0), cl_shardKey = id,
     cl_Get = (\<lambda>k w. (case seen_map replicated (mem_abs (co_b w)) k of None \<Rightarrow> Inl (BackendErr ErrNotFound) | Some v \<Rightarrow> Inr v, w)),
     cl_commitCAS = cas_commit (mem_cfg replicated fan) (\<lambda>_. ''failed'')
       \<lparr>ro_local = (\<lambda>_. False), ro_client = (\<lambda>_. None), ro_fate = fate, ro_owns = (\<lambda>_. True), ro_ctxErr = (\<lambda>_. None), ro_wall = (\<lambda>_. 1)\<rparr>\<rparr>"

definition clients ::
    "('b, 't, 'm, 'p) cas_cfg \<Rightarrow> (nat \<Rightarrow> (ReadCheck list \<times> WriteOp list) list) \<Rightarrow> nat \<Rightarrow> ('b, 'm, 'p) cas_owner \<Rightarrow> ('b, 'm, 'p) cas_owner" where
  "clients cf cs i w = fold (\<lambda>(rs, ws) w. snd (CommitCASApply cf None 1 [] rs ws w)) (cs i) w"

definition commit_effects :: "bool \<Rightarrow> ((bytes \<rightharpoonup> bytes) \<times> (bytes \<rightharpoonup> bytes)) set" where
  "commit_effects replicated = {(m, apply_writes replicated ws m) |m ws. True}"

definition mem_world :: "kv_list \<Rightarrow> 'p \<Rightarrow> (Memory, unit, 'p) cas_owner" where
  "mem_world d p = \<lparr>co_b = \<lparr>me_data = d, me_closed = False\<rparr>, co_mark = 0, co_mounts = (), co_peers = p\<rparr>"

lemma mem_cfg_simps [simp]:
  "cc_gs (mem_cfg r fan) = ref_grpc" "cc_ops (mem_cfg r fan) = memory_ops" "\<not> cc_notReady (mem_cfg r fan)" "cc_multi (mem_cfg r fan)"
  "cc_replicated (mem_cfg r fan) = r" "cc_NodeID (mem_cfg r fan) = ''node-0''" "cc_mounted (mem_cfg r fan) k" "cc_flusher (mem_cfg r fan) = None"
  by (simp_all add: mem_cfg_def)

lemma mem_cluster_simps [simp]:
  "cl_gs (mem_cluster r fan fate) = ref_grpc" "\<not> cl_notReady (mem_cluster r fan fate) w" "\<not> cl_multi (mem_cluster r fan fate)"
  "cl_ownerOf (mem_cluster r fan fate) k w = ''node-0''"
  "cl_Get (mem_cluster r fan fate) k w =
     (case seen_map r (mem_abs (co_b w)) k of None \<Rightarrow> Inl (BackendErr ErrNotFound) | Some v \<Rightarrow> Inr v, w)"
  by (simp_all add: mem_cluster_def)

lemma commit_effectsI: "apply_writes r ws m = m' \<Longrightarrow> (m, m') \<in> (commit_effects r)\<^sup>*"
  by (rule r_into_rtrancl) (auto simp: commit_effects_def)

lemma mem_quiet: "quiet_tail (mem_cfg r fan) mem_ok mem_abs others"
  by (auto simp: quiet_tail_def mem_cfg_def flushOwnerUnderReplicated_def split: prod.splits)

lemma clients_effect:
  assumes "mem_ok (co_b w)"
  shows "mem_ok (co_b (clients (mem_cfg r fan) cs i w)) \<and>
    (seen_map r (mem_abs (co_b w)), seen_map r (mem_abs (co_b (clients (mem_cfg r fan) cs i w)))) \<in> (commit_effects r)\<^sup>*"
proof -
  have "mem_ok (co_b (fold (\<lambda>(rs, ws) w. snd (CommitCASApply (mem_cfg r fan) None 1 [] rs ws w)) xs w)) \<and>
    (seen_map r (mem_abs (co_b w)), seen_map r (mem_abs (co_b (fold (\<lambda>(rs, ws) w. snd (CommitCASApply (mem_cfg r fan) None 1 [] rs ws w)) xs w))))
      \<in> (commit_effects r)\<^sup>*" for xs
    using assms
  proof (induction xs arbitrary: w)
    case (Cons x xs)
    obtain rs ws where x: "x = (rs, ws)" by fastforce
    obtain res w1 where a: "CommitCASApply (mem_cfg r fan) None 1 [] rs ws w = (res, w1)" by fastforce
    have "length (cc_NodeID (mem_cfg r fan)) \<le> MaxNodeIDLen" by (simp add: MaxNodeIDLen_def)
    from mem_kv.CommitCASApply_effect [OF _ Cons.prems this mem_quiet [where others = "{}"] a]
    have "mem_ok (co_b w1)" "(seen_map r (mem_abs (co_b w)), seen_map r (mem_abs (co_b w1))) \<in> (commit_effects r)\<^sup>*"
      by (auto intro: commit_effectsI split: if_splits)
    with Cons.IH [of w1] x a show ?case by (auto intro: rtrancl_trans)
  qed simp
  then show ?thesis by (simp add: clients_def)
qed

interpretation mem_clients:
  cas_world "mem_cluster r fan (\<lambda>w. case reach w of None \<Rightarrow> Delivered | Some e \<Rightarrow> RequestLost e)" "clients (mem_cfg r fan) cs"
    "\<lambda>w. seen_map r (mem_abs (co_b w))" "\<lambda>w. mem_ok (co_b w)" "commit_effects r" r
  for r fan reach cs
proof
  fix w w' :: "(Memory, unit, 'a) cas_owner" and i k x p rs ws e
  let ?cl = "mem_cluster r fan (\<lambda>w. case reach w of None \<Rightarrow> Delivered | Some e \<Rightarrow> RequestLost e)"
  assume w: "mem_ok (co_b w)"
  show "mem_ok (co_b (clients (mem_cfg r fan) cs i w)) \<and>
      (seen_map r (mem_abs (co_b w)), seen_map r (mem_abs (co_b (clients (mem_cfg r fan) cs i w)))) \<in> (commit_effects r)\<^sup>*"
    by (rule clients_effect [OF w])
  show "mem_ok (co_b w') \<and> (seen_map r (mem_abs (co_b w)), seen_map r (mem_abs (co_b w'))) \<in> (commit_effects r)\<^sup>*"
    if "cl_Get ?cl k w = (x, w')" using that w by auto
  have E: "mem_ok (co_b w') \<and> (if e' = None then reads_hold rs (seen_map r (mem_abs (co_b w))) \<and>
      (apply_writes r ws (seen_map r (mem_abs (co_b w))), seen_map r (mem_abs (co_b w'))) \<in> (commit_effects r)\<^sup>*
      else mem_abs (co_b w') = mem_abs (co_b w))" if "cl_commitCAS ?cl p rs ws w = (e', w')" for e'
  proof -
    have "length (cc_NodeID (mem_cfg r fan)) \<le> MaxNodeIDLen" by (simp add: MaxNodeIDLen_def)
    from mem_kv.cas_commit_effect [OF mem_cfg_simps(2) w this mem_quiet _ _ that [unfolded mem_cluster_def, simplified],
        unfolded mem_cfg_simps, of "commit_effects r"]
    show ?thesis by (simp only: no_lost_reply_def cas_route.simps) (auto split: option.splits)
  qed
  show "mem_ok (co_b w') \<and> reads_hold rs (seen_map r (mem_abs (co_b w))) \<and>
      (apply_writes r ws (seen_map r (mem_abs (co_b w))), seen_map r (mem_abs (co_b w'))) \<in> (commit_effects r)\<^sup>*"
    if "cl_commitCAS ?cl p rs ws w = (None, w')" using E [OF that] by simp
  show "mem_ok (co_b w') \<and> (seen_map r (mem_abs (co_b w)), seen_map r (mem_abs (co_b w'))) \<in> (commit_effects r)\<^sup>*"
    if "cl_commitCAS ?cl p rs ws w = (Some e, w')" using E [OF that] by simp
qed

text \<open>A closure that appends to the value of a key, and a fan-out that succeeds.\<close>

definition append_x :: "bytes \<Rightarrow> tx_prog" where
  "append_x k = TxGet k (\<lambda>r. case r of Inl e \<Rightarrow> TxReturn (Some e) | Inr v \<Rightarrow> TxPut k (v @ ''x'') TxReturn)"

lemma append_x_ok: "closure_ok (append_x k) {} {}"
  by (auto simp: append_x_def split: sum.splits)

definition acked :: "bytes \<Rightarrow> EnvelopeWrite list \<Rightarrow> 'p \<Rightarrow> goerr option \<times> 'p" where
  "acked k batch p = (None, p)"

lemmas transact_eval = transact_run_def run_tx.simps clusterTx_Get_def clusterTx_Put_def clusterTx_Delete_def clusterTx_Commit_def
  guardShard_def pinLocked_def newCASTx_def recordRead_def bufferWrite_def Let_def

lemmas dispatch_eval = mem_cluster_def cas_commit_def commitCAS_def server_CommitCAS_def casCommitResponse_def commit_reply_def

lemma mem_world_simps [simp]: "co_b (mem_world d p) = \<lparr>me_data = d, me_closed = False\<rparr>" "co_peers (mem_world d p) = p"
  "(mem_world d p)\<lparr>co_b := \<lparr>me_data = d', me_closed = False\<rparr>\<rparr> = mem_world d' p" "(mem_world d p)\<lparr>co_peers := p'\<rparr> = mem_world d p'"
  by (simp_all add: mem_world_def)

lemma mem_commit_hit:
  "CommitCASApply (mem_cfg False fan) None 1 pin [ReadCheck k v False] [WriteOp k v' False] (mem_world [(k, v)] p) =
     (cas_committed, mem_world [(k, v')] p)"
  by (simp add: commit_eval)

lemma mem_commit_miss:
  "v \<noteq> u \<Longrightarrow> CommitCASApply (mem_cfg False fan) None 1 pin [ReadCheck k v False] [WriteOp k v' False] (mem_world [(k, u)] p) =
     (cas_conflict, mem_world [(k, u)] p)"
  by (simp add: commit_eval)

lemma mem_commit_blind:
  "CommitCASApply (mem_cfg False fan) None 1 pin [] [WriteOp k v' False] (mem_world [(k, v)] p) = (cas_committed, mem_world [(k, v')] p)"
  by (simp add: commit_eval)

text \<open>One run of the closure while others change the value with \<open>f\<close>: what it reads, and what its commit meets.\<close>

lemma append_run:
  assumes "\<And>i v p. env i (mem_world [(''k'', v)] p) = mem_world [(''k'', f i v)] (g i p)" "ts_step st = i"
  shows "transact_run (mem_cluster False fan fate) env took ''k'' (append_x ''k'') st (mem_world [(''k'', v)] p) =
    (case cl_commitCAS (mem_cluster False fan fate) ''k'' [ReadCheck ''k'' (f (i + 1) (f i v)) False]
        [WriteOp ''k'' (f (i + 1) (f i v) @ ''x'') False]
        (mem_world [(''k'', f (i + 3) (f (i + 2) (f (i + 1) (f i v))))] (g (i + 3) (g (i + 2) (g (i + 1) (g i p))))) of
       (e, w) \<Rightarrow> (Inr e, st\<lparr>ts_runs := Suc (ts_runs st), ts_now := ts_now st + took (ts_runs st), ts_step := i + 4\<rparr>, w))"
  by (simp add: transact_eval append_x_def assms seen_map_def payload_of_def mem_abs_def eval_nat_numeral split: prod.split)

lemma loop_done:
  "ts_attempt st < CASMaxAttempts \<Longrightarrow> transact_run cl env took pinKey fn st w = (Inr None, st1, w1) \<Longrightarrow>
     transact_loop cl env took rnd deadline pinKey fn st w = (None, st1, w1)"
  by (simp add: transact_loop.simps)

lemma loop_conflict:
  "ts_attempt st < CASMaxAttempts \<Longrightarrow> transact_run cl env took pinKey fn st w = (Inr (Some (BackendErr ErrCASConflict)), st1, w1) \<Longrightarrow>
     cl_gs cl = ref_grpc \<Longrightarrow>
     transact_loop cl env took rnd deadline pinKey fn st w = transact_loop cl env took rnd deadline pinKey fn (after_conflict rnd st1) w1"
  by (subst transact_loop.simps) (simp add: commitRetryable_def ref_grpc_def)

lemma loop_retry:
  "ts_attempt st < CASMaxAttempts \<Longrightarrow> transact_run cl env took pinKey fn st w = (Inr (Some e), st1, w1) \<Longrightarrow>
     commitRetryable (cl_gs cl) e \<Longrightarrow> ts_now st1 \<le> deadline \<Longrightarrow> ts_retryableRuns st1 < transactRetryableMaxRuns \<Longrightarrow>
     transact_loop cl env took rnd deadline pinKey fn st w = transact_loop cl env took rnd deadline pinKey fn (after_retryable rnd st1) w1"
  by (subst transact_loop.simps) simp

lemma after_fields [simp]:
  "ts_step (after_conflict rnd st) = ts_step st" "ts_runs (after_conflict rnd st) = ts_runs st"
  "ts_step (after_retryable rnd st) = ts_step st" "ts_runs (after_retryable rnd st) = ts_runs st"
  by (simp_all add: after_conflict_def after_retryable_def sleep_for_def Let_def)


section \<open>How long the loop may run\<close>

text \<open>Before every turn: each earlier run was counted as an attempt or as a retryable re-run, and slept at most its share.\<close>

definition transact_budget :: "transact_state \<Rightarrow> bool" where
  "transact_budget st \<longleftrightarrow>
     ts_runs st = ts_attempt st + ts_retryableRuns st \<and> ts_attempt st \<le> CASMaxAttempts \<and> ts_retryableRuns st \<le> transactRetryableMaxRuns \<and>
     0 < ts_backoff st \<and> ts_backoff st \<le> transactRetryableBackoffCap \<and> length (ts_slept st) \<le> ts_runs st \<and>
     (\<forall>d\<in>set (ts_slept st). 0 < d \<and> d \<le> transactRetryableBackoffCap) \<and>
     sum_list (ts_slept st) \<le> int (ts_retryableRuns st) * transactRetryableBackoffCap + int (ts_attempt st) * (20 * millisecond)"

lemmas transact_constants = CASMaxAttempts_def transactRetryableMaxRuns_def transactRetryableBackoffCap_def casBaseBackoff_def
  transactUnavailableTimeout_def millisecond_def

definition fair_draws :: "(nat \<Rightarrow> int \<Rightarrow> int) \<Rightarrow> bool" where
  "fair_draws rnd \<longleftrightarrow> (\<forall>j n. 0 < n \<longrightarrow> 0 \<le> rnd j n \<and> rnd j n < n)"

lemma after_retryable_budget:
  assumes "transact_budget st" "fair_draws rnd" "ts_retryableRuns st < transactRetryableMaxRuns"
  shows "transact_budget (after_retryable rnd (st\<lparr>ts_runs := Suc (ts_runs st), ts_now := n, ts_step := i\<rparr>))"
proof -
  let ?d = "rnd (Suc (ts_runs st)) (ts_backoff st) + 1"
  have b: "0 < ts_backoff st" "ts_backoff st \<le> 500000000" using assms(1) by (simp_all add: transact_budget_def transact_constants)
  have "0 \<le> rnd (Suc (ts_runs st)) (ts_backoff st) \<and> rnd (Suc (ts_runs st)) (ts_backoff st) < ts_backoff st"
    using assms(2) b(1) by (simp add: fair_draws_def)
  then have d: "0 < ?d" "?d \<le> ts_backoff st" by simp_all
  then have "int64 ?d = ?d" "int64 (ts_backoff st * 2) = ts_backoff st * 2" using b by (simp_all add: int64_id)
  with assms(1,3) b d show ?thesis
    by (auto simp: transact_budget_def after_retryable_def sleep_for_def Let_def transact_constants algebra_simps)
qed

lemma after_conflict_budget:
  assumes "transact_budget st" "fair_draws rnd" "ts_attempt st < CASMaxAttempts"
  shows "transact_budget (after_conflict rnd (st\<lparr>ts_runs := Suc (ts_runs st), ts_now := n, ts_step := i\<rparr>))"
proof -
  let ?n = "casBaseBackoff * int (ts_attempt st + 1)"
  have n: "0 < ?n" "?n \<le> 20000000" using assms(3) by (simp_all add: transact_constants)
  then have i: "int64 ?n = ?n" by (simp add: int64_id)
  let ?d = "casBaseBackoff + rnd (Suc (ts_runs st)) ?n"
  have "0 \<le> rnd (Suc (ts_runs st)) ?n \<and> rnd (Suc (ts_runs st)) ?n < ?n" using assms(2) n(1) by (simp add: fair_draws_def)
  then have d: "0 < ?d" "?d < casBaseBackoff + ?n" by (simp_all add: transact_constants)
  then have "int64 ?d = ?d" using n by (simp add: int64_id transact_constants)
  with assms(1,3) i d n show ?thesis
    by (auto simp: transact_budget_def after_conflict_def sleep_for_def Let_def transact_constants algebra_simps)
qed

lemma transact_run_state:
  "transact_run cl env took pinKey fn st w = (x, st', w') \<Longrightarrow> \<exists>n i. st' = st\<lparr>ts_runs := Suc (ts_runs st), ts_now := n, ts_step := i\<rparr>"
  by (auto simp: transact_run_def Let_def split: prod.splits option.splits)

lemma transact_loop_budget:
  assumes "fair_draws rnd"
  shows "transact_budget st \<Longrightarrow> transact_loop cl env took rnd deadline pinKey fn st w = (r, st', w') \<Longrightarrow>
    ts_runs st' \<le> CASMaxAttempts + transactRetryableMaxRuns \<and> length (ts_slept st') \<le> ts_runs st' \<and>
    (\<forall>d\<in>set (ts_slept st'). 0 < d \<and> d \<le> transactRetryableBackoffCap) \<and>
    sum_list (ts_slept st') \<le> int transactRetryableMaxRuns * transactRetryableBackoffCap + int CASMaxAttempts * (20 * millisecond)"
proof (induction st w rule: transact_loop_induct [where cl = cl and env = env and took = took and rnd = rnd and pinKey = pinKey and fn = fn])
  case (turn st w)
  have fin: ?case if "ts_runs st' \<le> Suc (ts_runs st)" "ts_runs st \<le> ts_runs st'" "ts_slept st' = ts_slept st"
    "ts_attempt st < CASMaxAttempts \<or> ts_runs st' = ts_runs st"
    using that turn.prems(1) by (auto simp: transact_budget_def transact_constants)
  have fin': ?case if "transact_run cl env took pinKey fn st w = (x, st1, w1)" "ts_attempt st < CASMaxAttempts" "st' = st1" for x st1 w1
    using transact_run_state [OF that(1)] that(2,3) by (intro fin) auto
  from transact_loop_turn [OF turn.prems(2)] show ?case
  proof (elim disjE exE conjE)
    assume "st' = st"
    then show ?thesis by (intro fin) simp_all
  next
    fix x st1 w1 e st2
    assume x: "transact_run cl env took pinKey fn st w = (x, st1, w1)" "x = Inr (Some e)" "transact_next (cl_gs cl) rnd e st1 st2"
      "ts_attempt st < CASMaxAttempts" and l: "transact_loop cl env took rnd deadline pinKey fn st2 w1 = (r, st', w')"
    from transact_run_state [OF x(1)] obtain n i where st1: "st1 = st\<lparr>ts_runs := Suc (ts_runs st), ts_now := n, ts_step := i\<rparr>" by blast
    have "transact_budget st2"
      using x(3,4) after_retryable_budget [OF turn.prems(1) assms] after_conflict_budget [OF turn.prems(1) assms]
      by (auto simp: transact_next_def st1)
    from turn.IH [OF x this l] show ?thesis .
  qed (rule fin', assumption+)+
qed

text \<open>C10: \<^verbatim>\<open>Transact\<close> always returns, after at most 34 runs of the closure (10 attempts, 24 retryable re-runs). Every sleep is positive and at
  most 500 ms, and all sleeps together are at most 12.2 s. (The draws of the random source are in range.)\<close>

theorem transact_is_bounded:
  assumes "fair_draws rnd" "Transact cl env took rnd now pinKey fn w = (r, st, w')"
  shows "ts_runs st \<le> 34 \<and> length (ts_slept st) \<le> ts_runs st \<and> (\<forall>d\<in>set (ts_slept st). 0 < d \<and> d \<le> 500 * millisecond) \<and>
    sum_list (ts_slept st) \<le> 12200 * millisecond"
proof (cases "cl_notReady cl w")
  case True
  with assms(2) show ?thesis by (auto simp: Transact_def transact_constants)
next
  case False
  let ?st = "\<lparr>ts_attempt = 0, ts_conflicted = False, ts_retryableRuns = 0, ts_backoff = casBaseBackoff, ts_now = now,
           ts_step = 0, ts_runs = 0, ts_slept = []\<rparr>"
  have "transact_budget ?st" by (simp add: transact_budget_def transact_constants)
  from transact_loop_budget [OF assms(1) this, of cl env took "now + transactUnavailableTimeout" pinKey fn w r st w'] assms(2) False
  show ?thesis by (simp add: Transact_def transact_constants)
qed

theorem transact_is_bounded_witness:
  "let (r, st, w') = Transact (mem_cluster False acked (\<lambda>_. RequestLost (StatusError (Status Unavailable ''down'' [])))) (\<lambda>_ w. w) (\<lambda>_. 0)
         (\<lambda>_ _. 0) 0 ''k'' (append_x ''k'') (mem_world [(''k'', ''1'')] ())
   in ts_runs st \<le> 34 \<and> sum_list (ts_slept st) \<le> 12200 * millisecond"
proof -
  obtain r st w' where run: "Transact (mem_cluster False acked (\<lambda>_. RequestLost (StatusError (Status Unavailable ''down'' [])))) (\<lambda>_ w. w) (\<lambda>_. 0)
         (\<lambda>_ _. 0) 0 ''k'' (append_x ''k'') (mem_world [(''k'', ''1'')] ()) = (r, st, w')" by (rule prod_cases3)
  have "fair_draws (\<lambda>_ _. 0)" by (simp add: fair_draws_def)
  from transact_is_bounded [OF this run] run show ?thesis by simp
qed

section \<open>Surprises\<close>


text \<open>A closure that reads a key twice and stores what it saw.\<close>

definition read_twice :: tx_prog where
  "read_twice = TxGet ''k'' (\<lambda>a. case a of Inl e \<Rightarrow> TxReturn (Some e) | Inr a \<Rightarrow>
     TxGet ''k'' (\<lambda>b. case b of Inl e \<Rightarrow> TxReturn (Some e) | Inr b \<Rightarrow> TxPut ''j'' (a @ b) TxReturn))"

lemma read_twice_alone: "run_alone read_twice m [] = (None, ws) \<Longrightarrow> \<exists>v. ws = [WriteOp ''j'' (v @ v) False]"
  by (auto simp: read_twice_def read_alone_def buf_put_def split: option.splits)

text \<open>The read-set does not record what a closure saw when it reads a key twice. Each read goes to the cluster, but only the first is
  recorded and validated. Another client's commits change the key between the two reads and change it back before the commit: the
  closure saw two different values, its commit succeeds, and what it stored is nothing it could have stored at any one moment.\<close>

theorem reread_is_not_validated:
  "let set = (\<lambda>v. [([], [WriteOp ''k'' v False])]); cs = (\<lambda>i. if i = 2 then set ''1'' else if i = 4 then set ''0'' else []);
       (r, st, w') = Transact (mem_cluster False acked (\<lambda>_. Delivered)) (clients (mem_cfg False acked) cs) (\<lambda>_. 0) rnd 0 ''k''
         read_twice (mem_world [(''k'', ''0'')] ())
   in r = None \<and> ts_runs st = 1 \<and> mem_abs (co_b w') ''j'' = Some ''01'' \<and>
      \<not> (\<exists>m ws. run_alone read_twice m [] = (None, ws) \<and> apply_writes False ws m ''j'' = Some ''01'')"
proof -
  let ?set = "\<lambda>v. [([], [WriteOp ''k'' v False])]"
  let ?cs = "\<lambda>i. if i = 2 then ?set ''1'' else if i = 4 then ?set ''0'' else []"
  let ?cl = "mem_cluster False acked (\<lambda>_. Delivered) :: (Memory, unit, unit) cas_owner cas_cluster" and ?env = "clients (mem_cfg False acked) ?cs"
  let ?st = "\<lparr>ts_attempt = 0, ts_conflicted = False, ts_retryableRuns = 0, ts_backoff = casBaseBackoff, ts_now = 0,
           ts_step = 0, ts_runs = 0, ts_slept = []\<rparr>"
  have env: "?env i (mem_world [(''k'', v)] ()) = mem_world [(''k'', if i = 2 then ''1'' else if i = 4 then ''0'' else v)] ()" for i v
    by (simp add: clients_def mem_commit_blind)
  have commit: "cl_commitCAS ?cl ''k'' [ReadCheck ''k'' v False] [WriteOp ''j'' u False] (mem_world [(''k'', v)] ()) =
      (None, mem_world [(''k'', v), (''j'', u)] ())" for u v
    by (simp add: dispatch_eval commit_eval Let_def)
  have "\<exists>st1. ts_runs st1 = 1 \<and> transact_run ?cl ?env (\<lambda>_. 0) ''k'' read_twice ?st (mem_world [(''k'', ''0'')] ()) =
      (Inr None, st1, mem_world [(''k'', ''0''), (''j'', ''01'')] ())"
    by (simp add: transact_eval read_twice_def env commit seen_map_def payload_of_def mem_abs_def)
  then obtain st1 where st1: "ts_runs st1 = 1" "transact_run ?cl ?env (\<lambda>_. 0) ''k'' read_twice ?st (mem_world [(''k'', ''0'')] ()) =
      (Inr None, st1, mem_world [(''k'', ''0''), (''j'', ''01'')] ())" by blast
  have "transact_loop ?cl ?env (\<lambda>_. 0) rnd transactUnavailableTimeout ''k'' read_twice ?st (mem_world [(''k'', ''0'')] ()) =
      (None, st1, mem_world [(''k'', ''0''), (''j'', ''01'')] ())"
    by (rule loop_done [OF _ st1(2)]) (simp add: transact_constants)
  moreover have "apply_writes False ws m ''j'' \<noteq> Some ''01''" if "run_alone read_twice m [] = (None, ws)" for m ws
  proof -
    from read_twice_alone [OF that] obtain v where "ws = [WriteOp ''j'' (v @ v) False]" by blast
    moreover have "v @ v \<noteq> ''01''" by (cases v) (auto simp: append_eq_Cons_conv Cons_eq_append_conv)
    ultimately show ?thesis by (simp add: written_def)
  qed
  ultimately show ?thesis using st1(1) by (auto simp: Transact_def mem_abs_def Let_def)
qed

text \<open>An empty value put in a transaction is stored at \<open>R = 1\<close> and is a deletion at \<open>R > 1\<close>. \<^verbatim>\<open>Cluster.Put\<close> refuses an empty value
  for this reason; the transaction's \<^verbatim>\<open>Put\<close> accepts it, and \<^verbatim>\<open>Transact\<close> returns nil both times.\<close>

theorem empty_put_depends_on_replication:
  "let run = (\<lambda>replicated. Transact (mem_cluster replicated acked (\<lambda>_. Delivered)) (\<lambda>_ w. w) (\<lambda>_. 0) rnd 0 ''k''
         (TxPut ''k'' [] TxReturn) (mem_world [] ()));
       after = (\<lambda>replicated. seen_map replicated (mem_abs (co_b (snd (snd (run replicated))))) ''k'')
   in fst (run False) = None \<and> fst (run True) = None \<and> after False = Some [] \<and> after True = None"
proof -
  let ?st = "\<lparr>ts_attempt = 0, ts_conflicted = False, ts_retryableRuns = 0, ts_backoff = casBaseBackoff, ts_now = 0,
           ts_step = 0, ts_runs = 0, ts_slept = []\<rparr>"
  let ?cl = "\<lambda>r. mem_cluster r acked (\<lambda>_. Delivered) :: (Memory, unit, unit) cas_owner cas_cluster"
  let ?tomb = "Encode (Envelope (Stamp 1 ''node-0'') [])"
  have c: "clock_next 1 0 = (1, 1)" by (simp add: clock_next_def next_stamp_def wallNow_def)
  have run: "\<exists>st1 w1. transact_run (?cl r) (\<lambda>_ w. w) (\<lambda>_. 0) ''k'' (TxPut ''k'' [] TxReturn) ?st (mem_world [] ()) = (Inr None, st1, w1) \<and>
      me_data (co_b w1) = [(''k'', if r then ?tomb else [])]" for r
    by (cases r) (simp_all add: transact_eval dispatch_eval commit_eval mem_world_def mem_cfg_def acked_def c)
  have res: "\<exists>st1 w1. Transact (?cl r) (\<lambda>_ w. w) (\<lambda>_. 0) rnd 0 ''k'' (TxPut ''k'' [] TxReturn) (mem_world [] ()) = (None, st1, w1) \<and>
      me_data (co_b w1) = [(''k'', if r then ?tomb else [])]" for r
  proof -
    from run [of r] obtain st1 w1 where "transact_run (?cl r) (\<lambda>_ w. w) (\<lambda>_. 0) ''k'' (TxPut ''k'' [] TxReturn) ?st (mem_world [] ()) = (Inr None, st1, w1)"
      and d: "me_data (co_b w1) = [(''k'', if r then ?tomb else [])]" by blast
    from loop_done [OF _ this(1)] d show ?thesis by (simp add: Transact_def transact_constants)
  qed
  have "Decode ?tomb = Inr (Envelope (Stamp 1 ''node-0'') [])" by (simp add: Decode_Encode_envelope)
  with res [of False] res [of True] show ?thesis by (auto simp: seen_map_def payload_of_def mem_abs_def)
qed

end
