(* ===== verification/Replicated.thy ===== *)
theory Replicated
  imports Gen_State Refusals Retry_Wait Apply_Newer
begin

text \<open>
  The replicated write and read of one key: the fan-out with its ack accounting (\<^verbatim>\<open>replicate.go\<close>), the
  classification and the budgeted retry of a write (\<^verbatim>\<open>multibackend_handoff_retry.go\<close>), and the union read with its
  last-writer-wins choice, its guarded absence and its read-repair (\<^verbatim>\<open>multibackend_replicated.go\<close>).

  What a leg answers is data here: the legs report in any order, and \<open>reported\<close> is how many of them the accounting
  goroutine has seen when the caller takes its snapshot. Times are those of \<open>Retry_Wait\<close>.
\<close>

section \<open>Fan-out\<close>

text \<open>\<^verbatim>\<open>%d\<close> of an int.\<close>

definition format_int :: "int \<Rightarrow> string" where
  "format_int i = (if i < 0 then CHR ''-'' # format_uint (nat (- i)) else format_uint (nat i))"

text \<open>The state of the accounting goroutine: acks, counted failures, transients kept as evidence.\<close>

record fan_state =
  fs_acks :: int
  fs_errs :: "goerr list"
  fs_transient :: "goerr list"

definition fan_step :: "grpc_ops \<Rightarrow> fan_state \<Rightarrow> goerr option \<Rightarrow> fan_state" where
  "fan_step gs s res =
     (case res of
        None \<Rightarrow> s\<lparr>fs_acks := fs_acks s + 1\<rparr>
      | Some e \<Rightarrow>
          if isTransientReplicaErr gs e then s\<lparr>fs_transient := fs_transient s @ [e]\<rparr>
          else s\<lparr>fs_errs := fs_errs s @ [e]\<rparr>)"

definition fan_account :: "grpc_ops \<Rightarrow> goerr option list \<Rightarrow> fan_state" where
  "fan_account gs results = foldl (fan_step gs) \<lparr>fs_acks = 0, fs_errs = [], fs_transient = []\<rparr> results"

definition fan_required :: "nat \<Rightarrow> int \<Rightarrow> int" where
  "fan_required n requiredAcks =
     (let r = (if requiredAcks < 1 then 1 else requiredAcks) in if r > int n then int n else r)"

definition fan_decided :: "nat \<Rightarrow> int \<Rightarrow> fan_state \<Rightarrow> bool" where
  "fan_decided n requiredAcks s \<longleftrightarrow>
     fs_acks s \<ge> fan_required n requiredAcks \<or> int (length (fs_errs s)) > int n - fan_required n requiredAcks"

text \<open>What \<^verbatim>\<open>fanout\<close> returns when the snapshot is taken after \<open>reported\<close> reports, and when it may return: a decision
  has been reached, every leg has reported, or the caller's context is done.\<close>

definition fanout :: "grpc_ops \<Rightarrow> goerr option list \<Rightarrow> nat \<Rightarrow> fan_state" where
  "fanout gs results reported = fan_account gs (take reported results)"

definition fanout_may_return :: "grpc_ops \<Rightarrow> nat \<Rightarrow> int \<Rightarrow> goerr option list \<Rightarrow> nat \<Rightarrow> bool \<Rightarrow> bool" where
  "fanout_may_return gs n requiredAcks results reported ctxDone \<longleftrightarrow>
     n = 0 \<or> reported = n \<or> ctxDone \<or> list_ex (\<lambda>k. fan_decided n requiredAcks (fanout gs results k)) [0..<Suc reported]"

definition firstErr :: "goerr list \<Rightarrow> goerr option" where
  "firstErr errs = (case errs of [] \<Rightarrow> None | e # _ \<Rightarrow> Some e)"

section \<open>One attempt of a write\<close>

record writeAttempt =
  wa_err :: "goerr option"
  wa_retryable :: bool
  wa_noLegEvidence :: bool

text \<open>\<open>describe\<close> prints an error inside a message.\<close>

definition classifyWriteAttempt ::
    "grpc_ops \<Rightarrow> (goerr option \<Rightarrow> string) \<Rightarrow> int \<Rightarrow> int \<Rightarrow> goerr list \<Rightarrow> goerr list \<Rightarrow> writeAttempt" where
  "classifyWriteAttempt gs describe acks w errs transient =
     (if acks \<ge> w then \<lparr>wa_err = None, wa_retryable = False, wa_noLegEvidence = False\<rparr>
      else if errs = [] then
        (let msg = ''shale: write needed '' @ format_int w @ '' acks, got '' @ format_int acks @ '' (replicas mid-acquire)''
         in if legsCarryReason transient ReasonAcquiring
            then \<lparr>wa_err = Some (reasonTerminal gs Unavailable ReasonAcquiring msg), wa_retryable = True, wa_noLegEvidence = False\<rparr>
            else \<lparr>wa_err = Some (StatusError (Status Unavailable msg [])), wa_retryable = True,
                  wa_noLegEvidence = (length transient = 0)\<rparr>)
      else \<lparr>wa_err = Some (StatusError (Status Unavailable (''shale: write needed '' @ format_int w @ '' acks, got '' @
                format_int acks @ '' ('' @ format_int (int (length errs)) @ '' failures: '' @ describe (firstErr errs) @ '')'') [])),
            wa_retryable = False, wa_noLegEvidence = False\<rparr>)"

text \<open>The two-generation write of a key in an online reshard: the ack bar counts the authoritative legs; the answers
  of the supplementary ones, which are sent too, are dropped. \<open>results\<close> are the answers of the authoritative legs in the order they
  report.\<close>

definition putReshardDualWrite ::
    "grpc_ops \<Rightarrow> (goerr option \<Rightarrow> string) \<Rightarrow> WriteConsistency \<Rightarrow> reshardLegs \<Rightarrow> goerr option list \<Rightarrow> nat \<Rightarrow> writeAttempt" where
  "putReshardDualWrite gs describe wc legs results reported =
     (let authMembers = membersOf (rl_auth legs)
      in if length authMembers = 0
         then \<lparr>wa_err = Some (errUnitAcquiring gs ''Put''), wa_retryable = False, wa_noLegEvidence = False\<rparr>
         else
           (let w = writeAckBar wc (rl_stableR legs); s = fanout gs results reported
            in classifyWriteAttempt gs describe (fs_acks s) w (fs_errs s) (fs_transient s)))"

text \<open>One pass of a write (\<^verbatim>\<open>putReplicatedUnitAttempt\<close>): \<open>reshard\<close> is what \<^const>\<open>routedReplicasForReshard\<close> resolves, and \<open>results\<close>
  are the answers of the legs that count.\<close>

definition putReplicatedUnitAttempt ::
    "grpc_ops \<Rightarrow> (goerr option \<Rightarrow> string) \<Rightarrow> WriteConsistency \<Rightarrow> reshardLegs option \<Rightarrow> routedReplica list \<Rightarrow> int \<Rightarrow>
     goerr option list \<Rightarrow> nat \<Rightarrow> writeAttempt" where
  "putReplicatedUnitAttempt gs describe wc reshard routed stableR results reported =
     (case reshard of
        Some legs \<Rightarrow> putReshardDualWrite gs describe wc legs results reported
      | None \<Rightarrow>
          if length routed = 0
          then \<lparr>wa_err = Some (StatusError (Status Unavailable ''shale: no replicas available for key'' [])),
                wa_retryable = False, wa_noLegEvidence = False\<rparr>
          else
            (let w = writeAckBar wc stableR; s = fanout gs results reported
             in classifyWriteAttempt gs describe (fs_acks s) w (fs_errs s) (fs_transient s)))"

section \<open>The budgeted retry of a write\<close>

definition handoffRetryBackoffCap :: int where
  "handoffRetryBackoffCap = 500 * millisecond"

text \<open>\<open>attempt i now\<close> is the outcome of the i-th pass and how long it took; \<open>jit i\<close> its jitter factor. \<open>None\<close> is a call
  that never returns.\<close>

partial_function (option) retry_write_loop ::
    "(nat \<Rightarrow> int \<Rightarrow> writeAttempt \<times> int) \<Rightarrow> (nat \<Rightarrow> rat) \<Rightarrow> int \<Rightarrow> nat \<Rightarrow> int \<Rightarrow> retryWait \<Rightarrow> goerr option \<Rightarrow> goerr option option" where
  "retry_write_loop attempt jit deadline i now backoff lastErr =
     (if time_until deadline now \<le> 0
      then Some (case lastErr of
             Some e \<Rightarrow> Some e
           | None \<Rightarrow> Some (StatusError (Status Unavailable ''shale: write timed out waiting for replicas to finish acquiring'' [])))
      else let (res, took) = attempt i now; now = now + took
      in if wa_err res = None then Some None
         else if \<not> wa_retryable res then Some (wa_err res)
         else let lastErr = (if \<not> wa_noLegEvidence res \<or> lastErr = None then wa_err res else lastErr);
                  (r, slept, backoff) = rw_wait (jit i) now False backoff
              in if r \<noteq> RetryWaitProceed then Some lastErr
                 else retry_write_loop attempt jit deadline (Suc i) (now + slept) backoff lastErr)"

definition retryWriteThroughHandoff ::
    "bool \<Rightarrow> int \<Rightarrow> int \<Rightarrow> (nat \<Rightarrow> int \<Rightarrow> writeAttempt \<times> int) \<Rightarrow> (nat \<Rightarrow> rat) \<Rightarrow> int \<Rightarrow> goerr option option" where
  "retryWriteThroughHandoff forceCleanCut writeTimeout retryAfterMs attempt jit now =
     (if forceCleanCut then Some (wa_err (fst (attempt 0 now)))
      else
        (let deadline = now + writeTimeout; base = int64 (retryAfterMs * millisecond)
         in retry_write_loop attempt jit deadline 0 now (newBudgetRetryWait base handoffRetryBackoffCap deadline) None))"

section \<open>The union read\<close>

record collected =
  cl_member :: Node
  cl_env :: Envelope
  cl_hadValue :: bool

record replicatedReadOpts =
  ro_rc :: ReadConsistency
  ro_quorumAbsence :: bool

record read_state =
  rs_gathered :: "collected list"
  rs_nonTransientErr :: "goerr option"
  rs_firstUnreachable :: "goerr option"
  rs_sawHandoffTransient :: bool
  rs_usable :: int

definition errSubQuorumAbsence :: goerr where
  "errSubQuorumAbsence = PlainError ''shale: absence not provable at read quorum (insufficient replicas answered); retry''"

text \<open>One report of the read fan-out; \<open>bad\<close> is the error of an undecodable value.\<close>

definition read_step ::
    "grpc_ops \<Rightarrow> (envelope_error \<Rightarrow> goerr) \<Rightarrow> ReadConsistency \<Rightarrow> int \<Rightarrow> read_state \<Rightarrow> Node \<times> (goerr + bytes) \<Rightarrow> read_state" where
  "read_step gs bad rc n s res =
     (case snd res of
        Inl e \<Rightarrow>
          if isTransientReadLegErr gs e then s\<lparr>rs_sawHandoffTransient := True\<rparr>
          else if isUnreachableLegErr gs e
          then (if rs_firstUnreachable s = None then s\<lparr>rs_firstUnreachable := Some e\<rparr> else s)
          else if errors_Is e (BackendErr ErrNotFound)
          then (if rs_usable s < n
                then s\<lparr>rs_gathered := rs_gathered s @ [\<lparr>cl_member = fst res, cl_env = Envelope zero_Stamp [], cl_hadValue = False\<rparr>],
                       rs_usable := rs_usable s + 1\<rparr>
                else s)
          else (if rs_nonTransientErr s = None then s\<lparr>rs_nonTransientErr := Some e\<rparr> else s)
      | Inr v \<Rightarrow>
          (case Decode v of
             Inl e \<Rightarrow> (if rs_nonTransientErr s = None then s\<lparr>rs_nonTransientErr := Some (bad e)\<rparr> else s)
           | Inr env \<Rightarrow>
               let g = \<lparr>cl_member = fst res, cl_env = env, cl_hadValue = True\<rparr>
               in if rs_usable s < n then s\<lparr>rs_gathered := rs_gathered s @ [g], rs_usable := rs_usable s + 1\<rparr>
                  else if rc \<noteq> ReadNearest then s\<lparr>rs_gathered := rs_gathered s @ [g]\<rparr>
                  else s))"

definition read_collect ::
    "grpc_ops \<Rightarrow> (envelope_error \<Rightarrow> goerr) \<Rightarrow> ReadConsistency \<Rightarrow> int \<Rightarrow> (Node \<times> (goerr + bytes)) list \<Rightarrow> read_state" where
  "read_collect gs bad rc n results =
     foldl (read_step gs bad rc n) \<lparr>rs_gathered = [], rs_nonTransientErr = None, rs_firstUnreachable = None,
       rs_sawHandoffTransient = False, rs_usable = 0\<rparr> results"

definition lww_winner :: "collected list \<Rightarrow> collected" where
  "lww_winner gathered =
     foldl (\<lambda>winner g. if cl_hadValue g \<and> (\<not> cl_hadValue winner \<or> Greater (ev_Stamp (cl_env g)) (ev_Stamp (cl_env winner)))
                       then g else winner) (hd gathered) (tl gathered)"

text \<open>The legs that read-repair pushes the winner to.\<close>

definition read_laggers :: "Envelope \<Rightarrow> collected list \<Rightarrow> Node list" where
  "read_laggers winnerEnv gathered =
     map cl_member (filter (\<lambda>g. \<not> cl_hadValue g \<or> Greater (ev_Stamp winnerEnv) (ev_Stamp (cl_env g))) gathered)"

text \<open>\<^verbatim>\<open>scheduleReadRepairUnit\<close>: one position-addressed write of the winner per lagger that is still routed.\<close>

definition scheduleReadRepairUnit ::
    "bool \<Rightarrow> routedReplica list \<Rightarrow> Envelope \<Rightarrow> collected list \<Rightarrow> (Node \<times> ReplicaUnit \<times> bytes) list" where
  "scheduleReadRepairUnit closing routed winnerEnv gathered =
     (if closing then []
      else
        (let ruByMember = fold (\<lambda>rr m. m(node_ID (rr_member rr) \<mapsto> rr_ru rr)) routed Map.empty
         in List.map_filter (\<lambda>m. map_option (\<lambda>ru. (m, ru, Encode winnerEnv)) (ruByMember (node_ID m)))
              (read_laggers winnerEnv gathered)))"

text \<open>One sweep (\<^verbatim>\<open>getReplicatedUnitOnceOpts\<close>): the answer, the stamp the node's clock observes, and the repairs it schedules.\<close>

definition getReplicatedUnitOnceOpts ::
    "grpc_ops \<Rightarrow> (envelope_error \<Rightarrow> goerr) \<Rightarrow> replicatedReadOpts \<Rightarrow> bool \<Rightarrow> routedReplica list \<Rightarrow> int \<Rightarrow> (Node \<times> (goerr + bytes)) list \<Rightarrow>
     (goerr + bytes) \<times> u64 option \<times> (Node \<times> ReplicaUnit \<times> bytes) list" where
  "getReplicatedUnitOnceOpts gs bad opts closing routed stableR results =
     (if length routed = 0 then (Inl (StatusError (Status Unavailable ''shale: no replicas available for key'' [])), None, [])
      else
        (let rc = ro_rc opts;
             n = min (requiredReadReplicas rc stableR) (int (length routed));
             s = read_collect gs bad rc n results
         in if rs_gathered s = [] then
              (case rs_nonTransientErr s of
                 Some e \<Rightarrow> (Inl e, None, [])
               | None \<Rightarrow>
                   if rs_sawHandoffTransient s then (Inl (errUnitAcquiring gs ''Get''), None, [])
                   else case rs_firstUnreachable s of
                       Some e \<Rightarrow> (Inl (UnreachableOnlyError e), None, [])
                     | None \<Rightarrow>
                         if ro_quorumAbsence opts then (Inl errSubQuorumAbsence, None, [])
                         else (Inl (BackendErr ErrNotFound), None, []))
            else
              (let winner = lww_winner (rs_gathered s);
                   seen = Some (sp_TimestampNanos (ev_Stamp (cl_env winner)));
                   repairs = (if rc \<noteq> ReadNearest \<and> cl_hadValue winner
                              then scheduleReadRepairUnit closing routed (cl_env winner) (rs_gathered s) else [])
               in if \<not> cl_hadValue winner then
                    (if ro_quorumAbsence opts \<and> rs_usable s < n then (Inl errSubQuorumAbsence, seen, repairs)
                     else (Inl (BackendErr ErrNotFound), seen, repairs))
                  else if length (ev_Payload (cl_env winner)) = 0 then (Inl (BackendErr ErrNotFound), seen, repairs)
                  else (Inr (ev_Payload (cl_env winner)), seen, repairs))))"

section \<open>The budgeted retry of a read\<close>

definition unreachableOnlyGrace :: int where
  "unreachableOnlyGrace = 2000 * millisecond"

text \<open>The switch of the loop: an error to return, or the run start and the evidence to go on with.\<close>

definition read_verdict :: "grpc_ops \<Rightarrow> int \<Rightarrow> int option \<Rightarrow> bool \<Rightarrow> goerr \<Rightarrow> goerr + int option \<times> bool" where
  "read_verdict gs now unreachableRunStart sawAcquiring err =
     (if isAcquiringErr err then Inr (None, True)
      else if isUnreachableOnly err
      then (let start = (case unreachableRunStart of None \<Rightarrow> now | Some t \<Rightarrow> t)
            in if now - start \<ge> unreachableOnlyGrace then Inl (unwrapUnreachableOnly err)
               else Inr (Some start, sawAcquiring))
      else Inl (attributeToAcquiring gs err sawAcquiring))"

partial_function (option) retry_read_loop ::
    "grpc_ops \<Rightarrow> (nat \<Rightarrow> int \<Rightarrow> (goerr + 'v) \<times> int) \<Rightarrow> (nat \<Rightarrow> rat) \<Rightarrow> nat \<Rightarrow> int \<Rightarrow> retryWait \<Rightarrow> int option \<Rightarrow> bool \<Rightarrow> (goerr + 'v) option" where
  "retry_read_loop gs attempt jit i now backoff unreachableRunStart sawAcquiring =
     (let (res, took) = attempt i now; now = now + took
      in case res of
           Inr v \<Rightarrow> Some (Inr v)
         | Inl err \<Rightarrow>
             (case read_verdict gs now unreachableRunStart sawAcquiring err of
                Inl e \<Rightarrow> Some (Inl e)
              | Inr (start, saw) \<Rightarrow>
                  (let (r, slept, backoff) = rw_wait (jit i) now False backoff
                   in if r \<noteq> RetryWaitProceed then Some (Inl (attributeToAcquiring gs (unwrapUnreachableOnly err) saw))
                      else retry_read_loop gs attempt jit (Suc i) (now + slept) backoff start saw)))"

definition retryReadThroughHandoff ::
    "grpc_ops \<Rightarrow> bool \<Rightarrow> int \<Rightarrow> int \<Rightarrow> (nat \<Rightarrow> int \<Rightarrow> (goerr + 'v) \<times> int) \<Rightarrow> (nat \<Rightarrow> rat) \<Rightarrow> int \<Rightarrow> (goerr + 'v) option" where
  "retryReadThroughHandoff gs forceCleanCut readTimeout retryAfterMs attempt jit now =
     (if forceCleanCut
      then Some (case fst (attempt 0 now) of Inl err \<Rightarrow> Inl (unwrapUnreachableOnly err) | Inr v \<Rightarrow> Inr v)
      else
        (let deadline = now + readTimeout; base = int64 (retryAfterMs * millisecond)
         in retry_read_loop gs attempt jit 0 now (newBudgetRetryWait base handoffRetryBackoffCap deadline) None False))"

text \<open>The read of a caller that destroys data on a miss (\<^verbatim>\<open>guardGet\<close>): at least a read quorum, and an absence that is proved.
  \<open>plainGet\<close> is \<^verbatim>\<open>c.Get(key)\<close>, \<open>sweep opts i now\<close> the i-th union sweep.\<close>

definition guardGet ::
    "grpc_ops \<Rightarrow> bool \<Rightarrow> bool \<Rightarrow> (goerr + bytes) option \<Rightarrow> ReadConsistency \<Rightarrow> bool \<Rightarrow> int \<Rightarrow> int \<Rightarrow>
     (replicatedReadOpts \<Rightarrow> nat \<Rightarrow> int \<Rightarrow> (goerr + bytes) \<times> int) \<Rightarrow> (nat \<Rightarrow> rat) \<Rightarrow> int \<Rightarrow> (goerr + bytes) option" where
  "guardGet gs multiReplicated notReady plainGet cfgRC forceCleanCut readTimeout retryAfterMs sweep jit now =
     (if \<not> multiReplicated then plainGet
      else if notReady then Some (Inl (BackendErr ErrClosed))
      else
        (let rc = (if cfgRC \<noteq> ReadAll then ReadQuorum else cfgRC)
         in retryReadThroughHandoff gs forceCleanCut readTimeout retryAfterMs
              (sweep \<lparr>ro_rc = rc, ro_quorumAbsence = True\<rparr>) jit now))"

section \<open>Progress of the budget\<close>

text \<open>A schedule of the handoff retries in the middle of its run.\<close>

definition budgeted :: "int \<Rightarrow> retryWait \<Rightarrow> bool" where
  "budgeted deadline w \<longleftrightarrow> rw_deadline w = Some deadline \<and> \<not> rw_capTerminates w \<and> rw_jitter w \<and>
     2 \<le> rw_next w \<and> rw_next w < 2 ^ 62 \<and> 2 \<le> rw_max w \<and> rw_max w < 2 ^ 62"

definition good_jitter :: "(nat \<Rightarrow> rat) \<Rightarrow> bool" where
  "good_jitter jit \<longleftrightarrow> (\<forall>i. 0 \<le> jit i \<and> jit i < 1)"

lemma budgeted_advance: "budgeted d w \<Longrightarrow> budgeted d (rw_advance w)"
  by (auto simp: budgeted_def advance_next int64_id)

lemma budgeted_new: "2 \<le> base \<Longrightarrow> base < 2 ^ 62 \<Longrightarrow> budgeted d (newBudgetRetryWait base handoffRetryBackoffCap d)"
  by (simp add: budgeted_def newBudgetRetryWait_def handoffRetryBackoffCap_def millisecond_def)

lemma budget_wait:
  assumes "budgeted d w" "good_jitter jit" "rw_wait (jit i) now False w = (r, slept, w')"
  shows "r = RetryWaitProceed \<and> now < d \<and> 1 \<le> slept \<and> now + slept \<le> d \<and> budgeted d w' \<or> r = RetryWaitExhausted \<and> d \<le> now"
proof -
  have u: "0 \<le> jit i" "jit i < 1" using assms(2) by (auto simp: good_jitter_def)
  have ex: "rw_exhausted now w \<longleftrightarrow> d \<le> now"
    using assms(1) by (simp add: budgeted_def rw_exhausted_def time_until_def max_def min_def)
  have "1 \<le> rw_sleep (jit i) now w \<and> now + rw_sleep (jit i) now w \<le> d" if "now < d"
  proof -
    have t: "1 \<le> time_until d now" "now + time_until d now \<le> d" using that by (simp_all add: time_until_def max_def min_def)
    have "1 \<le> rw_next w div 2" using assms(1) by (auto simp: budgeted_def)
    with jitter_bounds [OF u, of "rw_next w"] have j: "1 \<le> jitteredBackoff (jit i) (rw_next w)" by linarith
    have "rw_sleep (jit i) now w = min (jitteredBackoff (jit i) (rw_next w)) (time_until d now)"
      using assms(1) by (simp add: budgeted_def rw_sleep_def Let_def min_def)
    with t j show ?thesis by (auto simp: min_def split: if_splits)
  qed
  with assms(1,3) ex budgeted_advance [of d w] show ?thesis by (auto simp: rw_wait_def split: if_splits)
qed

section \<open>The retry of a write returns, and what\<close>

text \<open>The error surfaced for a list of retryable attempts: the last one that heard a leg, or the first of all.\<close>

definition surfaced :: "goerr option \<Rightarrow> writeAttempt list \<Rightarrow> goerr option" where
  "surfaced lst as = foldl (\<lambda>lastErr a. if \<not> wa_noLegEvidence a \<or> lastErr = None then wa_err a else lastErr) lst as"

definition write_timeout_err :: goerr where
  "write_timeout_err = StatusError (Status Unavailable ''shale: write timed out waiting for replicas to finish acquiring'' [])"

text \<open>The outcome of a retried write from the attempts it made.\<close>

definition write_outcome :: "goerr option \<Rightarrow> writeAttempt list \<Rightarrow> goerr option" where
  "write_outcome lst as =
     (if as = [] then Some (case lst of Some e \<Rightarrow> e | None \<Rightarrow> write_timeout_err)
      else if wa_err (last as) = None \<or> \<not> wa_retryable (last as) then wa_err (last as)
      else surfaced lst as)"

definition retry_trace :: "(nat \<Rightarrow> int \<Rightarrow> writeAttempt \<times> int) \<Rightarrow> int \<Rightarrow> nat \<Rightarrow> writeAttempt list \<Rightarrow> bool" where
  "retry_trace attempt deadline i as \<longleftrightarrow>
     (\<forall>j<length as. \<exists>t<deadline. as ! j = fst (attempt (i + j) t)) \<and>
     (\<forall>a\<in>set (butlast as). wa_err a \<noteq> None \<and> wa_retryable a)"

lemma retry_trace_Nil [simp]: "retry_trace attempt deadline i []"
  by (simp add: retry_trace_def)

lemma retry_trace_Cons:
  assumes "fst (attempt i t) = a" "t < deadline" "retry_trace attempt deadline (Suc i) as" "as \<noteq> [] \<Longrightarrow> wa_err a \<noteq> None \<and> wa_retryable a"
  shows "retry_trace attempt deadline i (a # as)"
  unfolding retry_trace_def
proof (intro conjI allI impI ballI)
  fix j assume "j < length (a # as)"
  with assms(1-3) show "\<exists>t<deadline. (a # as) ! j = fst (attempt (i + j) t)"
    by (cases j) (auto simp: retry_trace_def)
next
  fix b assume "b \<in> set (butlast (a # as))"
  with assms(3,4) show "wa_err b \<noteq> None" "wa_retryable b" by (auto simp: retry_trace_def split: if_splits)
qed

lemma write_outcome_Cons:
  "as \<noteq> [] \<or> (wa_err a \<noteq> None \<and> wa_retryable a) \<Longrightarrow> wa_err a \<noteq> None \<Longrightarrow>
   write_outcome (if \<not> wa_noLegEvidence a \<or> lst = None then wa_err a else lst) as = write_outcome lst (a # as)"
  by (cases as) (auto simp: write_outcome_def surfaced_def)

lemma retry_write_loop_spec:
  assumes "good_jitter jit" "\<And>i t. 0 \<le> snd (attempt i t)"
  shows "budgeted deadline w \<Longrightarrow>
    \<exists>as. retry_write_loop attempt jit deadline i now w lst = Some (write_outcome lst as) \<and> retry_trace attempt deadline i as \<and>
      (now < deadline \<longrightarrow> as \<noteq> [])"
proof (induction "nat (deadline - now)" arbitrary: i now w lst rule: less_induct)
  case less
  note step = retry_write_loop.simps [of attempt jit deadline i now w lst]
  show ?case
  proof (cases "now < deadline")
    case False
    then have "time_until deadline now \<le> 0" by (simp add: time_until_def max_def min_def)
    with False show ?thesis
      unfolding step by (intro exI [of _ "[]"]) (auto simp: write_outcome_def write_timeout_err_def split: option.split)
  next
    case True
    then have p: "\<not> time_until deadline now \<le> 0" by (simp add: time_until_def max_def min_def)
    obtain res took where a: "attempt i now = (res, took)" by fastforce
    have took: "0 \<le> took" using assms(2) [of i now] a by simp
    let ?last = "if \<not> wa_noLegEvidence res \<or> lst = None then wa_err res else lst"
    obtain r slept w' where rw: "rw_wait (jit i) (now + took) False w = (r, slept, w')" by (metis prod_cases3)
    note bw = budget_wait [OF less.prems assms(1) rw]
    have l: "retry_write_loop attempt jit deadline i now w lst =
       (if wa_err res = None then Some None else if \<not> wa_retryable res then Some (wa_err res)
        else if r \<noteq> RetryWaitProceed then Some ?last
        else retry_write_loop attempt jit deadline (Suc i) (now + took + slept) w' ?last)"
      unfolding step using p by (simp add: a rw Let_def)
    have one: "retry_trace attempt deadline i [res]" using a True by (auto simp: retry_trace_def intro!: exI [of _ now])
    show ?thesis
    proof (cases "wa_err res = None \<or> \<not> wa_retryable res \<or> r \<noteq> RetryWaitProceed")
      case True
      with one show ?thesis
        unfolding l by (intro exI [of _ "[res]"]) (auto simp: write_outcome_def surfaced_def)
    next
      case False
      with bw have b: "1 \<le> slept" "budgeted deadline w'" by auto
      have "nat (deadline - (now + took + slept)) < nat (deadline - now)" using b took True by simp
      from less.hyps [OF this b(2), of "Suc i" ?last] obtain as where
        as: "retry_write_loop attempt jit deadline (Suc i) (now + took + slept) w' ?last = Some (write_outcome ?last as)"
          "retry_trace attempt deadline (Suc i) as" by blast
      have "retry_trace attempt deadline i (res # as)"
        by (rule retry_trace_Cons [OF _ True as(2)]) (use a False in auto)
      with False as(1) l write_outcome_Cons [of as res lst] show ?thesis by (intro exI [of _ "res # as"]) auto
    qed
  qed
qed

text \<open>What one attempt reports: nothing when the bar is met; a retryable error, carrying the acquiring reason exactly when
  a transient leg presented it, when no leg counted as a failure; a hard error otherwise.\<close>

lemma classify_cases:
  assumes "grpc_status gs" "classifyWriteAttempt gs describe acks w errs transient = a"
  shows "wa_err a = None \<longleftrightarrow> w \<le> acks"
    and "wa_err a = Some e \<Longrightarrow> errors_Is e ErrAcquiring \<longleftrightarrow> errs = [] \<and> legsCarryReason transient ReasonAcquiring"
    and "wa_err a \<noteq> None \<Longrightarrow> wa_retryable a \<longleftrightarrow> errs = []"
    and "wa_noLegEvidence a \<Longrightarrow> transient = []"
  using assms(2) grpc_status.terminal_roundtrip [OF assms(1)]
  by (auto simp: classifyWriteAttempt_def Let_def legsCarryReason_def split: if_splits option.splits)

text \<open>One pass over the routed positions as the retry loop sees it.\<close>

record write_pass =
  wp_reshard :: "reshardLegs option"
  wp_routed :: "routedReplica list"
  wp_stableR :: int
  wp_results :: "goerr option list"
  wp_reported :: nat
  wp_took :: int

definition pass_state :: "grpc_ops \<Rightarrow> write_pass \<Rightarrow> fan_state" where
  "pass_state gs p = fanout gs (wp_results p) (wp_reported p)"

definition pass_legs :: "write_pass \<Rightarrow> routedReplica list" where
  "pass_legs p = (case wp_reshard p of Some l \<Rightarrow> rl_auth l | None \<Rightarrow> wp_routed p)"

definition pass_R :: "write_pass \<Rightarrow> int" where
  "pass_R p = (case wp_reshard p of Some l \<Rightarrow> rl_stableR l | None \<Rightarrow> wp_stableR p)"

definition pass_attempt :: "grpc_ops \<Rightarrow> (goerr option \<Rightarrow> string) \<Rightarrow> WriteConsistency \<Rightarrow> write_pass \<Rightarrow> writeAttempt \<times> int" where
  "pass_attempt gs describe wc p =
     (putReplicatedUnitAttempt gs describe wc (wp_reshard p) (wp_routed p) (wp_stableR p) (wp_results p) (wp_reported p), wp_took p)"

definition pass_acked :: "grpc_ops \<Rightarrow> WriteConsistency \<Rightarrow> write_pass \<Rightarrow> bool" where
  "pass_acked gs wc p \<longleftrightarrow> pass_legs p \<noteq> [] \<and> writeAckBar wc (pass_R p) \<le> fs_acks (pass_state gs p)"

definition pass_acquiring :: "grpc_ops \<Rightarrow> write_pass \<Rightarrow> bool" where
  "pass_acquiring gs p \<longleftrightarrow> pass_legs p \<noteq> [] \<and> fs_errs (pass_state gs p) = [] \<and> legsCarryReason (fs_transient (pass_state gs p)) ReasonAcquiring"

lemma pass_err:
  assumes "grpc_status gs" "a = fst (pass_attempt gs describe wc p)" "\<forall>l. wp_reshard p = Some l \<longrightarrow> rl_auth l \<noteq> []"
  shows "wa_err a = None \<longleftrightarrow> pass_acked gs wc p"
    and "wa_err a = Some e \<Longrightarrow> errors_Is e ErrAcquiring \<longleftrightarrow> pass_acquiring gs p"
    and "wa_err a \<noteq> None \<Longrightarrow> pass_acquiring gs p \<Longrightarrow> wa_retryable a"
    and "pass_acquiring gs p \<Longrightarrow> \<not> wa_noLegEvidence a"
proof -
  let ?s = "pass_state gs p" and ?w = "writeAckBar wc (pass_R p)"
  have a: "a = (if pass_legs p = [] then \<lparr>wa_err = Some (StatusError (Status Unavailable ''shale: no replicas available for key'' [])),
      wa_retryable = False, wa_noLegEvidence = False\<rparr> else classifyWriteAttempt gs describe (fs_acks ?s) ?w (fs_errs ?s) (fs_transient ?s))"
    using assms(2,3) by (auto simp: pass_attempt_def putReplicatedUnitAttempt_def putReshardDualWrite_def pass_state_def
        pass_legs_def pass_R_def membersOf_def Let_def split: option.splits)
  note c = classify_cases [OF assms(1) refl, of describe "fs_acks ?s" ?w "fs_errs ?s" "fs_transient ?s"]
  show "wa_err a = None \<longleftrightarrow> pass_acked gs wc p" using a c(1) by (auto simp: pass_acked_def)
  show "errors_Is e ErrAcquiring \<longleftrightarrow> pass_acquiring gs p" if "wa_err a = Some e"
    using that a c(2) [of e] by (auto simp: pass_acquiring_def split: if_splits)
  show "wa_retryable a" if "wa_err a \<noteq> None" "pass_acquiring gs p"
    using that a c(3) by (auto simp: pass_acquiring_def)
  show "\<not> wa_noLegEvidence a" if "pass_acquiring gs p"
    using that a c(4) by (auto simp: pass_acquiring_def legsCarryReason_def split: option.splits)
qed

lemma surfaced_Cons: "surfaced lst (a # as) = surfaced (if \<not> wa_noLegEvidence a \<or> lst = None then wa_err a else lst) as"
  by (simp add: surfaced_def)

lemma surfaced_member: "surfaced lst as = lst \<and> (as = [] \<or> lst \<noteq> None) \<or> (\<exists>a\<in>set as. wa_err a = surfaced lst as)"
proof (induction as arbitrary: lst)
  case (Cons a as)
  let ?l = "if \<not> wa_noLegEvidence a \<or> lst = None then wa_err a else lst"
  from Cons.IH [of ?l] show ?case by (auto simp: surfaced_Cons split: if_splits)
qed (simp add: surfaced_def)

lemma surfaced_all: "as \<noteq> [] \<Longrightarrow> \<forall>a\<in>set as. \<not> wa_noLegEvidence a \<Longrightarrow> surfaced lst as = wa_err (last as)"
  by (induction as arbitrary: lst) (auto simp: surfaced_def)


text \<open>Two replicas that stay mid-acquire, one here and one behind the wire.\<close>

definition demo_pass :: write_pass where
  "demo_pass = \<lparr>wp_reshard = None, wp_routed = withUnit (GenUnit 0 5) [Node ''a'' ''1'', Node ''b'' ''2''], wp_stableR = 2,
     wp_results = [Some (errUnitAcquiring ref_grpc ''Put''),
       Some (decodeRefusalReason ref_grpc (gs_wire ref_grpc (the (recodeForwardedReplicaErr ref_grpc (Some (errUnitAcquiring ref_grpc ''Put''))))))],
     wp_reported = 2, wp_took = millisecond\<rparr>"

lemma demo_pass_state:
  "fs_acks (pass_state ref_grpc demo_pass) = 0" "pass_acquiring ref_grpc demo_pass"
proof -
  let ?e = "errUnitAcquiring ref_grpc ''Put''"
  let ?f = "decodeRefusalReason ref_grpc (gs_wire ref_grpc (the (recodeForwardedReplicaErr ref_grpc (Some ?e))))"
  have e: "isAcquiringErr ?e" "errors_Is ?e ErrAcquiring" "isTransientReplicaErr ref_grpc ?e"
    unfolding errUnitAcquiring_def by (rule reference.local_leg)+
  have f: "isTransientReplicaErr ref_grpc ?f"
    using reference.forwarded_leg [OF e(1)] e(1) by (auto simp: recodeForwardedReplicaErr_def Let_def)
  have s: "pass_state ref_grpc demo_pass = \<lparr>fs_acks = 0, fs_errs = [], fs_transient = [?e, ?f]\<rparr>"
    using e(3) f by (simp add: pass_state_def demo_pass_def fanout_def fan_account_def fan_step_def numeral_2_eq_2)
  show "fs_acks (pass_state ref_grpc demo_pass) = 0" by (simp add: s)
  show "pass_acquiring ref_grpc demo_pass"
    unfolding pass_acquiring_def s using e(2) by (simp add: demo_pass_def pass_legs_def withUnit_def legsCarryReason_def reasonSentinels_def)
qed


section \<open>Quorums\<close>

text \<open>A leg answers for the store of its position: an error, or what is stored.\<close>

definition leg_truthful :: "bytes option \<Rightarrow> goerr + bytes \<Rightarrow> bool" where
  "leg_truthful stored r \<longleftrightarrow>
     (case r of Inr v \<Rightarrow> stored = Some v | Inl e \<Rightarrow> errors_Is e (BackendErr ErrNotFound) \<longrightarrow> stored = None)"

lemma fan_account_acks:
  "fs_acks (fan_account gs results) = int (length (filter (\<lambda>r. r = None) results))"
proof -
  have "fs_acks (foldl (fan_step gs) s results) = fs_acks s + int (length (filter (\<lambda>r. r = None) results))" for s
    by (induction results arbitrary: s) (auto simp: fan_step_def split: option.split)
  then show ?thesis by (simp add: fan_account_def)
qed

text \<open>A leg that answered: nothing stored, or a value that decodes.\<close>

definition leg_usable :: "grpc_ops \<Rightarrow> goerr + bytes \<Rightarrow> bool" where
  "leg_usable gs r \<longleftrightarrow>
     (case r of
        Inl e \<Rightarrow> \<not> isTransientReadLegErr gs e \<and> \<not> isUnreachableLegErr gs e \<and> errors_Is e (BackendErr ErrNotFound)
      | Inr v \<Rightarrow> \<exists>env. Decode v = Inr env)"

definition gathered_leg :: "goerr + bytes \<Rightarrow> collected \<Rightarrow> bool" where
  "gathered_leg r g \<longleftrightarrow>
     (case r of Inl e \<Rightarrow> \<not> cl_hadValue g | Inr v \<Rightarrow> cl_hadValue g \<and> Decode v = Inr (cl_env g))"

text \<open>What the sweep has gathered after some legs: every gathered entry is the answer of one, and the counted ones,
  as many as it counts, are all gathered.\<close>

definition read_inv :: "grpc_ops \<Rightarrow> int \<Rightarrow> (nat \<Rightarrow> goerr + bytes) \<Rightarrow> nat list \<Rightarrow> read_state \<Rightarrow> bool" where
  "read_inv gs n rleg ord s \<longleftrightarrow>
     rs_usable s = min n (int (length (filter (leg_usable gs \<circ> rleg) ord))) \<and>
     (\<forall>g\<in>set (rs_gathered s). \<exists>i\<in>set ord. leg_usable gs (rleg i) \<and> gathered_leg (rleg i) g) \<and>
     (\<exists>U\<subseteq>set ord. int (card U) = rs_usable s \<and>
        (\<forall>i\<in>U. leg_usable gs (rleg i) \<and> (\<exists>g\<in>set (rs_gathered s). gathered_leg (rleg i) g)))"

lemma read_step_unusable:
  "\<not> leg_usable gs (snd res) \<Longrightarrow>
     rs_gathered (read_step gs bad rc n s res) = rs_gathered s \<and> rs_usable (read_step gs bad rc n s res) = rs_usable s"
  by (auto simp: leg_usable_def read_step_def Let_def split: sum.splits)

lemma read_step_usable:
  assumes "leg_usable gs (snd res)"
  shows "if rs_usable s < n
    then rs_usable (read_step gs bad rc n s res) = rs_usable s + 1 \<and>
      (\<exists>g. gathered_leg (snd res) g \<and> rs_gathered (read_step gs bad rc n s res) = rs_gathered s @ [g])
    else rs_usable (read_step gs bad rc n s res) = rs_usable s \<and>
      (\<exists>gs'. (\<forall>g\<in>set gs'. gathered_leg (snd res) g) \<and> rs_gathered (read_step gs bad rc n s res) = rs_gathered s @ gs')"
proof (cases "snd res")
  case (Inl e)
  then show ?thesis using assms by (auto simp: leg_usable_def read_step_def gathered_leg_def)
next
  case (Inr v)
  then obtain env where "Decode v = Inr env" using assms by (auto simp: leg_usable_def)
  with Inr show ?thesis by (cases rc) (auto simp: read_step_def gathered_leg_def Let_def)
qed

lemma read_inv_snoc:
  assumes "read_inv gs n rleg ord s" "i \<notin> set ord"
  shows "read_inv gs n rleg (ord @ [i]) (read_step gs bad rc n s (m, rleg i))"
proof (cases "leg_usable gs (rleg i)")
  case False
  with read_step_unusable [of gs "(m, rleg i)" bad rc n s] assms(1) show ?thesis
    by (fastforce simp: read_inv_def)
next
  case True
  let ?s' = "read_step gs bad rc n s (m, rleg i)"
  note st = read_step_usable [of gs "(m, rleg i)" s n bad rc, simplified, OF True]
  obtain U where U: "U \<subseteq> set ord" "int (card U) = rs_usable s"
    "\<forall>i\<in>U. leg_usable gs (rleg i) \<and> (\<exists>g\<in>set (rs_gathered s). gathered_leg (rleg i) g)"
    using assms(1) by (auto simp: read_inv_def)
  obtain gs' where g: "rs_gathered ?s' = rs_gathered s @ gs'" "\<forall>g\<in>set gs'. gathered_leg (rleg i) g"
    "rs_usable s < n \<Longrightarrow> gs' \<noteq> []"
    using st by (cases "rs_usable s < n") auto
  have u: "rs_usable ?s' = (if rs_usable s < n then rs_usable s + 1 else rs_usable s)" using st by (auto split: if_splits)
  define U' where "U' = (if rs_usable s < n then insert i U else U)"
  have "int (card U') = rs_usable ?s'"
    using U(1,2) assms(2) u finite_subset [OF U(1)] by (auto simp: U'_def card_insert_if subset_iff)
  moreover have "U' \<subseteq> set (ord @ [i])" using U(1) by (auto simp: U'_def)
  moreover have "leg_usable gs (rleg j) \<and> (\<exists>g\<in>set (rs_gathered ?s'). gathered_leg (rleg j) g)" if "j \<in> U'" for j
    using that U(3) g True by (fastforce simp: U'_def neq_Nil_conv split: if_splits)
  moreover have "\<forall>g\<in>set (rs_gathered ?s'). \<exists>j\<in>set (ord @ [i]). leg_usable gs (rleg j) \<and> gathered_leg (rleg j) g"
    using assms(1) g True by (auto simp: read_inv_def)
  moreover have "rs_usable ?s' = min n (int (length (filter (leg_usable gs \<circ> rleg) (ord @ [i]))))"
    using assms(1) u True by (auto simp: read_inv_def)
  ultimately show ?thesis unfolding read_inv_def by blast
qed

lemma read_collect_inv:
  assumes "distinct ord" "0 \<le> n"
  shows "read_inv gs n rleg ord (read_collect gs bad rc n (map (\<lambda>i. (member i, rleg i)) ord))"
  using assms(1)
proof (induction ord rule: rev_induct)
  case Nil
  then show ?case using assms(2) by (simp add: read_inv_def read_collect_def)
next
  case (snoc i ord)
  then show ?case using read_inv_snoc by (simp add: read_collect_def)
qed

definition lww_pick :: "collected \<Rightarrow> collected \<Rightarrow> collected" where
  "lww_pick winner g =
     (if cl_hadValue g \<and> (\<not> cl_hadValue winner \<or> Greater (ev_Stamp (cl_env g)) (ev_Stamp (cl_env winner))) then g else winner)"

lemma lww_pick_max:
  "lww_pick w g \<in> {w, g}"
  "x \<in> {w, g} \<Longrightarrow> cl_hadValue x \<Longrightarrow> cl_hadValue (lww_pick w g) \<and> ev_Stamp (cl_env x) \<le> ev_Stamp (cl_env (lww_pick w g))"
  by (auto simp: lww_pick_def Greater_less not_less less_imp_le)

lemma lww_winner_fold:
  "foldl lww_pick w gs \<in> insert w (set gs)"
  "x \<in> insert w (set gs) \<Longrightarrow> cl_hadValue x \<Longrightarrow>
     cl_hadValue (foldl lww_pick w gs) \<and> ev_Stamp (cl_env x) \<le> ev_Stamp (cl_env (foldl lww_pick w gs))"
proof (induction gs arbitrary: w x)
  case (Cons g gs)
  { case 1 show ?case using Cons.IH(1) [of "lww_pick w g"] lww_pick_max(1) [of w g] by auto }
  { case 2
    show ?case
    proof (cases "x \<in> set gs")
      case True
      then show ?thesis using Cons.IH(2) [of x "lww_pick w g"] 2 by simp
    next
      case False
      then have "x \<in> {w, g}" using 2 by auto
      with lww_pick_max(2) [of x w g] 2 Cons.IH(2) [of "lww_pick w g" "lww_pick w g"]
      show ?thesis by (metis foldl_Cons insertI1 order_trans)
    qed }
qed simp_all

lemma lww_winner_eq: "lww_winner gathered = foldl lww_pick (hd gathered) (tl gathered)"
  unfolding lww_winner_def by (rule arg_cong [where f = "\<lambda>f. foldl f _ _"]) (simp add: fun_eq_iff lww_pick_def)

lemma lww_winner_spec:
  assumes "gathered \<noteq> []"
  shows "lww_winner gathered \<in> set gathered"
    and "g \<in> set gathered \<Longrightarrow> cl_hadValue g \<Longrightarrow>
      cl_hadValue (lww_winner gathered) \<and> ev_Stamp (cl_env g) \<le> ev_Stamp (cl_env (lww_winner gathered))"
  using lww_winner_fold(1) [of "hd gathered" "tl gathered"] lww_winner_fold(2) [of g "hd gathered" "tl gathered"] assms
  by (cases gathered; simp add: lww_winner_eq)+

text \<open>Positions that acked a write and positions a read counts meet when the two quorums add up to more than the
  positions there are.\<close>

lemma quorums_meet:
  assumes "distinct wo" "set wo \<subseteq> {..<R}" "U \<subseteq> {..<R}" "distinct ro" "U \<subseteq> set ro"
    and "int R < int (length (filter (\<lambda>r. r = None) (take k (map wleg wo)))) + int (card U)"
  obtains i where "i \<in> U" "i < R" "wleg i = None"
proof -
  let ?A = "set (filter (\<lambda>i. wleg i = None) (take k wo))"
  have "length (filter (\<lambda>r. r = None) (take k (map wleg wo))) = card ?A"
    using assms(1) by (subst distinct_card) (simp_all add: take_map filter_map comp_def)
  moreover have A: "?A \<subseteq> {..<R}" using assms(2) by (auto dest: in_set_takeD)
  ultimately have "card (?A \<union> U) < card ?A + card U"
    using assms(3,6) card_mono [of "{..<R}" "?A \<union> U"] by fastforce
  moreover have "finite U" using assms(3) finite_subset by blast
  ultimately have "?A \<inter> U \<noteq> {}" by (metis List.finite_set card_Un_disjoint less_irrefl)
  then show thesis using that A by auto
qed

lemma usable_truthful:
  assumes "leg_usable gs r" "leg_truthful (Some v) r"
  obtains env where "r = Inr v" "Decode v = Inr env"
  using assms by (cases r) (auto simp: leg_usable_def leg_truthful_def)

text \<open>A sweep that counted a full quorum has a winner with a value at least as new as an acked write.\<close>

lemma full_sweep_winner:
  assumes "distinct wo" "set wo \<subseteq> {..<R}" "distinct ro" "set ro \<subseteq> {..<R}"
    and "a \<le> fs_acks (fanout gs (map wleg wo) k)" "int R < a + n" "0 \<le> n"
    and stored: "\<And>i. i < R \<Longrightarrow> wleg i = None \<Longrightarrow> \<exists>v. store i = Some v \<and> st \<le> value_stamp v"
    and truthful: "\<And>i. i < R \<Longrightarrow> leg_truthful (store i) (rleg i)"
    and s: "s = read_collect gs bad rc n (map (\<lambda>i. (member i, rleg i)) ro)" "n \<le> rs_usable s"
  obtains i v where "rs_gathered s \<noteq> []" "cl_hadValue (lww_winner (rs_gathered s))" "i < R" "store i = Some v"
    "Decode v = Inr (cl_env (lww_winner (rs_gathered s)))" "st \<le> value_stamp v"
proof -
  let ?w = "lww_winner (rs_gathered s)"
  have inv: "read_inv gs n rleg ro s" unfolding s by (rule read_collect_inv) fact+
  then obtain U where U: "U \<subseteq> set ro" "n \<le> int (card U)"
    "\<forall>i\<in>U. leg_usable gs (rleg i) \<and> (\<exists>g\<in>set (rs_gathered s). gathered_leg (rleg i) g)"
    using s(2) by (auto simp: read_inv_def)
  obtain i where i: "i \<in> U" "i < R" "wleg i = None"
    by (rule quorums_meet [of wo R U ro k wleg]) (use assms(1-6) U(1,2) in \<open>auto simp: fanout_def fan_account_acks\<close>)
  obtain v where v: "store i = Some v" "st \<le> value_stamp v" using stored i by blast
  obtain env where env: "rleg i = Inr v" "Decode v = Inr env"
    using usable_truthful [of gs "rleg i" v] U(3) i truthful [of i] v(1) by auto
  then obtain g where g: "g \<in> set (rs_gathered s)" "cl_hadValue g" "cl_env g = env"
    using U(3) i(1) by (auto simp: gathered_leg_def)
  then have ne: "rs_gathered s \<noteq> []" by auto
  have w: "cl_hadValue ?w" "ev_Stamp env \<le> ev_Stamp (cl_env ?w)" using lww_winner_spec(2) [OF ne g(1,2)] g(3) by auto
  obtain j where j: "j \<in> set ro" "gathered_leg (rleg j) ?w"
    using inv lww_winner_spec(1) [OF ne] by (auto simp: read_inv_def)
  then obtain u where u: "rleg j = Inr u" "Decode u = Inr (cl_env ?w)" using w(1) by (cases "rleg j") (auto simp: gathered_leg_def)
  have "j < R" using j(1) assms(4) by auto
  with truthful [of j] u have "store j = Some u" by (auto simp: leg_truthful_def)
  moreover have "st \<le> value_stamp u" using v(2) env(2) w(2) u(2) by (simp add: value_stamp_def)
  ultimately show thesis using that ne w(1) \<open>j < R\<close> u(2) by blast
qed

lemma nonTransient_not_absent:
  assumes "\<And>e. bad e \<noteq> BackendErr ErrNotFound"
  shows "rs_nonTransientErr (read_collect gs bad rc n results) \<noteq> Some (BackendErr ErrNotFound)"
proof -
  have "rs_nonTransientErr s \<noteq> Some (BackendErr ErrNotFound) \<Longrightarrow>
    rs_nonTransientErr (foldl (read_step gs bad rc n) s results) \<noteq> Some (BackendErr ErrNotFound)" for s
  proof (induction results arbitrary: s)
    case (Cons r rs)
    have "rs_nonTransientErr (read_step gs bad rc n s r) \<noteq> Some (BackendErr ErrNotFound)"
      using Cons.prems assms by (auto simp: read_step_def Let_def split: sum.split option.split)
    then show ?case using Cons.IH by simp
  qed simp
  then show ?thesis by (simp add: read_collect_def)
qed

lemma unitReplicas_legs:
  assumes "routedReplicasForReshard (unitReplicas locate self r) gs h = Some legs"
  shows "rl_auth legs \<noteq> []"
  using assms unitReplicas_nonempty [of locate self r]
  by (auto simp: routedReplicasForReshard_def legsAt_def Let_def split: if_splits)

text \<open>C30: A read quorum sees every acked write. In a steady replica set of R positions let a write be acked by its fan-out, so that
  every acking position holds its stamp or a later one, and let the ack bar and the read bar add up to more than R. When
  a sweep counts a full read bar of answers, its outcome is decided by a stored value at least as new as the write:
  its payload, or not-found when that value is a tombstone. And a guarded sweep says not-found with fewer answers only when a leg
  answered with a tombstone.\<close>

theorem quorum_read_sees_acked_write:
  assumes "distinct wo" "set wo \<subseteq> {..<R}" "distinct ro" "set ro \<subseteq> {..<R}"
    and "requiredWriteAcks wc (int R) \<le> fs_acks (fanout gs (map wleg wo) reported)"
    and "int R < requiredWriteAcks wc (int R) + requiredReadReplicas rc (int R)" "0 < R" "length routed = R"
    and "\<And>i. i < R \<Longrightarrow> wleg i = None \<Longrightarrow> \<exists>v. store i = Some v \<and> st \<le> value_stamp v"
    and "\<And>i. i < R \<Longrightarrow> leg_truthful (store i) (rleg i)" "\<And>e. bad e \<noteq> BackendErr ErrNotFound"
    and "getReplicatedUnitOnceOpts gs bad \<lparr>ro_rc = rc, ro_quorumAbsence = guarded\<rparr> closing routed (int R)
           (map (\<lambda>i. (member i, rleg i)) ro) = (res, seen, repairs)"
  shows "(requiredReadReplicas rc (int R) \<le> int (length (filter (leg_usable gs \<circ> rleg) ro)) \<longrightarrow>
      (\<exists>i<R. \<exists>v env. store i = Some v \<and> Decode v = Inr env \<and> st \<le> ev_Stamp env \<and>
        res = (if ev_Payload env = [] then Inl (BackendErr ErrNotFound) else Inr (ev_Payload env)))) \<and>
    (guarded \<and> res = Inl (BackendErr ErrNotFound) \<longrightarrow>
      (\<exists>i<R. \<exists>v env. store i = Some v \<and> Decode v = Inr env \<and> ev_Payload env = []))"
proof -
  define n where "n = requiredReadReplicas rc (int R)"
  define s where "s = read_collect gs bad rc n (map (\<lambda>i. (member i, rleg i)) ro)"
  let ?w = "lww_winner (rs_gathered s)"
  have n: "0 \<le> n" "min n (int R) = n" using assms(7) by (cases rc; simp add: n_def requiredReadReplicas_def)+
  have inv: "read_inv gs n rleg ro s" unfolding s_def by (rule read_collect_inv [OF assms(3) n(1)])
  have once: "getReplicatedUnitOnceOpts gs bad \<lparr>ro_rc = rc, ro_quorumAbsence = guarded\<rparr> closing routed (int R)
      (map (\<lambda>i. (member i, rleg i)) ro) = (res, seen, repairs)" by (rule assms(12))
  note outcome = once [unfolded getReplicatedUnitOnceOpts_def Let_def replicatedReadOpts.simps assms(8) n_def [symmetric] n(2) s_def [symmetric]]
  have full: "rs_gathered s \<noteq> [] \<and> cl_hadValue ?w \<and>
      (\<exists>i<R. \<exists>v. store i = Some v \<and> Decode v = Inr (cl_env ?w) \<and> st \<le> ev_Stamp (cl_env ?w))" if "n \<le> rs_usable s"
    by (rule full_sweep_winner [OF assms(1-5) assms(6) [folded n_def] n(1) assms(9,10) s_def that]) (auto simp: value_stamp_def)
  have "res = (if ev_Payload (cl_env ?w) = [] then Inl (BackendErr ErrNotFound) else Inr (ev_Payload (cl_env ?w)))"
    if "rs_gathered s \<noteq> []" "cl_hadValue ?w"
    using outcome that assms(7) by (auto split: if_splits)
  then have part1: "\<exists>i<R. \<exists>v env. store i = Some v \<and> Decode v = Inr env \<and> st \<le> ev_Stamp env \<and>
        res = (if ev_Payload env = [] then Inl (BackendErr ErrNotFound) else Inr (ev_Payload env))"
    if "n \<le> int (length (filter (leg_usable gs \<circ> rleg) ro))"
    using full inv that by (fastforce simp: read_inv_def)
  have part2: "\<exists>i<R. \<exists>v env. store i = Some v \<and> Decode v = Inr env \<and> ev_Payload env = []"
    if g: "guarded" "res = Inl (BackendErr ErrNotFound)"
  proof -
    have ne: "rs_gathered s \<noteq> []"
    proof
      assume "rs_gathered s = []"
      with outcome g assms(7) nonTransient_not_absent [of bad gs rc n "map (\<lambda>i. (member i, rleg i)) ro", OF assms(11)] show False
        by (auto simp: s_def errSubQuorumAbsence_def errUnitAcquiring_def errUnitAcquiringBecause_def Let_def split: option.splits if_splits)
    qed
    have w: "cl_hadValue ?w" "ev_Payload (cl_env ?w) = []"
      using outcome g ne full assms(7) by (auto simp: errSubQuorumAbsence_def split: if_splits)
    obtain j where j: "j \<in> set ro" "gathered_leg (rleg j) ?w"
      using inv lww_winner_spec(1) [OF ne] by (auto simp: read_inv_def)
    then obtain u where u: "rleg j = Inr u" "Decode u = Inr (cl_env ?w)" using w(1) by (cases "rleg j") (auto simp: gathered_leg_def)
    have "j < R" using j(1) assms(4) by auto
    with assms(10) [of j] u have "store j = Some u" by (auto simp: leg_truthful_def)
    then show ?thesis using \<open>j < R\<close> u(2) w(2) by blast
  qed
  show ?thesis using part1 part2 by (auto simp: n_def)
qed

lemma absent_leg:
  assumes "grpc_status gs"
  shows "\<not> isTransientReadLegErr gs (BackendErr ErrNotFound)" "\<not> isUnreachableLegErr gs (BackendErr ErrNotFound)"
    "leg_usable gs (Inl (BackendErr ErrNotFound))"
  using grpc_status.from_plain [OF assms, of "BackendErr ErrNotFound"]
  by (auto simp: leg_usable_def isTransientReadLegErr_def isTransientReplicaErr_def isAcquiringErr_def isUnreachableLegErr_def
      errAcquiringSentinel_def split: prod.splits)

definition demo_store :: "nat \<Rightarrow> bytes option" where
  "demo_store i = (if i < 2 then Some (Encode (Envelope (Stamp 2 ''b'') ''new'')) else None)"

theorem quorum_read_sees_acked_write_witness:
  "\<exists>i<3. \<exists>v env. demo_store i = Some v \<and> Decode v = Inr env \<and> Stamp 2 ''b'' \<le> ev_Stamp env \<and>
     fst (getReplicatedUnitOnceOpts ref_grpc (\<lambda>_. PlainError ''bad'') \<lparr>ro_rc = ReadQuorum, ro_quorumAbsence = False\<rparr> False
       (withUnit (GenUnit 0 5) [Node ''a'' ''1'', Node ''b'' ''2'', Node ''c'' ''3'']) 3
       [(Node ''c'' ''3'', Inl (BackendErr ErrNotFound)), (Node ''b'' ''2'', Inr (Encode (Envelope (Stamp 2 ''b'') ''new'')))]) =
     (if ev_Payload env = [] then Inl (BackendErr ErrNotFound) else Inr (ev_Payload env))"
proof -
  let ?new = "Encode (Envelope (Stamp 2 ''b'') ''new'')" and ?nf = "Inl (BackendErr ErrNotFound)"
  let ?rleg = "\<lambda>i::nat. if i = 2 then ?nf else Inr ?new" and ?member = "\<lambda>i::nat. if i = 2 then Node ''c'' ''3'' else Node ''b'' ''2''"
  let ?wleg = "\<lambda>i::nat. if i < 2 then None else Some (PlainError ''down'')"
  let ?routed = "withUnit (GenUnit 0 5) [Node ''a'' ''1'', Node ''b'' ''2'', Node ''c'' ''3'']"
  have dec: "Decode ?new = Inr (Envelope (Stamp 2 ''b'') ''new'')" by (simp add: Decode_Encode_envelope)
  define once where "once = getReplicatedUnitOnceOpts ref_grpc (\<lambda>_. PlainError ''bad'') \<lparr>ro_rc = ReadQuorum, ro_quorumAbsence = False\<rparr> False
      ?routed (int 3) (map (\<lambda>i. (?member i, ?rleg i)) [2, 1])"
  obtain res seen repairs where once: "once = (res, seen, repairs)" by (cases once) auto
  note nf = absent_leg(3) [OF reference.grpc_status_axioms]
  have u: "leg_usable ref_grpc (Inr ?new)" using dec by (simp add: leg_usable_def)
  have "2 \<le> fs_acks (fanout ref_grpc (map ?wleg [0, 1]) 2)" by (simp add: fanout_def fan_account_acks)
  moreover have "\<exists>v. demo_store i = Some v \<and> Stamp 2 ''b'' \<le> value_stamp v" if "i < 3" "?wleg i = None" for i
    using that demo_stamps(2) by (auto simp: demo_store_def split: if_splits)
  moreover have "leg_truthful (demo_store i) (?rleg i)" if "i < 3" for i using that by (auto simp: leg_truthful_def demo_store_def)
  ultimately have "\<exists>i<3. \<exists>v env. demo_store i = Some v \<and> Decode v = Inr env \<and> Stamp 2 ''b'' \<le> ev_Stamp env \<and>
      res = (if ev_Payload env = [] then Inl (BackendErr ErrNotFound) else Inr (ev_Payload env))"
    using quorum_read_sees_acked_write [of "[0, 1]" 3 "[2, 1]" WriteQuorum ref_grpc ?wleg 2 ReadQuorum ?routed demo_store "Stamp 2 ''b''" ?rleg
        "\<lambda>_. PlainError ''bad''" False False ?member res seen repairs] once [unfolded once_def] nf u
    by (simp add: requiredWriteAcks_def requiredReadReplicas_def withUnit_def)
  then show ?thesis using once by (simp add: once_def)
qed

text \<open>C32: The guard of a destructive read does not cover tombstones. Let an earlier delete have left a tombstone everywhere and a later
  write be acked by a quorum that the third replica missed. When the two holders are unreachable, the guarded sweep at
  read quorum concludes not-found from the one stale tombstone, although the same sweep refuses to conclude anything when that replica
  holds nothing at all.\<close>

theorem guarded_absence_by_stale_tombstone:
  assumes "grpc_status gs" "routed \<noteq> []" "3 \<le> length routed" "length (sp_NodeID old) \<le> 65535"
    and "down = StatusError (Status Unavailable msg [])"
    and "opts = \<lparr>ro_rc = ReadQuorum, ro_quorumAbsence = True\<rparr>"
  shows "requiredWriteAcks WriteQuorum 3 \<le> fs_acks (fanout gs [None, None] 2) \<and>
    fst (getReplicatedUnitOnceOpts gs bad opts closing routed 3
      [(a, Inl down), (b, Inl down), (c, Inr (Encode (Envelope old [])))]) = Inl (BackendErr ErrNotFound) \<and>
    fst (getReplicatedUnitOnceOpts gs bad opts closing routed 3
      [(a, Inl down), (b, Inl down), (c, Inl (BackendErr ErrNotFound))]) = Inl errSubQuorumAbsence"
proof -
  note d = grpc_status.down_leg [OF assms(1), of msg, folded assms(5)]
  have dec: "Decode (Encode (Envelope old [])) = Inr (Envelope old [])"
    using Decode_Encode_envelope assms(4) by (cases old) simp
  note nf = absent_leg(1,2) [OF assms(1)]
  have n: "min 2 (int (length routed)) = 2" using assms(3) by simp
  have "2 \<le> fs_acks (fanout gs [None, None] 2)" by (simp add: fanout_def fan_account_acks)
  then show ?thesis using assms(2) d dec nf n
    by (simp add: assms(6) requiredWriteAcks_def requiredReadReplicas_def getReplicatedUnitOnceOpts_def read_collect_def read_step_def lww_winner_def Let_def)
qed

theorem guarded_absence_by_stale_tombstone_witness:
  "fst (getReplicatedUnitOnceOpts ref_grpc (\<lambda>_. PlainError ''bad'') \<lparr>ro_rc = ReadQuorum, ro_quorumAbsence = True\<rparr> False
      (withUnit (GenUnit 0 5) [Node ''a'' ''1'', Node ''b'' ''2'', Node ''c'' ''3'']) 3
      [(Node ''a'' ''1'', Inl (StatusError (Status Unavailable ''down'' []))), (Node ''b'' ''2'', Inl (StatusError (Status Unavailable ''down'' []))),
       (Node ''c'' ''3'', Inr (Encode (Envelope (Stamp 1 ''a'') [])))]) = Inl (BackendErr ErrNotFound)"
  using guarded_absence_by_stale_tombstone [OF reference.grpc_status_axioms,
      of "withUnit (GenUnit 0 5) [Node ''a'' ''1'', Node ''b'' ''2'', Node ''c'' ''3'']" "Stamp 1 ''a''" _ "''down''", OF _ _ _ refl refl]
  by (simp add: withUnit_def)

end
