(* ===== verification/Cas_Fanout.thy ===== *)
theory Cas_Fanout
  imports Cas_Tx Replicated
begin

text \<open>
  Who serves a conditional commit and how its write-set reaches the replicas: the designated owner through a join
  (\<^verbatim>\<open>src/pkg/cluster/cas_transition.go\<close>), the replica side of the batch (\<^verbatim>\<open>ApplyBatchLocal\<close>, \<^verbatim>\<open>applyBatchToUnit\<close> and their siblings) and the
  fan-out after the local commit (\<^verbatim>\<open>apply_batch.go\<close>).
\<close>

section \<open>The designated owner\<close>

definition unitOwnerOf :: "locator \<Rightarrow> Node \<Rightarrow> GenUnit \<Rightarrow> Node \<times> bool" where
  "unitOwnerOf locate self gu =
     (let ns = locate gu 1 [] in if length ns = 0 then (self, True) else (ns ! 0, node_ID (ns ! 0) = node_ID self))"

text \<open>\<open>placed\<close> is the unit that places the key, \<open>gu\<close> the unit that holds it.\<close>

definition casDesignatedOwner ::
    "locator \<Rightarrow> Node \<Rightarrow> int \<Rightarrow> bool \<Rightarrow> NodeID list \<Rightarrow> GenUnit \<Rightarrow> GenUnit \<Rightarrow> Node \<times> bool" where
  "casDesignatedOwner locate self r multiReplicated joining placed gu =
     (let (owner, isLocal) = unitOwnerOf locate self placed
      in if \<not> multiReplicated then (owner, isLocal)
         else if length joining = 0 then (owner, isLocal)
         else if node_ID owner \<notin> set joining then (owner, isLocal)
         else
           (let current = currentUnitReplicas locate self r joining gu
            in if length current = 0 then (owner, isLocal) else (current ! 0, node_ID (current ! 0) = node_ID self)))"

definition OwnsCASPin :: "locator \<Rightarrow> Node \<Rightarrow> int \<Rightarrow> bool \<Rightarrow> NodeID list \<Rightarrow> GenUnit \<Rightarrow> GenUnit \<Rightarrow> bool" where
  "OwnsCASPin locate self r multiReplicated joining placed gu = snd (casDesignatedOwner locate self r multiReplicated joining placed gu)"

section \<open>The replica side\<close>

text \<open>The error mappers of a mounted unit: the error, and whether the mount is evicted.\<close>

definition unitApplyErrMaps :: "grpc_ops \<Rightarrow> string \<Rightarrow> (backend_error \<Rightarrow> goerr \<times> bool) \<times> (backend_error \<Rightarrow> goerr \<times> bool)" where
  "unitApplyErrMaps gs op =
     (\<lambda>_. (errUnitAcquiring gs op, True),
      \<lambda>e. fenceToTransient gs (\<lambda>_. True) op (BackendErr e) False)"

text \<open>\<open>s\<close> holds the addressed backend; \<open>evict\<close> is \<^verbatim>\<open>evictStaleMount\<close> of its mount.\<close>

definition applyBatchToBackend ::
    "grpc_ops \<Rightarrow> ('b, 't) backend_ops \<Rightarrow> ('m \<Rightarrow> 'm) \<Rightarrow> EnvelopeWrite list \<Rightarrow> ('b, 'm, 'p) cas_owner \<Rightarrow>
     goerr option \<times> ('b, 'm, 'p) cas_owner" where
  "applyBatchToBackend gs ops evict writes s =
     (let (mapBegin, mapTx) = unitApplyErrMaps gs ''ApplyBatch''
      in case applyEnvelopesTx ops writes mapBegin mapTx (co_b s) (co_mark s) of
           (r, b, mark) \<Rightarrow>
             (let s = s\<lparr>co_b := b, co_mark := mark\<rparr>
              in case r of
                   Inr _ \<Rightarrow> (None, s)
                 | Inl (CorruptEnvelope e) \<Rightarrow> (Some (envelopeErr e), s)
                 | Inl (Mapped (e, stale)) \<Rightarrow> (Some e, if stale then s\<lparr>co_mounts := evict (co_mounts s)\<rparr> else s)))"

text \<open>\<open>mounted\<close> is whether the resolver (by the first key, or by the explicit position) finds the unit mounted.\<close>

definition applyBatchToUnit ::
    "grpc_ops \<Rightarrow> ('b, 't) backend_ops \<Rightarrow> ('m \<Rightarrow> 'm) \<Rightarrow> (bytes \<Rightarrow> bool) \<Rightarrow> EnvelopeWrite list \<Rightarrow> ('b, 'm, 'p) cas_owner \<Rightarrow>
     goerr option \<times> ('b, 'm, 'p) cas_owner" where
  "applyBatchToUnit gs ops evict mounted writes s =
     (case writes of
        [] \<Rightarrow> (None, s)
      | w # _ \<Rightarrow>
          if \<not> mounted (ew_Key w) then (Some (errUnitAcquiring gs ''ApplyBatch''), s)
          else applyBatchToBackend gs ops evict writes s)"

definition applyBatchToReplicaUnit ::
    "grpc_ops \<Rightarrow> ('b, 't) backend_ops \<Rightarrow> ('m \<Rightarrow> 'm) \<Rightarrow> bool \<Rightarrow> EnvelopeWrite list \<Rightarrow> ('b, 'm, 'p) cas_owner \<Rightarrow>
     goerr option \<times> ('b, 'm, 'p) cas_owner" where
  "applyBatchToReplicaUnit gs ops evict mounted writes s =
     (if length writes = 0 then (None, s)
      else if \<not> mounted then (Some (errUnitAcquiring gs ''ApplyBatch''), s)
      else applyBatchToBackend gs ops evict writes s)"

definition ApplyBatchLocal ::
    "grpc_ops \<Rightarrow> ('b, 't) backend_ops \<Rightarrow> ('m \<Rightarrow> 'm) \<Rightarrow> bool \<Rightarrow> bool \<Rightarrow> bool \<Rightarrow> (bytes \<Rightarrow> bool) \<Rightarrow> EnvelopeWrite list \<Rightarrow>
     ('b, 'm, 'p) cas_owner \<Rightarrow> goerr option \<times> ('b, 'm, 'p) cas_owner" where
  "ApplyBatchLocal gs ops evict notReady multiReplicated multi mounted writes s =
     (if notReady then (Some (BackendErr ErrClosed), s)
      else if multiReplicated then
        (case applyBatchToUnit gs ops evict mounted writes s of (e, s) \<Rightarrow> (recodeForwardedReplicaErr gs e, s))
      else if multi then (Some (PlainError ''cluster: ApplyBatch unsupported in multi-backend mode (single-replica)''), s)
      else case applyEnvelopesTx ops writes rawApplyErr rawApplyErr (co_b s) (co_mark s) of
          (r, b, mark) \<Rightarrow>
            (case r of
               Inr _ \<Rightarrow> None
             | Inl (CorruptEnvelope e) \<Rightarrow> Some (envelopeErr e)
             | Inl (Mapped e) \<Rightarrow> Some (BackendErr e),
             s\<lparr>co_b := b, co_mark := mark\<rparr>))"

text \<open>The handler of \<^verbatim>\<open>ApplyBatch\<close> and the client's reading of its answer; \<open>None\<close> is an ack.\<close>

definition server_ApplyBatch :: "grpc_ops \<Rightarrow> (goerr \<Rightarrow> string) \<Rightarrow> goerr option \<Rightarrow> goerr option" where
  "server_ApplyBatch gs describe r =
     (case r of
        None \<Rightarrow> None
      | Some e \<Rightarrow>
          if snd (gs_FromError gs e) then Some (decodeRefusalReason gs (gs_wire gs e))
          else if describe e \<noteq> [] then Some (PlainError (''cluster: ApplyBatch replica error: '' @ describe e))
          else None)"

text \<open>A leg of the fan-out: in this process, or over the wire. \<open>applyLocal\<close> is \<^const>\<open>ApplyBatchLocal\<close> of the addressed node.\<close>

definition dispatchApplyBatch ::
    "grpc_ops \<Rightarrow> (goerr \<Rightarrow> string) \<Rightarrow> string \<Rightarrow> Node \<Rightarrow> goerr option \<Rightarrow> rpc_fate \<Rightarrow> ('s \<Rightarrow> goerr option \<times> 's) \<Rightarrow> 's \<Rightarrow> goerr option \<times> 's" where
  "dispatchApplyBatch gs describe nodeID replica clientErr fate applyLocal s =
     (if node_ID replica = nodeID then applyLocal s
      else case clientErr of
          Some e \<Rightarrow> (Some e, s)
        | None \<Rightarrow>
            (case fate of
               RequestLost e \<Rightarrow> (Some e, s)
             | ReplyLost e \<Rightarrow> (Some e, snd (applyLocal s))
             | Delivered \<Rightarrow> (case applyLocal s of (r, s) \<Rightarrow> (server_ApplyBatch gs describe r, s))))"

section \<open>The fan-out\<close>

text \<open>The members of the routed set, each once, and the acks the owner counts by itself: its commit, and every further position of the
  pin unit it applied the batch to. \<open>apply\<close> is \<^const>\<open>applyBatchToReplicaUnit\<close> of a position.\<close>

record 's cas_member_set =
  cm_seen :: "NodeID list"
  cm_members :: "Node list"
  cm_localAcks :: int
  cm_state :: 's

definition cas_member_step ::
    "string \<Rightarrow> ReplicaUnit \<Rightarrow> (ReplicaUnit \<Rightarrow> 's \<Rightarrow> goerr option \<times> 's) \<Rightarrow> 's cas_member_set \<Rightarrow> routedReplica \<Rightarrow> 's cas_member_set" where
  "cas_member_step nodeID committedRU apply a rr =
     (let a = (if node_ID (rr_member rr) = nodeID \<and> rr_ru rr \<noteq> committedRU
               then (case apply (rr_ru rr) (cm_state a) of
                       (e, s) \<Rightarrow> a\<lparr>cm_localAcks := (if e = None then cm_localAcks a + 1 else cm_localAcks a), cm_state := s\<rparr>)
               else a)
      in if node_ID (rr_member rr) \<in> set (cm_seen a) then a
         else a\<lparr>cm_seen := node_ID (rr_member rr) # cm_seen a, cm_members := cm_members a @ [rr_member rr]\<rparr>)"

definition cas_members ::
    "string \<Rightarrow> ReplicaUnit \<Rightarrow> (ReplicaUnit \<Rightarrow> 's \<Rightarrow> goerr option \<times> 's) \<Rightarrow> routedReplica list \<Rightarrow> 's \<Rightarrow> 's cas_member_set" where
  "cas_members nodeID committedRU apply routed s =
     foldl (cas_member_step nodeID committedRU apply) \<lparr>cm_seen = [], cm_members = [], cm_localAcks = 1, cm_state = s\<rparr> routed"

definition attempt_failed :: "goerr \<Rightarrow> writeAttempt" where
  "attempt_failed e = \<lparr>wa_err = Some e, wa_retryable = False, wa_noLegEvidence = False\<rparr>"

definition attempt_ok :: writeAttempt where
  "attempt_ok = \<lparr>wa_err = None, wa_retryable = False, wa_noLegEvidence = False\<rparr>"

text \<open>One pass. The peers are sent the batch; \<open>answers\<close> gives the answer of the leg to a peer, \<open>order\<close> the order in which legs
  report, and \<open>reported\<close> how many have when the pass looks.\<close>

definition replicateCASBatchAttempt ::
    "grpc_ops \<Rightarrow> (goerr option \<Rightarrow> string) \<Rightarrow> WriteConsistency \<Rightarrow> string \<Rightarrow> bool \<Rightarrow> ReplicaUnit \<Rightarrow> routedReplica list \<Rightarrow> int \<Rightarrow>
     (ReplicaUnit \<Rightarrow> 's \<Rightarrow> goerr option \<times> 's) \<Rightarrow> (nat \<Rightarrow> goerr option) \<Rightarrow> nat list \<Rightarrow> nat \<Rightarrow> 's \<Rightarrow> writeAttempt \<times> 's" where
  "replicateCASBatchAttempt gs describe wc nodeID multiReplicated committedRU routed stableR apply answers order reported s =
     (let m = cas_members nodeID committedRU apply (if multiReplicated then routed else []) s;
          w = (if multiReplicated then writeAckBar wc stableR else 0);
          others = filter (\<lambda>n. node_ID n \<noteq> nodeID) (cm_members m)
      in (if length (cm_members m) = 0
          then attempt_failed (StatusError (Status Unavailable ''shale: no replicas available for CAS write-set'' []))
          else if length others = 0 then
            (if w > cm_localAcks m
             then attempt_failed (StatusError (Status Unavailable
                    (''shale: CAS write needed '' @ format_int w @ '' acks, only the owner is a replica'') []))
             else attempt_ok)
          else
            (let remoteNeeded = w - cm_localAcks m; f = fanout gs (map answers order) reported
             in if remoteNeeded \<le> 0 then attempt_ok
                else classifyWriteAttempt gs describe (fs_acks f + cm_localAcks m) w (fs_errs f) (fs_transient f)),
          cm_state m))"

text \<open>With a mounted unit the pass is retried through a hand-off; \<open>attempt i now\<close> is the \<open>i\<close>-th pass and how long it took.\<close>

definition replicateCASBatch ::
    "bool \<Rightarrow> bool \<Rightarrow> int \<Rightarrow> int \<Rightarrow> (nat \<Rightarrow> int \<Rightarrow> writeAttempt \<times> int) \<Rightarrow> (nat \<Rightarrow> rat) \<Rightarrow> int \<Rightarrow> goerr option option" where
  "replicateCASBatch multiReplicated forceCleanCut writeTimeout retryAfterMs attempt jit now =
     (if multiReplicated then retryWriteThroughHandoff forceCleanCut writeTimeout retryAfterMs attempt jit now
      else Some (wa_err (fst (attempt 0 now))))"

section \<open>One designated owner\<close>

lemma unitOwnerOf_placed: "locate gu 1 [] \<noteq> [] \<Longrightarrow> unitOwnerOf locate self gu = (locate gu 1 [] ! 0, node_ID (locate gu 1 [] ! 0) = node_ID self)"
  by (simp add: unitOwnerOf_def Let_def)

lemma currentUnitReplicas_placed:
  assumes "locate gu r [] \<noteq> []"
  shows "currentUnitReplicas locate a r joining gu = currentUnitReplicas locate b r joining gu"
  using assms by (simp add: currentUnitReplicas_def unitReplicas_def Let_def)

text \<open>C8: One node per view serves conditional commits of a key. In a view where the unit is placed, every node computes the same
  designated owner; a node accepts a commit exactly when it is that owner, so no two nodes accept, and the node a client picks does. The owner
  is the head of the ring, unless that node is still joining: then it is the head of the current replica set, which is not joining
  either unless the current set has fallen back to the full ring. (The coordinator leaves out the nodes it is asked to leave out.)\<close>

theorem one_designated_owner:
  fixes locate :: locator and joining :: "NodeID list" and r :: int and placed gu :: GenUnit
  defines "designated \<equiv> \<lambda>self. fst (casDesignatedOwner locate self r True joining placed gu)"
  defines "accepts \<equiv> \<lambda>self. OwnsCASPin locate self r True joining placed gu"
  assumes "locate placed 1 [] \<noteq> []" "locate gu r [] \<noteq> []" "\<forall>n\<in>set (locate gu r joining). node_ID n \<notin> set joining"
  shows "designated a = designated b \<and> (accepts a \<longleftrightarrow> node_ID a = node_ID (designated a)) \<and> accepts (designated a) \<and>
    designated a = (if node_ID (locate placed 1 [] ! 0) \<in> set joining then currentUnitReplicas locate a r joining gu ! 0
      else locate placed 1 [] ! 0) \<and>
    (node_ID (designated a) \<in> set joining \<longrightarrow> currentUnitReplicas locate a r joining gu = locate gu r [])"
proof -
  note U = unitOwnerOf_placed [where locate = locate and gu = placed, OF assms(3)]
  note C = currentUnitReplicas_placed [where locate = locate and gu = gu, OF assms(4)]
  let ?cur = "currentUnitReplicas locate a r joining gu"
  have ne: "currentUnitReplicas locate x r joining gu \<noteq> []" for x by (rule current_nonempty)
  have d: "designated x = (if node_ID (locate placed 1 [] ! 0) \<in> set joining then ?cur ! 0 else locate placed 1 [] ! 0)" for x
    using C [of x joining a] ne [of x] by (auto simp: designated_def casDesignatedOwner_def U Let_def)
  have acc: "accepts x \<longleftrightarrow> node_ID x = node_ID (designated x)" for x
    using ne [of x] by (auto simp: accepts_def OwnsCASPin_def designated_def casDesignatedOwner_def U Let_def)
  have "?cur = locate gu r []" if j: "node_ID (designated a) \<in> set joining"
  proof -
    have "\<exists>n\<in>set ?cur. node_ID n \<in> set joining"
      using j ne [of a] by (auto simp: d split: if_splits intro: bexI [of _ "?cur ! 0"])
    moreover have "length joining \<noteq> 0" using j by auto
    ultimately show ?thesis using assms(4,5) by (auto simp: currentUnitReplicas_def unitReplicas_def Let_def split: if_splits)
  qed
  then show ?thesis using d [of a] d [of b] d [of "designated a"] acc by metis
qed

text \<open>Three nodes in ring order, of which the head is still joining.\<close>

definition demo_ring :: locator where
  "demo_ring gu n excl = take (nat n) (filter (\<lambda>m. node_ID m \<notin> set excl) (map (\<lambda>i. Node i i) [''a'', ''b'', ''c'']))"

theorem one_designated_owner_witness:
  "let u = GenUnit 0 0; d = (\<lambda>self. fst (casDesignatedOwner demo_ring self 2 True [''a''] u u))
   in d (Node ''a'' ''a'') = d (Node ''c'' ''c'') \<and> d (Node ''a'' ''a'') = Node ''b'' ''b'' \<and>
      OwnsCASPin demo_ring (Node ''b'' ''b'') 2 True [''a''] u u \<and> \<not> OwnsCASPin demo_ring (Node ''a'' ''a'') 2 True [''a''] u u"
proof -
  let ?u = "GenUnit 0 0"
  have h: "demo_ring ?u 1 [] \<noteq> []" "demo_ring ?u 2 [] \<noteq> []" "\<forall>n\<in>set (demo_ring ?u 2 [''a'']). node_ID n \<notin> set [''a'']"
    by (simp_all add: demo_ring_def)
  have c: "currentUnitReplicas demo_ring self 2 [''a''] ?u ! 0 = Node ''b'' ''b''" "demo_ring ?u 1 [] ! 0 = Node ''a'' ''a''" for self
    by (simp_all add: currentUnitReplicas_def unitReplicas_def demo_ring_def CurrentReplicaSet_def eval_nat_numeral)
  note T = one_designated_owner [where locate = demo_ring and r = 2 and joining = "[''a'']", OF h, of "Node ''a'' ''a''" "Node ''c'' ''c''"]
  from T have "fst (casDesignatedOwner demo_ring (Node ''a'' ''a'') 2 True [''a''] ?u ?u) =
      (if node_ID (demo_ring ?u 1 [] ! 0) \<in> set [''a''] then currentUnitReplicas demo_ring (Node ''a'' ''a'') 2 [''a''] ?u ! 0
       else demo_ring ?u 1 [] ! 0)" by blast
  then have eq: "fst (casDesignatedOwner demo_ring (Node ''a'' ''a'') 2 True [''a''] ?u ?u) = Node ''b'' ''b''" unfolding c by simp
  from T show ?thesis unfolding eq Let_def by auto
qed

section \<open>An acknowledged commit has its copies\<close>

text \<open>The further positions of the owner in the routed set, and the answers of applying the batch to them in turn.\<close>

definition extra_positions :: "string \<Rightarrow> ReplicaUnit \<Rightarrow> routedReplica list \<Rightarrow> ReplicaUnit list" where
  "extra_positions nodeID committedRU routed = map rr_ru (filter (\<lambda>rr. node_ID (rr_member rr) = nodeID \<and> rr_ru rr \<noteq> committedRU) routed)"

fun apply_results :: "(ReplicaUnit \<Rightarrow> 's \<Rightarrow> goerr option \<times> 's) \<Rightarrow> ReplicaUnit list \<Rightarrow> 's \<Rightarrow> goerr option list" where
  "apply_results apply [] s = []"
| "apply_results apply (ru # rus) s = fst (apply ru s) # apply_results apply rus (snd (apply ru s))"

lemma cas_members_fold:
  assumes "distinct (map node_ID (cm_members a))" "set (cm_seen a) = node_ID ` set (cm_members a)"
  shows "let m = foldl (cas_member_step nodeID committedRU apply) a routed
    in distinct (map node_ID (cm_members m)) \<and>
       cm_localAcks m = cm_localAcks a +
         int (length (filter (\<lambda>e. e = None) (apply_results apply (extra_positions nodeID committedRU routed) (cm_state a)))) \<and>
       node_ID ` set (cm_members m) = node_ID ` set (cm_members a) \<union> node_ID ` rr_member ` set routed"
  using assms
proof (induction routed arbitrary: a)
  case Nil
  then show ?case by (simp add: extra_positions_def)
next
  case (Cons rr routed)
  let ?b = "cas_member_step nodeID committedRU apply a rr"
  have b: "distinct (map node_ID (cm_members ?b)) \<and> set (cm_seen ?b) = node_ID ` set (cm_members ?b) \<and>
      node_ID ` set (cm_members ?b) = insert (node_ID (rr_member rr)) (node_ID ` set (cm_members a))"
    using Cons.prems by (auto simp: cas_member_step_def Let_def split: prod.splits)
  have l: "if node_ID (rr_member rr) = nodeID \<and> rr_ru rr \<noteq> committedRU
      then cm_localAcks ?b = cm_localAcks a + (if fst (apply (rr_ru rr) (cm_state a)) = None then 1 else 0) \<and>
        cm_state ?b = snd (apply (rr_ru rr) (cm_state a))
      else cm_localAcks ?b = cm_localAcks a \<and> cm_state ?b = cm_state a"
    by (auto simp: cas_member_step_def Let_def split: prod.splits)
  from Cons.IH [of ?b] b l show ?case by (auto simp: Let_def extra_positions_def split: if_splits)
qed

lemma cas_members_spec:
  "distinct (map node_ID (cm_members (cas_members nodeID committedRU apply routed s)))"
  "cm_localAcks (cas_members nodeID committedRU apply routed s) =
     1 + int (length (filter (\<lambda>e. e = None) (apply_results apply (extra_positions nodeID committedRU routed) s)))"
  using cas_members_fold [of "\<lparr>cm_seen = [], cm_members = [], cm_localAcks = 1, cm_state = s\<rparr>" nodeID committedRU "apply" routed]
  by (simp_all add: cas_members_def Let_def)

lemma acks_of_order:
  fixes n :: nat
  assumes "distinct order" "set order \<subseteq> {..<n}"
  shows "fs_acks (fanout gs (map answers order) reported) \<le> int (card {j. j < n \<and> answers j = None})"
proof -
  let ?o = "take reported order"
  have "fs_acks (fanout gs (map answers order) reported) = int (length (filter (\<lambda>j. answers j = None) ?o))"
    by (simp add: fanout_def fan_account_acks take_map filter_map comp_def)
  also have "length (filter (\<lambda>j. answers j = None) ?o) = card (set (filter (\<lambda>j. answers j = None) ?o))"
    by (rule distinct_card [symmetric]) (use assms(1) in simp)
  also have "\<dots> \<le> card {j. j < n \<and> answers j = None}"
    using assms(2) by (intro card_mono finite_subset [OF _ finite_lessThan [of n]]) (auto dest: in_set_takeD)
  finally show ?thesis by simp
qed

lemma classify_ok: "wa_err (classifyWriteAttempt gs describe acks w errs transient) = None \<longleftrightarrow> acks \<ge> w"
  by (simp add: classifyWriteAttempt_def Let_def)

context kv_backend
begin

lemma batch_applied:
  assumes "ok (co_b s)" "applyBatchToBackend gs ops evict writes s = (None, s')"
  shows "kv (co_b s') = fold lww_apply writes (kv (co_b s))"
proof -
  obtain r b mark where a: "applyEnvelopesTx ops writes (fst (unitApplyErrMaps gs ''ApplyBatch'')) (snd (unitApplyErrMaps gs ''ApplyBatch''))
      (co_b s) (co_mark s) = (r, b, mark)" by (rule prod_cases3)
  with assms(2) have "\<exists>x. r = Inr x" "co_b s' = b"
    by (auto simp: applyBatchToBackend_def Let_def split: prod.splits sum.splits apply_error.splits if_splits)
  with apply_refines [OF assms(1) a] show ?thesis by auto
qed

lemma ApplyBatchLocal_applied:
  assumes "ok (co_b s)" "ApplyBatchLocal gs ops evict notReady True multi mounted writes s = (None, s')"
  shows "kv (co_b s') = fold lww_apply writes (kv (co_b s))"
proof -
  obtain e s1 where u: "applyBatchToUnit gs ops evict mounted writes s = (e, s1)" by fastforce
  with assms(2) have e: "e = None" "s' = s1"
    by (auto simp: ApplyBatchLocal_def recodeForwardedReplicaErr_def split: if_splits option.splits)
  show ?thesis
  proof (cases writes)
    case Nil
    with u e show ?thesis by (simp add: applyBatchToUnit_def)
  next
    case (Cons w ws)
    with u e have "applyBatchToBackend gs ops evict writes s = (None, s')" by (auto simp: applyBatchToUnit_def split: if_splits)
    with batch_applied [OF assms(1)] show ?thesis by blast
  qed
qed

lemma dispatch_applied:
  assumes "ok (co_b s)" "\<forall>e. describe e \<noteq> ''''"
    "dispatchApplyBatch gs describe nodeID n clientErr fate (ApplyBatchLocal gs ops evict notReady True multi mounted writes) s = (None, s')"
  shows "kv (co_b s') = fold lww_apply writes (kv (co_b s))"
proof -
  have "ApplyBatchLocal gs ops evict notReady True multi mounted writes s = (None, s')"
    using assms(2,3) by (cases fate) (auto simp: dispatchApplyBatch_def server_ApplyBatch_def split: if_splits option.splits prod.splits)
  with ApplyBatchLocal_applied [OF assms(1)] show ?thesis by blast
qed

end


lemma mem_ApplyBatchLocal_ok:
  assumes "mem_ok (co_b s)" "writes_decode writes"
  shows "fst (ApplyBatchLocal gs memory_ops evict False True True (\<lambda>_. True) writes s) = None"
proof -
  from mem_apply_total [OF assms, of "fst (unitApplyErrMaps gs ''ApplyBatch'')" "snd (unitApplyErrMaps gs ''ApplyBatch'')" "co_mark s"]
  have "fst (applyBatchToBackend gs memory_ops evict writes s) = None"
    by (auto simp: applyBatchToBackend_def Let_def split: prod.splits)
  then show ?thesis
    by (cases writes) (auto simp: ApplyBatchLocal_def applyBatchToUnit_def recodeForwardedReplicaErr_def split: prod.splits)
qed


end
