(* ===== verification/Flush_Group.thy ===== *)
theory Flush_Group
  imports Refusals
begin

text \<open>
  The group commit of the owner's flush (\<^verbatim>\<open>src/pkg/cluster/cas_flushgroup.go\<close>): waiters enqueue on the state of their storage unit,
  one runner per state snapshots the waiters, flushes once and answers them all. The methods are one definition per locked section;
  the step relation \<open>fg_step\<close> interleaves callers, runners, commits into the memtables and unmounts.
\<close>

section \<open>State\<close>

text \<open>A waiter is named by its channel, which also names the write it waits for. \<open>'f\<close> are the flushers (the storage units).\<close>

record flushGroupState =
  st_flushing :: bool
  st_pending :: "nat list"

text \<open>The map from flushers to states; states are shared by pointer, since a runner keeps its state after the entry is dropped.\<close>

record 'f flushGroup =
  fg_states :: "'f \<rightharpoonup> nat"
  fg_heap :: "nat \<Rightarrow> flushGroupState"
  fg_next :: nat

text \<open>\<^verbatim>\<open>flush\<close>, its first section: the state of \<open>f\<close>, made when there is none.\<close>

definition flush_lookup :: "'f \<Rightarrow> 'f flushGroup \<Rightarrow> nat \<times> 'f flushGroup" where
  "flush_lookup f g =
     (case fg_states g f of
        Some p \<Rightarrow> (p, g)
      | None \<Rightarrow> (fg_next g, g\<lparr>fg_states := (fg_states g)(f \<mapsto> fg_next g),
                   fg_heap := (fg_heap g)(fg_next g := \<lparr>st_flushing = False, st_pending = []\<rparr>), fg_next := fg_next g + 1\<rparr>))"

text \<open>Its second section: enqueue, and whether to spawn a runner.\<close>

definition flush_enqueue :: "nat \<Rightarrow> nat \<Rightarrow> 'f flushGroup \<Rightarrow> bool \<times> 'f flushGroup" where
  "flush_enqueue p ch g =
     (let st = fg_heap g p;
          spawn = (\<not> st_flushing st);
          st = st\<lparr>st_pending := st_pending st @ [ch]\<rparr>;
          st = (if spawn then st\<lparr>st_flushing := True\<rparr> else st)
      in (spawn, g\<lparr>fg_heap := (fg_heap g)(p := st)\<rparr>))"

text \<open>\<^verbatim>\<open>runFlush\<close>: the snapshot, and the end of a round, which says whether the runner goes on.\<close>

definition run_snapshot :: "nat \<Rightarrow> 'f flushGroup \<Rightarrow> nat list \<times> 'f flushGroup" where
  "run_snapshot p g =
     (let st = fg_heap g p in (st_pending st, g\<lparr>fg_heap := (fg_heap g)(p := st\<lparr>st_pending := []\<rparr>)\<rparr>))"

definition run_check :: "nat \<Rightarrow> 'f flushGroup \<Rightarrow> bool \<times> 'f flushGroup" where
  "run_check p g =
     (let st = fg_heap g p
      in if length (st_pending st) = 0 then (False, g\<lparr>fg_heap := (fg_heap g)(p := st\<lparr>st_flushing := False\<rparr>)\<rparr>) else (True, g))"

text \<open>\<^verbatim>\<open>forget\<close>, called with the flusher of an unmounting backend, nil when it has none.\<close>

definition forget :: "'f option \<Rightarrow> 'f flushGroup \<Rightarrow> 'f flushGroup" where
  "forget fl g = (case fl of None \<Rightarrow> g | Some f \<Rightarrow> g\<lparr>fg_states := (fg_states g)(f := None)\<rparr>)"

section \<open>Interleavings\<close>

text \<open>Where a runner stands in its loop. A flush in flight has seen some contents of the memtable.\<close>

datatype run_phase = RunStart | RunSnap "nat list" | RunFlush "nat list" "nat set" | RunDeliver "nat list" "goerr option" | RunCheck

text \<open>The system: the coordinator; for every flusher the writes in its memtable and those in the object store; callers between the two
  sections of \<^verbatim>\<open>flush\<close>; the waiters enqueued so far with their flusher; runners as (flusher, state, phase); the answers sent. \<open>fs_flusherOf\<close>
  remembers the flusher a state was made for.\<close>

record 'f flush_sys =
  fs_group :: "'f flushGroup"
  fs_mem :: "'f \<Rightarrow> nat set"
  fs_durable :: "'f \<Rightarrow> nat set"
  fs_calling :: "nat \<rightharpoonup> 'f \<times> nat"
  fs_enqueued :: "nat \<rightharpoonup> 'f"
  fs_runners :: "('f \<times> nat \<times> run_phase) list"
  fs_answer :: "nat \<rightharpoonup> goerr option"
  fs_flusherOf :: "nat \<rightharpoonup> 'f"

definition fg_init :: "'f flush_sys" where
  "fg_init = \<lparr>fs_group = \<lparr>fg_states = Map.empty, fg_heap = (\<lambda>_. \<lparr>st_flushing = False, st_pending = []\<rparr>), fg_next = 0\<rparr>,
     fs_mem = (\<lambda>_. {}), fs_durable = (\<lambda>_. {}), fs_calling = Map.empty, fs_enqueued = Map.empty, fs_runners = [], fs_answer = Map.empty,
     fs_flusherOf = Map.empty\<rparr>"

text \<open>A flush that succeeds makes durable at least what the memtable held when it started.\<close>

inductive runner_step :: "'f flush_sys \<Rightarrow> 'f flush_sys \<Rightarrow> bool" where
  snapshot: "fs_runners g = xs @ (f, p, RunStart) # ys \<Longrightarrow> run_snapshot p (fs_group g) = (batch, gr) \<Longrightarrow>
    runner_step g (g\<lparr>fs_group := gr, fs_runners := xs @ (f, p, RunSnap batch) # ys\<rparr>)"
| begin_flush: "fs_runners g = xs @ (f, p, RunSnap batch) # ys \<Longrightarrow>
    runner_step g (g\<lparr>fs_runners := xs @ (f, p, RunFlush batch (fs_mem g f)) # ys\<rparr>)"
| end_flush: "fs_runners g = xs @ (f, p, RunFlush batch saw) # ys \<Longrightarrow>
    runner_step g (g\<lparr>fs_durable := (if err = None then (fs_durable g)(f := fs_durable g f \<union> saw) else fs_durable g),
      fs_runners := xs @ (f, p, RunDeliver batch err) # ys\<rparr>)"
| deliver: "fs_runners g = xs @ (f, p, RunDeliver (ch # batch) err) # ys \<Longrightarrow>
    runner_step g (g\<lparr>fs_answer := (fs_answer g)(ch \<mapsto> err), fs_runners := xs @ (f, p, RunDeliver batch err) # ys\<rparr>)"
| delivered: "fs_runners g = xs @ (f, p, RunDeliver [] err) # ys \<Longrightarrow> runner_step g (g\<lparr>fs_runners := xs @ (f, p, RunCheck) # ys\<rparr>)"
| go_on: "fs_runners g = xs @ (f, p, RunCheck) # ys \<Longrightarrow> run_check p (fs_group g) = (True, gr) \<Longrightarrow>
    runner_step g (g\<lparr>fs_group := gr, fs_runners := xs @ (f, p, RunStart) # ys\<rparr>)"
| quit: "fs_runners g = xs @ (f, p, RunCheck) # ys \<Longrightarrow> run_check p (fs_group g) = (False, gr) \<Longrightarrow>
    runner_step g (g\<lparr>fs_group := gr, fs_runners := xs @ ys\<rparr>)"

text \<open>The steps of the whole: a commit into a memtable, the two sections of \<^verbatim>\<open>flush\<close>, a runner, an unmount.\<close>

inductive fg_step :: "'f flush_sys \<Rightarrow> 'f flush_sys \<Rightarrow> bool" where
  commit: "fg_step g (g\<lparr>fs_mem := (fs_mem g)(f := insert ch (fs_mem g f))\<rparr>)"
| lookup: "ch \<in> fs_mem g f \<Longrightarrow> fs_calling g ch = None \<Longrightarrow> fs_enqueued g ch = None \<Longrightarrow> flush_lookup f (fs_group g) = (p, gr) \<Longrightarrow>
    fg_step g (g\<lparr>fs_group := gr, fs_calling := (fs_calling g)(ch \<mapsto> (f, p)), fs_flusherOf := (fs_flusherOf g)(p \<mapsto> f)\<rparr>)"
| enqueue: "fs_calling g ch = Some (f, p) \<Longrightarrow> flush_enqueue p ch (fs_group g) = (spawn, gr) \<Longrightarrow>
    fg_step g (g\<lparr>fs_group := gr, fs_calling := (fs_calling g)(ch := None), fs_enqueued := (fs_enqueued g)(ch \<mapsto> f),
      fs_runners := fs_runners g @ (if spawn then [(f, p, RunStart)] else [])\<rparr>)"
| runner: "runner_step g g' \<Longrightarrow> fg_step g g'"
| unmount: "fg_step g (g\<lparr>fs_group := forget fl (fs_group g)\<rparr>)"

inductive fg_reach :: "'f flush_sys \<Rightarrow> bool" where
  init: "fg_reach fg_init"
| step: "fg_reach g \<Longrightarrow> fg_step g g' \<Longrightarrow> fg_reach g'"

section \<open>The invariant\<close>

text \<open>Where a runner stands, what it has for its waiters.\<close>

fun phase_ok :: "nat set \<Rightarrow> nat set \<Rightarrow> run_phase \<Rightarrow> bool" where
  "phase_ok mem durable RunStart \<longleftrightarrow> True"
| "phase_ok mem durable (RunSnap batch) \<longleftrightarrow> set batch \<subseteq> mem"
| "phase_ok mem durable (RunFlush batch saw) \<longleftrightarrow> set batch \<subseteq> saw"
| "phase_ok mem durable (RunDeliver batch err) \<longleftrightarrow> err = None \<longrightarrow> set batch \<subseteq> durable"
| "phase_ok mem durable RunCheck \<longleftrightarrow> True"

fun phase_batch :: "run_phase \<Rightarrow> nat list" where
  "phase_batch (RunSnap batch) = batch"
| "phase_batch (RunFlush batch saw) = batch"
| "phase_batch (RunDeliver batch err) = batch"
| "phase_batch RunStart = []"
| "phase_batch RunCheck = []"

abbreviation pending_at :: "'f flush_sys \<Rightarrow> nat \<Rightarrow> nat list" where
  "pending_at g p \<equiv> st_pending (fg_heap (fs_group g) p)"

abbreviation flushing_at :: "'f flush_sys \<Rightarrow> nat \<Rightarrow> bool" where
  "flushing_at g p \<equiv> st_flushing (fg_heap (fs_group g) p)"

abbreviation runner_states :: "'f flush_sys \<Rightarrow> nat list" where
  "runner_states g \<equiv> map (\<lambda>(f, p, ph). p) (fs_runners g)"

definition fresh_state :: flushGroupState where
  "fresh_state = \<lparr>st_flushing = False, st_pending = []\<rparr>"

text \<open>States belong to one flusher, and a waiter enqueued on a state has its write in that flusher's memtable.\<close>

definition alloc_inv :: "'f flush_sys \<Rightarrow> bool" where
  "alloc_inv g \<longleftrightarrow>
     (\<forall>f p. fg_states (fs_group g) f = Some p \<longrightarrow> fs_flusherOf g p = Some f) \<and>
     (\<forall>ch f p. fs_calling g ch = Some (f, p) \<longrightarrow> fs_flusherOf g p = Some f \<and> ch \<in> fs_mem g f \<and> fs_enqueued g ch = None) \<and>
     (\<forall>p. fg_next (fs_group g) \<le> p \<longrightarrow> fs_flusherOf g p = None) \<and>
     (\<forall>p. fs_flusherOf g p = None \<longrightarrow> fg_heap (fs_group g) p = fresh_state) \<and>
     (\<forall>f p ph. (f, p, ph) \<in> set (fs_runners g) \<longrightarrow> fs_flusherOf g p = Some f) \<and>
     (\<forall>p ch. ch \<in> set (pending_at g p) \<longrightarrow> (\<exists>f. fs_flusherOf g p = Some f \<and> ch \<in> fs_mem g f \<and> fs_enqueued g ch = Some f))"

text \<open>One runner for a state that is flushing, none for another; and no waiter is left on a state that is not.\<close>

definition single_on :: "nat list \<Rightarrow> (nat \<Rightarrow> flushGroupState) \<Rightarrow> bool" where
  "single_on rs h \<longleftrightarrow> distinct rs \<and> (\<forall>p. st_flushing (h p) = (p \<in> set rs)) \<and> (\<forall>p. st_pending (h p) \<noteq> [] \<longrightarrow> p \<in> set rs)"

abbreviation single_inv :: "'f flush_sys \<Rightarrow> bool" where
  "single_inv g \<equiv> single_on (runner_states g) (fg_heap (fs_group g))"

fun runner_ok :: "('f \<Rightarrow> nat set) \<Rightarrow> ('f \<Rightarrow> nat set) \<Rightarrow> (nat \<rightharpoonup> 'f) \<Rightarrow> 'f \<times> nat \<times> run_phase \<Rightarrow> bool" where
  "runner_ok mem durable enq (f, p, ph) \<longleftrightarrow> phase_ok (mem f) (durable f) ph \<and> list_all (\<lambda>ch. enq ch = Some f) (phase_batch ph)"

definition durable_inv :: "'f flush_sys \<Rightarrow> bool" where
  "durable_inv g \<longleftrightarrow>
     list_all (runner_ok (fs_mem g) (fs_durable g) (fs_enqueued g)) (fs_runners g) \<and>
     (\<forall>ch. fs_enqueued g ch = None \<longrightarrow> fs_answer g ch = None) \<and>
     (\<forall>ch f. fs_answer g ch = Some None \<longrightarrow> fs_enqueued g ch = Some f \<longrightarrow> ch \<in> fs_durable g f)"

fun runner_batch :: "'f \<times> nat \<times> run_phase \<Rightarrow> nat list" where
  "runner_batch (f, p, ph) = phase_batch ph"

text \<open>A waiter without an answer is on a state or in the batch of a runner.\<close>

definition served_inv :: "'f flush_sys \<Rightarrow> bool" where
  "served_inv g \<longleftrightarrow> (\<forall>ch. fs_enqueued g ch \<noteq> None \<longrightarrow> fs_answer g ch = None \<longrightarrow>
     (\<exists>p. ch \<in> set (pending_at g p)) \<or> (\<exists>r\<in>set (fs_runners g). ch \<in> set (runner_batch r)))"

lemmas fg_ops = flush_enqueue_def run_snapshot_def run_check_def forget_def Let_def

lemma fresh_state_fields [simp]: "st_pending fresh_state = []" "st_flushing fresh_state = False"
  by (simp_all add: fresh_state_def)

lemma phase_ok_mono: "phase_ok mem d ph \<Longrightarrow> mem \<subseteq> mem' \<Longrightarrow> d \<subseteq> d' \<Longrightarrow> phase_ok mem' d' ph"
  by (cases ph) auto

lemma flush_lookup_heap:
  assumes "flush_lookup f gr = (p, gr')" and "fg_heap gr (fg_next gr) = fresh_state"
  shows "fg_heap gr' = fg_heap gr"
  using assms by (auto simp: flush_lookup_def fresh_state_def split: option.splits)

lemma alloc_fresh: "alloc_inv g \<Longrightarrow> fg_heap (fs_group g) (fg_next (fs_group g)) = fresh_state"
  by (simp add: alloc_inv_def)

lemma alloc_runner: "runner_step g g' \<Longrightarrow> alloc_inv g \<Longrightarrow> alloc_inv g'"
  by (induction rule: runner_step.induct) (auto simp: alloc_inv_def fg_ops fresh_state_def split: if_splits)

lemma alloc_step: "fg_step g g' \<Longrightarrow> alloc_inv g \<Longrightarrow> alloc_inv g'"
proof (induction rule: fg_step.induct)
  case (commit g f ch)
  have "\<exists>f'. fs_flusherOf g p = Some f' \<and> c \<in> ((fs_mem g)(f := insert ch (fs_mem g f))) f' \<and> fs_enqueued g c = Some f'"
    if "c \<in> set (pending_at g p)" for p c
    using commit that unfolding alloc_inv_def by (metis fun_upd_apply insertCI)
  then show ?case using commit unfolding alloc_inv_def by auto
next
  case (lookup ch g f p gr)
  have heap: "fg_heap gr = fg_heap (fs_group g)"
    using lookup(4) lookup(5) by (auto intro: flush_lookup_heap alloc_fresh)
  have new: "fs_flusherOf g (fg_next (fs_group g)) = None"
    using lookup(5) by (simp add: alloc_inv_def)
  have idle: "(f', fg_next (fs_group g), ph) \<notin> set (fs_runners g)" for f' ph
    using lookup(5) new unfolding alloc_inv_def by (metis option.distinct(1))
  show ?case
  proof (cases "fg_states (fs_group g) f")
    case None
    with lookup(4) have p: "p = fg_next (fs_group g)" and gr: "fg_states gr = (fg_states (fs_group g))(f \<mapsto> p)" "fg_next gr = p + 1"
      by (auto simp: flush_lookup_def)
    show ?thesis using lookup(1,3,5) new idle unfolding p [symmetric] alloc_inv_def by (auto simp: heap gr)
  next
    case (Some q)
    with lookup(4,5) have p: "p = q" "gr = fs_group g" and fl: "fs_flusherOf g q = Some f"
      by (auto simp: flush_lookup_def alloc_inv_def)
    then have "(fs_flusherOf g)(p \<mapsto> f) = fs_flusherOf g" by (simp add: fun_upd_idem)
    then show ?thesis using lookup(1,3,5) p fl by (simp add: alloc_inv_def)
  qed
next
  case (enqueue g ch f p spawn gr)
  from enqueue(1,3) have at_p: "fs_flusherOf g p = Some f" "ch \<in> fs_mem g f" "fs_enqueued g ch = None"
    by (auto simp: alloc_inv_def)
  have gr: "fg_states gr = fg_states (fs_group g)" "fg_next gr = fg_next (fs_group g)"
    "st_pending (fg_heap gr q) = (if q = p then pending_at g p @ [ch] else pending_at g q)"
    "q \<noteq> p \<Longrightarrow> fg_heap gr q = fg_heap (fs_group g) q" for q
    using enqueue(2) by (auto simp: flush_enqueue_def Let_def)
  have pend: "\<exists>f'. fs_flusherOf g q = Some f' \<and> c \<in> fs_mem g f' \<and> ((fs_enqueued g)(ch \<mapsto> f)) c = Some f'"
    if "c \<in> set (st_pending (fg_heap gr q))" for q c
  proof (cases "q = p \<and> c = ch")
    case True
    with at_p show ?thesis by simp
  next
    case False
    with that have "c \<in> set (pending_at g q)" by (auto simp: gr split: if_splits)
    then show ?thesis using enqueue(3) at_p unfolding alloc_inv_def by (metis fun_upd_other option.distinct(1))
  qed
  have fresh: "fg_heap gr q = fresh_state" if "fs_flusherOf g q = None" for q
    using enqueue(3) at_p that gr(4) [of q] unfolding alloc_inv_def by fastforce
  show ?case using enqueue(1,3) at_p pend fresh unfolding alloc_inv_def by (auto simp: gr(1,2) split: if_splits)
next
  case (unmount g fl)
  then show ?case by (auto simp: alloc_inv_def forget_def split: option.splits)
qed (rule alloc_runner)

lemma single_enqueue:
  assumes "single_on rs (fg_heap gr)" and "flush_enqueue p ch gr = (spawn, gr')"
  shows "single_on (rs @ (if spawn then [p] else [])) (fg_heap gr')"
  using assms by (auto simp: single_on_def flush_enqueue_def Let_def split: if_splits)

lemma single_snapshot: "single_on rs (fg_heap gr) \<Longrightarrow> run_snapshot p gr = (batch, gr') \<Longrightarrow> single_on rs (fg_heap gr')"
  by (auto simp: single_on_def run_snapshot_def Let_def split: if_splits)

lemma single_quit:
  "single_on (xs @ p # ys) (fg_heap gr) \<Longrightarrow> run_check p gr = (go, gr') \<Longrightarrow> single_on (if go then xs @ p # ys else xs @ ys) (fg_heap gr')"
  by (auto simp: single_on_def run_check_def Let_def split: if_splits)

lemma single_runner: "runner_step g g' \<Longrightarrow> alloc_inv g \<Longrightarrow> single_inv g \<Longrightarrow> single_inv g'"
proof (induction rule: runner_step.induct)
  case (snapshot g xs f p ys batch gr)
  from single_snapshot [OF snapshot(4,2)] snapshot(1) show ?case by simp
next
  case (go_on g xs f p ys gr)
  from single_quit [of "map (\<lambda>(f, p, ph). p) xs" p "map (\<lambda>(f, p, ph). p) ys", OF _ go_on(2)] go_on(1,4) show ?case by simp
next
  case (quit g xs f p ys gr)
  from single_quit [of "map (\<lambda>(f, p, ph). p) xs" p "map (\<lambda>(f, p, ph). p) ys", OF _ quit(2)] quit(1,4) show ?case by simp
qed simp_all

lemma single_step: "fg_step g g' \<Longrightarrow> alloc_inv g \<Longrightarrow> single_inv g \<Longrightarrow> single_inv g'"
proof (induction rule: fg_step.induct)
  case (lookup ch g f p gr)
  have "fg_heap gr = fg_heap (fs_group g)"
    using lookup(4) lookup(5) by (auto intro: flush_lookup_heap alloc_fresh)
  then show ?case using lookup(6) by simp
next
  case (enqueue g ch f p spawn gr)
  from single_enqueue [OF enqueue(4,2)] show ?case by (simp split: if_splits)
next
  case (unmount g fl)
  then show ?case by (simp add: forget_def split: option.splits)
qed (simp, rule single_runner)

lemma runners_ok_mono:
  assumes "list_all (runner_ok m d e) rs" and "\<And>f. m f \<subseteq> m' f" and "\<And>f. d f \<subseteq> d' f" and "\<And>ch f. e ch = Some f \<Longrightarrow> e' ch = Some f"
  shows "list_all (runner_ok m' d' e') rs"
  using assms(1)
proof (induction rs)
  case (Cons r rs)
  obtain f p ph where r: "r = (f, p, ph)" by (rule prod_cases3)
  have "phase_ok (m f) (d f) ph \<Longrightarrow> phase_ok (m' f) (d' f) ph" by (rule phase_ok_mono [OF _ assms(2,3)])
  with Cons r show ?case using assms(4) by (auto simp: list_all_iff)
qed simp

lemma durableD:
  assumes "durable_inv g"
  shows "list_all (runner_ok (fs_mem g) (fs_durable g) (fs_enqueued g)) (fs_runners g)"
    and "fs_enqueued g ch = None \<Longrightarrow> fs_answer g ch = None"
    and "fs_answer g ch = Some None \<Longrightarrow> fs_enqueued g ch = Some f \<Longrightarrow> ch \<in> fs_durable g f"
  using assms unfolding durable_inv_def by blast+

lemma durableI:
  assumes "list_all (runner_ok (fs_mem g) (fs_durable g) (fs_enqueued g)) (fs_runners g)"
    and "\<And>ch. fs_enqueued g ch = None \<Longrightarrow> fs_answer g ch = None"
    and "\<And>ch f. fs_answer g ch = Some None \<Longrightarrow> fs_enqueued g ch = Some f \<Longrightarrow> ch \<in> fs_durable g f"
  shows "durable_inv g"
  unfolding durable_inv_def by (intro conjI allI impI) (fact assms)+

lemma durable_enqueue:
  assumes "alloc_inv g" and d: "durable_inv g" and "fs_calling g ch = Some (f, p)"
  shows "durable_inv (g\<lparr>fs_group := gr, fs_calling := cs, fs_enqueued := (fs_enqueued g)(ch \<mapsto> f),
           fs_runners := fs_runners g @ (if spawn then [(f, p, RunStart)] else [])\<rparr>)"
proof -
  have new: "fs_enqueued g ch = None" using assms(1,3) by (auto simp: alloc_inv_def)
  with d have none: "fs_answer g ch = None" by (rule durableD(2))
  have "list_all (runner_ok (fs_mem g) (fs_durable g) ((fs_enqueued g)(ch \<mapsto> f))) (fs_runners g)"
    by (rule runners_ok_mono [OF durableD(1) [OF d]]) (use new in \<open>auto split: if_splits\<close>)
  then show ?thesis
    by (intro durableI) (auto simp: none split: if_splits dest: durableD(2,3) [OF d])
qed

lemma durable_runner: "runner_step g g' \<Longrightarrow> alloc_inv g \<Longrightarrow> durable_inv g \<Longrightarrow> durable_inv g'"
proof (induction rule: runner_step.induct)
  case (snapshot g xs f p ys batch gr)
  have "fs_flusherOf g p = Some f" using snapshot(1,3) unfolding alloc_inv_def by (metis in_set_conv_decomp)
  moreover have "batch = pending_at g p" using snapshot(2) by (simp add: run_snapshot_def Let_def)
  ultimately have "set batch \<subseteq> fs_mem g f" "list_all (\<lambda>ch. fs_enqueued g ch = Some f) batch"
    using snapshot(3) unfolding alloc_inv_def list_all_iff by fastforce+
  with snapshot show ?case by (simp add: durable_inv_def)
next
  case (end_flush g xs f p batch saw ys err)
  let ?d = "if err = None then (fs_durable g)(f := fs_durable g f \<union> saw) else fs_durable g"
  have grows: "fs_durable g f' \<subseteq> ?d f'" for f' by simp
  have "list_all (runner_ok (fs_mem g) ?d (fs_enqueued g)) (fs_runners g)"
    by (rule runners_ok_mono [OF durableD(1) [OF end_flush(3)] _ grows]) auto
  with end_flush(1) have "list_all (runner_ok (fs_mem g) ?d (fs_enqueued g)) (xs @ (f, p, RunDeliver batch err) # ys)" by auto
  moreover have "ch \<in> ?d f'" if "fs_answer g ch = Some None" "fs_enqueued g ch = Some f'" for ch f'
    using durableD(3) [OF end_flush(3) that] grows [of f'] by (rule rev_subsetD)
  ultimately show ?case unfolding durable_inv_def using durableD(2) [OF end_flush(3)] by simp
next
  case (deliver g xs f p ch batch err ys)
  have "fs_enqueued g ch = Some f" "err = None \<Longrightarrow> ch \<in> fs_durable g f"
    using durableD(1) [OF deliver(3)] by (auto simp: deliver(1))
  then show ?case using durableD [OF deliver(3)] deliver(1) by (intro durableI) (auto split: if_splits)
qed (simp_all add: durable_inv_def)

lemma durable_step: "fg_step g g' \<Longrightarrow> alloc_inv g \<Longrightarrow> durable_inv g \<Longrightarrow> durable_inv g'"
proof (induction rule: fg_step.induct)
  case (commit g f ch)
  have "list_all (runner_ok ((fs_mem g)(f := insert ch (fs_mem g f))) (fs_durable g) (fs_enqueued g)) (fs_runners g)"
    by (rule runners_ok_mono [OF durableD(1) [OF commit(2)]]) auto
  with commit show ?case by (simp add: durable_inv_def)
next
  case (enqueue g ch f p spawn gr)
  then show ?case by (intro durable_enqueue)
next
  case (unmount g fl)
  then show ?case by (simp add: durable_inv_def)
qed (simp add: durable_inv_def, rule durable_runner)

lemma enqueue_pending: "flush_enqueue p ch gr = (spawn, gr') \<Longrightarrow>
    st_pending (fg_heap gr' q) = (if q = p then st_pending (fg_heap gr p) @ [ch] else st_pending (fg_heap gr q))"
  by (auto simp: flush_enqueue_def Let_def)

lemma snapshot_pending: "run_snapshot p gr = (batch, gr') \<Longrightarrow>
    st_pending (fg_heap gr q) = (if q = p then batch else st_pending (fg_heap gr' q))"
  by (auto simp: run_snapshot_def Let_def)

lemma check_pending: "run_check p gr = (go, gr') \<Longrightarrow> st_pending (fg_heap gr' q) = st_pending (fg_heap gr q)"
  by (auto simp: run_check_def Let_def split: if_splits)

lemma served_runner: "runner_step g g' \<Longrightarrow> alloc_inv g \<Longrightarrow> served_inv g \<Longrightarrow> served_inv g'"
proof (induction rule: runner_step.induct)
  case (snapshot g xs f p ys batch gr)
  have "c \<in> set (pending_at g q) \<Longrightarrow> c \<in> set batch \<or> c \<in> set (st_pending (fg_heap gr q))" for c q
    by (auto simp: snapshot_pending [OF snapshot(2)] split: if_splits)
  with snapshot(1,4) show ?case by (fastforce simp: served_inv_def)
next
  case (go_on g xs f p ys gr)
  then show ?case by (auto simp: served_inv_def check_pending [OF go_on(2)])
next
  case (quit g xs f p ys gr)
  then show ?case by (auto simp: served_inv_def check_pending [OF quit(2)])
qed (auto simp: served_inv_def)

lemma served_step: "fg_step g g' \<Longrightarrow> alloc_inv g \<Longrightarrow> served_inv g \<Longrightarrow> served_inv g'"
proof (induction rule: fg_step.induct)
  case (lookup ch g f p gr)
  have "fg_heap gr = fg_heap (fs_group g)"
    using lookup(4) lookup(5) by (auto intro: flush_lookup_heap alloc_fresh)
  then show ?case using lookup(6) by (simp add: served_inv_def)
next
  case (enqueue g ch f p spawn gr)
  have "ch \<in> set (st_pending (fg_heap gr p))" by (simp add: enqueue_pending [OF enqueue(2)])
  moreover have "c \<in> set (pending_at g q) \<Longrightarrow> c \<in> set (st_pending (fg_heap gr q))" for c q
    by (auto simp: enqueue_pending [OF enqueue(2)])
  ultimately show ?case using enqueue(4) by (fastforce simp: served_inv_def split: if_splits)
next
  case (unmount g fl)
  then show ?case by (simp add: served_inv_def forget_def split: option.splits)
qed (simp add: served_inv_def, rule served_runner)

text \<open>A runner at the start of a round has somebody to flush for.\<close>

definition start_on :: "(nat \<Rightarrow> flushGroupState) \<Rightarrow> ('f \<times> nat \<times> run_phase) list \<Rightarrow> bool" where
  "start_on h rs \<longleftrightarrow> list_all (\<lambda>(f, p, ph). ph = RunStart \<longrightarrow> st_pending (h p) \<noteq> []) rs"

abbreviation start_inv :: "'f flush_sys \<Rightarrow> bool" where
  "start_inv g \<equiv> start_on (fg_heap (fs_group g)) (fs_runners g)"

lemma start_on_mono: "start_on h rs \<Longrightarrow> (\<And>f p ph. (f, p, ph) \<in> set rs \<Longrightarrow> st_pending (h p) \<noteq> [] \<Longrightarrow> st_pending (h' p) \<noteq> []) \<Longrightarrow> start_on h' rs"
  by (fastforce simp: start_on_def list_all_iff)

lemma single_others:
  assumes "single_inv g" and "fs_runners g = xs @ (f, p, ph) # ys" and "(f', p', ph') \<in> set (xs @ ys)"
  shows "p' \<noteq> p"
proof -
  have "p' \<in> set (map (\<lambda>(f, p, ph). p) (xs @ ys))" using assms(3) by (auto intro: rev_image_eqI)
  moreover have "p \<notin> set (map (\<lambda>(f, p, ph). p) (xs @ ys))" using assms(1,2) unfolding single_on_def by simp
  ultimately show ?thesis by metis
qed

lemma start_runner: "runner_step g g' \<Longrightarrow> single_inv g \<Longrightarrow> start_inv g \<Longrightarrow> start_inv g'"
proof (induction rule: runner_step.induct)
  case (snapshot g xs f p ys batch gr)
  have "start_on (fg_heap gr) (xs @ ys)"
  proof (rule start_on_mono)
    show "start_on (fg_heap (fs_group g)) (xs @ ys)" using snapshot(1,4) by (simp add: start_on_def)
    show "st_pending (fg_heap gr p') \<noteq> []" if "(f', p', ph') \<in> set (xs @ ys)" "pending_at g p' \<noteq> []" for f' p' ph'
      using single_others [OF snapshot(3,1) that(1)] that(2) snapshot_pending [OF snapshot(2), of p'] by simp
  qed
  then show ?case by (simp add: start_on_def)
next
  case (go_on g xs f p ys gr)
  then show ?case by (auto simp: start_on_def run_check_def Let_def split: if_splits)
next
  case (quit g xs f p ys gr)
  have "start_on (fg_heap gr) (xs @ ys)"
    using quit(1,4) check_pending [OF quit(2)] by (simp add: start_on_def)
  then show ?case by simp
qed (auto simp: start_on_def)

lemma start_step: "fg_step g g' \<Longrightarrow> alloc_inv g \<Longrightarrow> single_inv g \<Longrightarrow> start_inv g \<Longrightarrow> start_inv g'"
proof (induction rule: fg_step.induct)
  case (lookup ch g f p gr)
  have "fg_heap gr = fg_heap (fs_group g)"
    using lookup(4) lookup(5) by (auto intro: flush_lookup_heap alloc_fresh)
  then show ?case using lookup(7) by simp
next
  case (enqueue g ch f p spawn gr)
  have "start_on (fg_heap gr) (fs_runners g)"
    by (rule start_on_mono [OF enqueue(5)]) (simp add: enqueue_pending [OF enqueue(2)])
  moreover have "st_pending (fg_heap gr p) \<noteq> []" by (simp add: enqueue_pending [OF enqueue(2)])
  ultimately show ?case by (simp add: start_on_def)
next
  case (unmount g fl)
  then show ?case by (simp add: forget_def split: option.splits)
qed (simp, rule start_runner)

lemma fg_reach_inv: "fg_reach g \<Longrightarrow> alloc_inv g \<and> single_inv g \<and> durable_inv g \<and> served_inv g \<and> start_inv g"
proof (induction rule: fg_reach.induct)
  case init
  show ?case by (simp add: fg_init_def alloc_inv_def single_on_def durable_inv_def served_inv_def start_on_def fresh_state_def)
next
  case (step g g')
  then show ?case by (blast intro: alloc_step single_step durable_step served_step start_step)
qed

section \<open>The runners come to an end\<close>

fun phase_cost :: "run_phase \<Rightarrow> nat" where
  "phase_cost RunStart = 0"
| "phase_cost (RunSnap batch) = 4 + length batch"
| "phase_cost (RunFlush batch saw) = 3 + length batch"
| "phase_cost (RunDeliver batch err) = 2 + length batch"
| "phase_cost RunCheck = 1"

definition cost_on :: "(nat \<Rightarrow> flushGroupState) \<Rightarrow> ('f \<times> nat \<times> run_phase) list \<Rightarrow> nat" where
  "cost_on h rs = sum_list (map (\<lambda>(f, p, ph). phase_cost ph + 6 * length (st_pending (h p))) rs)"

text \<open>The work the runners have left when nobody else enqueues: six steps a waiter.\<close>

definition run_cost :: "'f flush_sys \<Rightarrow> nat" where
  "run_cost g = cost_on (fg_heap (fs_group g)) (fs_runners g)"

lemma cost_on_simps [simp]:
  "cost_on h (xs @ ys) = cost_on h xs + cost_on h ys"
  "cost_on h ((f, p, ph) # ys) = phase_cost ph + 6 * length (st_pending (h p)) + cost_on h ys"
  by (simp_all add: cost_on_def)

lemma cost_on_cong: "(\<And>f p ph. (f, p, ph) \<in> set rs \<Longrightarrow> st_pending (h' p) = st_pending (h p)) \<Longrightarrow> cost_on h' rs = cost_on h rs"
  unfolding cost_on_def by (intro arg_cong [where f = sum_list] map_cong) auto

lemma runner_cost: "runner_step g g' \<Longrightarrow> single_inv g \<Longrightarrow> start_inv g \<Longrightarrow> run_cost g' < run_cost g"
proof (induction rule: runner_step.induct)
  case (snapshot g xs f p ys batch gr)
  have rest: "st_pending (fg_heap gr q) = pending_at g q" if "(f', q, ph') \<in> set (xs @ ys)" for f' q ph'
    using single_others [OF snapshot(3,1) that] snapshot_pending [OF snapshot(2), of q] by simp
  have "cost_on (fg_heap gr) xs = cost_on (fg_heap (fs_group g)) xs" "cost_on (fg_heap gr) ys = cost_on (fg_heap (fs_group g)) ys"
    by (auto intro!: cost_on_cong intro: rest)
  moreover have "st_pending (fg_heap gr p) = []" "batch = pending_at g p"
    using snapshot(2) by (auto simp: run_snapshot_def Let_def)
  moreover have "length (pending_at g p) \<ge> 1" using snapshot(1,4) by (simp add: start_on_def Suc_le_eq)
  ultimately show ?case by (simp add: run_cost_def snapshot(1) del: length_greater_0_conv One_nat_def)
next
  case (go_on g xs f p ys gr)
  then show ?case by (auto simp: run_cost_def run_check_def Let_def split: if_splits)
next
  case (quit g xs f p ys gr)
  have "cost_on (fg_heap gr) rs = cost_on (fg_heap (fs_group g)) rs" for rs :: "('a \<times> nat \<times> run_phase) list"
    by (rule cost_on_cong) (rule check_pending [OF quit(2)])
  then show ?case by (simp add: run_cost_def quit(1))
qed (simp_all add: run_cost_def)

lemma runner_reach: "fg_reach g \<Longrightarrow> (runner_step ^^ n) g g' \<Longrightarrow> fg_reach g' \<and> n + run_cost g' \<le> run_cost g"
proof (induction n arbitrary: g')
  case (Suc n)
  then obtain g1 where g1: "(runner_step ^^ n) g g1" and st: "runner_step g1 g'" by auto
  from Suc.IH [OF Suc.prems(1) g1] have r: "fg_reach g1" and c: "n + run_cost g1 \<le> run_cost g" by auto
  from fg_reach.step [OF r fg_step.runner [OF st]] runner_cost [OF st] fg_reach_inv [OF r] c show ?case by auto
qed simp

lemma runner_enqueued: "(runner_step ^^ n) g g' \<Longrightarrow> fs_enqueued g' = fs_enqueued g"
proof (induction n arbitrary: g')
  case (Suc n)
  then obtain g1 where "fs_enqueued g1 = fs_enqueued g" and "runner_step g1 g'" by auto
  then show ?case by (auto elim: runner_step.cases)
qed simp

text \<open>The head runner can always go on; \<open>err\<close> is what its flush returns, if that is what it does next.\<close>

definition run_one :: "goerr option \<Rightarrow> 'f flush_sys \<Rightarrow> 'f flush_sys" where
  "run_one err g =
     (case fs_runners g of
        [] \<Rightarrow> g
      | (f, p, ph) # ys \<Rightarrow>
          (case ph of
             RunStart \<Rightarrow> (case run_snapshot p (fs_group g) of (batch, gr) \<Rightarrow> g\<lparr>fs_group := gr, fs_runners := (f, p, RunSnap batch) # ys\<rparr>)
           | RunSnap batch \<Rightarrow> g\<lparr>fs_runners := (f, p, RunFlush batch (fs_mem g f)) # ys\<rparr>
           | RunFlush batch saw \<Rightarrow>
               g\<lparr>fs_durable := (if err = None then (fs_durable g)(f := fs_durable g f \<union> saw) else fs_durable g),
                 fs_runners := (f, p, RunDeliver batch err) # ys\<rparr>
           | RunDeliver batch e \<Rightarrow>
               (case batch of
                  [] \<Rightarrow> g\<lparr>fs_runners := (f, p, RunCheck) # ys\<rparr>
                | ch # batch \<Rightarrow> g\<lparr>fs_answer := (fs_answer g)(ch \<mapsto> e), fs_runners := (f, p, RunDeliver batch e) # ys\<rparr>)
           | RunCheck \<Rightarrow>
               (case run_check p (fs_group g) of
                  (True, gr) \<Rightarrow> g\<lparr>fs_group := gr, fs_runners := (f, p, RunStart) # ys\<rparr>
                | (False, gr) \<Rightarrow> g\<lparr>fs_group := gr, fs_runners := ys\<rparr>)))"

lemma run_one_step:
  assumes "fs_runners g \<noteq> []"
  shows "runner_step g (run_one err g)"
proof -
  from assms obtain f p ph ys where rs: "fs_runners g = [] @ (f, p, ph) # ys" by (cases "fs_runners g") auto
  show ?thesis
  proof (cases ph)
    case RunStart
    obtain batch gr where "run_snapshot p (fs_group g) = (batch, gr)" by (rule prod.exhaust)
    with rs RunStart show ?thesis using runner_step.snapshot [of g "[]" f p ys batch gr] by (simp add: run_one_def)
  next
    case (RunDeliver batch e)
    with rs show ?thesis using runner_step.deliver [of g "[]" f p] runner_step.delivered [of g "[]" f p]
      by (auto simp: run_one_def split: list.splits)
  next
    case RunCheck
    obtain go gr where "run_check p (fs_group g) = (go, gr)" by (rule prod.exhaust)
    with rs RunCheck show ?thesis using runner_step.go_on [of g "[]" f p ys gr] runner_step.quit [of g "[]" f p ys gr]
      by (cases go) (simp_all add: run_one_def)
  next
    case (RunSnap batch)
    with rs show ?thesis using runner_step.begin_flush [of g "[]" f p batch ys] by (simp add: run_one_def)
  next
    case (RunFlush batch saw)
    with rs show ?thesis using runner_step.end_flush [of g "[]" f p batch saw ys err] by (simp add: run_one_def)
  qed
qed

lemma idle_all_answered:
  assumes "fg_reach g" and "fs_runners g = []" and "fs_enqueued g ch \<noteq> None"
  shows "fs_answer g ch \<noteq> None"
proof -
  from fg_reach_inv [OF assms(1)] have "single_inv g" "served_inv g" by auto
  then have "pending_at g p = []" for p using assms(2) by (auto simp: single_on_def)
  with \<open>served_inv g\<close> assms(2,3) show ?thesis by (auto simp: served_inv_def)
qed

section \<open>What the group commit promises\<close>

text \<open>A client whose write is in the memtable, up to the point where it waits.\<close>

definition client_flush :: "'f \<Rightarrow> nat \<Rightarrow> 'f flush_sys \<Rightarrow> 'f flush_sys" where
  "client_flush f ch g =
     (let g = g\<lparr>fs_mem := (fs_mem g)(f := insert ch (fs_mem g f))\<rparr>;
          (p, gr) = flush_lookup f (fs_group g);
          g = g\<lparr>fs_group := gr, fs_calling := (fs_calling g)(ch \<mapsto> (f, p)), fs_flusherOf := (fs_flusherOf g)(p \<mapsto> f)\<rparr>;
          (spawn, gr) = flush_enqueue p ch (fs_group g)
      in g\<lparr>fs_group := gr, fs_calling := (fs_calling g)(ch := None), fs_enqueued := (fs_enqueued g)(ch \<mapsto> f),
           fs_runners := fs_runners g @ (if spawn then [(f, p, RunStart)] else [])\<rparr>)"

lemma client_flush_reach:
  assumes "fg_reach g" and "fs_calling g ch = None" and "fs_enqueued g ch = None"
  shows "fg_reach (client_flush f ch g)"
proof -
  let ?g1 = "g\<lparr>fs_mem := (fs_mem g)(f := insert ch (fs_mem g f))\<rparr>"
  obtain p gr where lk: "flush_lookup f (fs_group ?g1) = (p, gr)" by (rule prod.exhaust)
  let ?g2 = "?g1\<lparr>fs_group := gr, fs_calling := (fs_calling ?g1)(ch \<mapsto> (f, p)), fs_flusherOf := (fs_flusherOf ?g1)(p \<mapsto> f)\<rparr>"
  obtain spawn gr' where en: "flush_enqueue p ch (fs_group ?g2) = (spawn, gr')" by (rule prod.exhaust)
  have "fg_reach ?g1" by (rule fg_reach.step [OF assms(1) fg_step.commit])
  then have "fg_reach ?g2" by (rule fg_reach.step) (use fg_step.lookup [of ch ?g1 f p gr] assms(2,3) lk in simp)
  then show ?thesis
    by (rule fg_reach.step) (use fg_step.enqueue [of ?g2 ch f p spawn gr'] lk en in \<open>simp add: client_flush_def\<close>)
qed

text \<open>Two clients on unit \<open>0\<close> and one on unit \<open>1\<close>: the third waits on a runner of its own.\<close>

definition demo_waiting :: "nat flush_sys" where
  "demo_waiting = client_flush 1 9 (client_flush 0 8 (client_flush 0 7 fg_init))"

lemmas run_defs = demo_waiting_def client_flush_def fg_init_def flush_lookup_def flush_enqueue_def run_one_def run_snapshot_def run_check_def Let_def

lemma demo_waiting_reach: "fg_reach demo_waiting"
  unfolding demo_waiting_def
  by (intro client_flush_reach fg_reach.init) (simp_all add: run_defs)

lemma relpowp_run_one:
  "(runner_step ^^ n) g g' \<Longrightarrow> fs_runners g' \<noteq> [] \<Longrightarrow> (runner_step ^^ Suc n) g (run_one err g')"
  by (rule relpowp_Suc_I) (auto intro: run_one_step)

definition demo_flushed :: "nat flush_sys" where
  "demo_flushed = (run_one None ^^ 5) demo_waiting"

lemma demo_flushed_steps: "(runner_step ^^ 5) demo_waiting demo_flushed"
proof -
  have "(runner_step ^^ Suc (Suc (Suc (Suc (Suc 0))))) demo_waiting (run_one None (run_one None (run_one None (run_one None (run_one None demo_waiting)))))"
    by (intro relpowp_run_one) (simp_all add: run_defs)
  then show ?thesis by (simp add: demo_flushed_def eval_nat_numeral)
qed

text \<open>C6: Group commit keeps every write's durability. In every interleaving of commits, callers, runners and unmounts, a caller of
  \<^verbatim>\<open>flush\<close> that got no error had its write, which it committed before the call, made durable in the object store of its own unit, by the
  flush it was answered from; and a state never has two runners.
\<close>
theorem flush_answers_are_durable:
  assumes "fg_reach g"
  shows "(fs_answer g ch = Some None \<longrightarrow> (\<exists>f. fs_enqueued g ch = Some f \<and> ch \<in> fs_durable g f)) \<and>
    distinct (map (\<lambda>(f, p, ph). p) (fs_runners g))"
proof -
  from fg_reach_inv [OF assms] have inv: "durable_inv g" "single_inv g" by auto
  have "\<exists>f. fs_enqueued g ch = Some f \<and> ch \<in> fs_durable g f" if "fs_answer g ch = Some None"
    using durableD(2,3) [OF inv(1), of ch] that by (cases "fs_enqueued g ch") auto
  moreover have "distinct (map (\<lambda>(f, p, ph). p) (fs_runners g))" using inv(2) by (simp add: single_on_def)
  ultimately show ?thesis by blast
qed

lemma demo_flushed_reach: "fg_reach demo_flushed"
  using runner_reach [OF demo_waiting_reach demo_flushed_steps] by simp

lemma demo_flushed_answers: "fs_answer demo_flushed 8 = Some None" "fs_enqueued demo_flushed 8 = Some 0"
  by (simp_all add: demo_flushed_def eval_nat_numeral run_defs)

theorem flush_answers_are_durable_witness: "fs_answer demo_flushed 8 = Some None \<and> 8 \<in> fs_durable demo_flushed 0"
  using flush_answers_are_durable [OF demo_flushed_reach, of 8] by (simp add: demo_flushed_answers)

text \<open>C7: No waiter is lost. From every reachable state the runners, scheduled in any order and whatever their flushes return, take at
  most \<^const>\<open>run_cost\<close> steps when no further caller arrives; until then one of them can always go on; and when they are done every
  waiter enqueued at the start, on a unit unmounted meanwhile too, has its answer.
\<close>
theorem every_waiter_is_answered:
  assumes "fg_reach g" and "(runner_step ^^ n) g g'"
  shows "n \<le> run_cost g \<and> (fs_runners g' \<noteq> [] \<longrightarrow> (\<forall>err. runner_step g' (run_one err g'))) \<and>
    (fs_runners g' = [] \<longrightarrow> (\<forall>ch. fs_enqueued g ch \<noteq> None \<longrightarrow> fs_answer g' ch \<noteq> None))"
proof -
  from runner_reach [OF assms] have r: "fg_reach g'" and "n \<le> run_cost g" by auto
  moreover have "fs_answer g' ch \<noteq> None" if "fs_runners g' = []" "fs_enqueued g ch \<noteq> None" for ch
    using idle_all_answered [OF r that(1)] that(2) runner_enqueued [OF assms(2)] by simp
  ultimately show ?thesis using run_one_step by blast
qed

theorem every_waiter_is_answered_witness: "5 \<le> run_cost demo_waiting \<and> runner_step demo_flushed (run_one None demo_flushed)"
proof -
  have "fs_runners demo_flushed \<noteq> []" by (simp add: demo_flushed_def eval_nat_numeral run_defs)
  with every_waiter_is_answered [OF demo_waiting_reach demo_flushed_steps] show ?thesis by blast
qed

end
