(* ===== verification/Tombstone_Purge.thy ===== *)
theory Tombstone_Purge
  imports Cas_Commit Pending_Route
begin

text \<open>
  The purge of expired tombstones when a position is mounted (\<^verbatim>\<open>src/pkg/cluster/tombstone_purge.go\<close>): eligibility, the scan, the
  deletion of a key in a transaction of its own, the pass. Other writers act between any two keys (\<open>env\<close>); time is read anew for
  every key (\<open>now\<close>), and so is the closed flag (\<open>closed\<close>).
\<close>

section \<open>Operations\<close>

text \<open>What the mount hook does: start a pass, refuse with a log line once per node, or nothing. \<open>once\<close> says that the line was written.\<close>

datatype purge_start = PurgeStarted | PurgeRefused purge_refusal | PurgeSilent

definition startTombstonePurge :: "int \<Rightarrow> int \<Rightarrow> WriteConsistency \<Rightarrow> bool \<Rightarrow> purge_start \<times> bool" where
  "startTombstonePurge grace r wc once =
     (case TombstonePurge grace r (requiredWriteAcks wc r) of
        None \<Rightarrow> (PurgeStarted, once)
      | Some reason \<Rightarrow> if grace \<noteq> 0 \<and> \<not> once then (PurgeRefused reason, True) else (PurgeSilent, once))"

definition errPurgeStopped :: goerr where
  "errPurgeStopped = PlainError ''stopped by shutdown''"

text \<open>The scan loop; \<open>i\<close> counts its rounds, \<open>n\<close> what was scanned.\<close>

fun collect_expired :: "int \<Rightarrow> u64 \<Rightarrow> (nat \<Rightarrow> bool) \<Rightarrow> bytes list \<Rightarrow> nat \<Rightarrow> kv_list \<Rightarrow> (goerr + bytes list) \<times> nat" where
  "collect_expired grace nowNanos stop keys n [] = (if stop n then (Inl errPurgeStopped, n) else (Inr keys, n))"
| "collect_expired grace nowNanos stop keys n ((k, v) # rest) =
     (if stop n then (Inl errPurgeStopped, n)
      else case Decode v of
          Inl _ \<Rightarrow> collect_expired grace nowNanos stop keys (Suc n) rest
        | Inr env \<Rightarrow>
            if length (ev_Payload env) \<noteq> 0 then collect_expired grace nowNanos stop keys (Suc n) rest
            else if \<not> TombstoneExpired (sp_TimestampNanos (ev_Stamp env)) nowNanos grace
            then collect_expired grace nowNanos stop keys (Suc n) rest
            else collect_expired grace nowNanos stop (keys @ [k]) (Suc n) rest)"

definition collectExpiredTombstones ::
    "('b, 't) backend_ops \<Rightarrow> int \<Rightarrow> u64 \<Rightarrow> (nat \<Rightarrow> bool) \<Rightarrow> 'b \<Rightarrow> (goerr + bytes list) \<times> nat" where
  "collectExpiredTombstones ops grace nowNanos stop b =
     (case bo_ScanPrefix ops [] b of
        Inl e \<Rightarrow> (Inl (BackendErr e), 0)
      | Inr pairs \<Rightarrow> collect_expired grace nowNanos stop [] 0 pairs)"

text \<open>One key, under the unit's pause, \<^verbatim>\<open>applyMu\<close> and \<^verbatim>\<open>casCommitMu\<close>. A rolled-back transaction leaves the store as it was.\<close>

definition purgeOneTombstone :: "('b, 't) backend_ops \<Rightarrow> bytes \<Rightarrow> int \<Rightarrow> u64 \<Rightarrow> 'b \<Rightarrow> backend_error option \<times> 'b" where
  "purgeOneTombstone ops key grace nowNanos b =
     (case bo_Begin ops b of
        Inl e \<Rightarrow> (Some e, b)
      | Inr tx \<Rightarrow>
          (case bo_TxGet ops key tx b of
             Inl e \<Rightarrow> (if e = ErrNotFound then (Some ErrCASConflict, b) else (Some e, b))
           | Inr v \<Rightarrow>
               if (case Decode v of
                     Inl _ \<Rightarrow> True
                   | Inr env \<Rightarrow> length (ev_Payload env) \<noteq> 0 \<or> \<not> TombstoneExpired (sp_TimestampNanos (ev_Stamp env)) nowNanos grace)
               then (Some ErrCASConflict, b)
               else case bo_TxDelete ops key tx of
                   (Some e, _) \<Rightarrow> (Some e, b)
                 | (None, tx) \<Rightarrow> bo_TxCommit ops tx b))"

text \<open>How a pass ends, with the counts its log line reports.\<close>

datatype purge_outcome =
  PurgeNothing
| PurgeScanFailed goerr
| PurgeShutdown nat
| PurgeStopped backend_error nat
| PurgeAborted bytes backend_error nat
| PurgeDone nat nat nat

fun purge_keys ::
    "('b, 't) backend_ops \<Rightarrow> int \<Rightarrow> (nat \<Rightarrow> u64) \<Rightarrow> (nat \<Rightarrow> bool) \<Rightarrow> (nat \<Rightarrow> 'b \<Rightarrow> 'b) \<Rightarrow> nat \<Rightarrow> nat \<Rightarrow> nat \<Rightarrow> nat \<Rightarrow> bytes list \<Rightarrow> 'b \<Rightarrow>
     purge_outcome \<times> 'b" where
  "purge_keys ops grace now closed env scanned i purged skipped [] b = (PurgeDone scanned purged skipped, b)"
| "purge_keys ops grace now closed env scanned i purged skipped (key # keys) b =
     (if closed i then (PurgeShutdown purged, b)
      else case purgeOneTombstone ops key grace (now i) (env i b) of
          (None, b) \<Rightarrow> purge_keys ops grace now closed env scanned (Suc i) (purged + 1) skipped keys b
        | (Some err, b) \<Rightarrow>
            if err = ErrCASConflict then purge_keys ops grace now closed env scanned (Suc i) purged (skipped + 1) keys b
            else if err = ErrFenced \<or> err = ErrClosed then (PurgeStopped err purged, b)
            else (PurgeAborted key err purged, b))"

text \<open>The pass. \<open>turn\<close> says that the node's semaphore was taken before the node closed, \<open>mounted\<close> that the position is still mounted then.\<close>

definition runTombstonePurge ::
    "('b, 't) backend_ops \<Rightarrow> int \<Rightarrow> bool \<Rightarrow> bool \<Rightarrow> u64 \<Rightarrow> (nat \<Rightarrow> bool) \<Rightarrow> (nat \<Rightarrow> u64) \<Rightarrow> (nat \<Rightarrow> bool) \<Rightarrow> (nat \<Rightarrow> 'b \<Rightarrow> 'b) \<Rightarrow> 'b \<Rightarrow>
     purge_outcome \<times> 'b" where
  "runTombstonePurge ops grace turn mounted scanNow stop now closed env b =
     (if \<not> turn then (PurgeNothing, b)
      else if \<not> mounted then (PurgeNothing, b)
      else case collectExpiredTombstones ops grace scanNow stop b of
          (Inl err, scanned) \<Rightarrow> (PurgeScanFailed err, b)
        | (Inr found, scanned) \<Rightarrow>
            if length found = 0 then (PurgeNothing, b)
            else purge_keys ops grace now closed env scanned 0 0 0 found b)"

section \<open>What a pass may do\<close>

text \<open>A tombstone stamped more than \<open>grace\<close> before \<open>now\<close>.\<close>

definition dead_since :: "int \<Rightarrow> u64 \<Rightarrow> bytes \<Rightarrow> bool" where
  "dead_since grace now v \<longleftrightarrow> (\<exists>st. Decode v = Inr (Envelope st []) \<and> int (unat (sp_TimestampNanos st)) + grace < int (unat now))"

text \<open>What a store may go through: a step of somebody else, or the removal of such a tombstone.\<close>

inductive purge_link :: "('b \<Rightarrow> bytes \<rightharpoonup> bytes) \<Rightarrow> ('b \<Rightarrow> bool) \<Rightarrow> (nat \<Rightarrow> 'b \<Rightarrow> 'b) \<Rightarrow> int \<Rightarrow> (nat \<Rightarrow> u64) \<Rightarrow> (bytes \<rightharpoonup> bytes) \<Rightarrow> (bytes \<rightharpoonup> bytes) \<Rightarrow> bool"
  for kv ok env grace now where
  others: "ok b \<Longrightarrow> purge_link kv ok env grace now (kv b) (kv (env i b))"
| removal: "m k = Some v \<Longrightarrow> dead_since grace (now i) v \<Longrightarrow> purge_link kv ok env grace now m (m(k := None))"

lemma TombstoneExpired_older:
  assumes "TombstoneExpired st now grace" "grace \<ge> 0"
  shows "int (unat st) + grace < int (unat now)"
proof -
  from assms have lt: "st < now" and gt: "sint (now - st) > grace" by (auto simp: TombstoneExpired_def split: if_splits)
  have "sint (now - st) < 2 ^ 63" using sint_lt [of "now - st"] by simp
  then have "uint (now - st) = sint (now - st)"
    unfolding uint_sint using gt assms(2) by (simp add: take_bit_int_eq_self)
  moreover have "uint (now - st) = uint now - uint st" using lt by (simp add: uint_sub_lem [THEN iffD1] word_less_def)
  ultimately show ?thesis using gt by simp
qed

lemma removal_invisible:
  assumes "m k = Some v" "dead_since grace now v"
  shows "seen_map True (m(k := None)) = seen_map True m"
  using assms by (auto simp: seen_map_def payload_of_def dead_since_def fun_eq_iff)

context kv_backend
begin

lemma purgeOne_effect:
  assumes "ok b" "grace \<ge> 0" "purgeOneTombstone ops key grace now b = (e, b')"
  shows "ok b' \<and> (if e = None then (\<exists>v. kv b key = Some v \<and> dead_since grace now v) \<and> kv b' = (kv b)(key := None) else b' = b)"
proof (cases "bo_Begin ops b")
  case (Inl e)
  with assms show ?thesis by (auto simp: purgeOneTombstone_def)
next
  case (Inr tx)
  note tx = begin_ok [OF assms(1) Inr]
  show ?thesis
  proof (cases "bo_TxGet ops key tx b")
    case (Inl e)
    with assms Inr show ?thesis by (auto simp: purgeOneTombstone_def split: if_splits)
  next
    case get: (Inr v)
    show ?thesis
    proof (cases "case Decode v of Inl _ \<Rightarrow> True
        | Inr env \<Rightarrow> length (ev_Payload env) \<noteq> 0 \<or> \<not> TombstoneExpired (sp_TimestampNanos (ev_Stamp env)) now grace")
      case True
      with assms Inr get show ?thesis by (auto simp: purgeOneTombstone_def)
    next
      case False
      then obtain st where st: "Decode v = Inr (Envelope st [])" "TombstoneExpired (sp_TimestampNanos st) now grace"
        by (cases "Decode v") (auto, metis Envelope.collapse)
      then have dead: "dead_since grace now v" using TombstoneExpired_older assms(2) by (auto simp: dead_since_def)
      have v: "kv b key = Some v" using txget_ok [OF assms(1) _ get] tx by simp
      obtain de tx' where del: "bo_TxDelete ops key tx = (de, tx')" by (rule prod.exhaust)
      show ?thesis
      proof (cases de)
        case None
        with txdelete_ok [OF assms(1) _, of tx key tx'] del tx have tx': "tok tx'" "view tx' b = (kv b)(key := None)" by auto
        from assms(3) Inr get False del None have "bo_TxCommit ops tx' b = (e, b')" by (simp add: purgeOneTombstone_def)
        then show ?thesis using commit_ok [OF assms(1) tx'(1)] commit_error tx'(2) v dead assms(1) by (cases e) auto
      next
        case (Some d)
        with assms Inr get False del show ?thesis by (auto simp: purgeOneTombstone_def)
      qed
    qed
  qed
qed

lemma purge_keys_links:
  assumes "grace \<ge> 0" and "\<And>i b. ok b \<Longrightarrow> ok (env i b)"
  shows "ok b \<Longrightarrow> purge_keys ops grace now closed env scanned i purged skipped keys b = (out, b') \<Longrightarrow>
    ok b' \<and> (purge_link kv ok env grace now)\<^sup>*\<^sup>* (kv b) (kv b')"
proof (induction keys arbitrary: i purged skipped b)
  case (Cons key keys)
  show ?case
  proof (cases "closed i")
    case False
    obtain e b1 where one: "purgeOneTombstone ops key grace (now i) (env i b) = (e, b1)" by (rule prod.exhaust)
    from purgeOne_effect [OF assms(2) [OF Cons.prems(1)] assms(1) one]
    have eff: "ok b1" "if e = None then (\<exists>v. kv (env i b) key = Some v \<and> dead_since grace (now i) v) \<and> kv b1 = (kv (env i b))(key := None) else b1 = env i b"
      by auto
    have "purge_link kv ok env grace now (kv b) (kv (env i b))" using Cons.prems(1) by (rule purge_link.others)
    moreover have "(purge_link kv ok env grace now)\<^sup>*\<^sup>* (kv (env i b)) (kv b1)"
      using eff(2) by (auto split: if_splits intro: purge_link.removal)
    ultimately have "(purge_link kv ok env grace now)\<^sup>*\<^sup>* (kv b) (kv b1)" by (rule converse_rtranclp_into_rtranclp)
    moreover have "b' = b1 \<or> (\<exists>i' pu sk. purge_keys ops grace now closed env scanned i' pu sk keys b1 = (out, b'))"
      using Cons.prems(2) False one by (auto split: option.splits if_splits)
    ultimately show ?thesis using Cons.IH [OF eff(1)] eff(1) by (metis rtranclp_trans)
  qed (use Cons.prems in auto)
qed auto

end

section \<open>What a pass removes\<close>

text \<open>The values the scan picks.\<close>

definition expired_value :: "int \<Rightarrow> u64 \<Rightarrow> bytes \<Rightarrow> bool" where
  "expired_value grace now v \<longleftrightarrow>
     (case Decode v of Inl _ \<Rightarrow> False | Inr env \<Rightarrow> ev_Payload env = [] \<and> TombstoneExpired (sp_TimestampNanos (ev_Stamp env)) now grace)"

definition expired_keys :: "int \<Rightarrow> u64 \<Rightarrow> (bytes \<rightharpoonup> bytes) \<Rightarrow> bytes set" where
  "expired_keys grace now m = {k. \<exists>v. m k = Some v \<and> expired_value grace now v}"

lemma collect_expired_eq:
  assumes "\<And>i. \<not> stop i"
  shows "collect_expired grace now stop keys n pairs =
    (Inr (keys @ map fst (filter (\<lambda>(k, v). expired_value grace now v) pairs)), n + length pairs)"
proof (induction pairs arbitrary: keys n)
  case (Cons kv pairs)
  obtain k v where "kv = (k, v)" by (rule prod.exhaust)
  with Cons show ?case by (auto simp: assms expired_value_def split: sum.splits)
qed (simp add: assms)

lemma purgeOne_mem:
  assumes "mem_ok b" "mem_abs b k = Some v" "expired_value grace now v"
  shows "\<exists>b'. purgeOneTombstone memory_ops k grace now b = (None, b') \<and> mem_ok b' \<and> mem_abs b' = (mem_abs b)(k := None)"
proof -
  from assms(1) have opn: "\<not> me_closed b" by (simp add: mem_ok_def)
  let ?t = "\<lparr>tx_writes = [], tx_deletes = [], tx_done = False\<rparr>"
  let ?t' = "snd (tx_Delete k ?t)"
  have del: "tx_Delete k ?t = (None, ?t')" by (simp add: tx_Delete_def)
  have t: "tx_ok ?t" "tx_view ?t b = mem_abs b" by (auto simp: tx_ok_def tx_view_def)
  obtain b' where b': "tx_Commit ?t' b = (None, b')" using opn by (simp add: tx_Commit_def tx_Delete_def)
  have ops: "bo_Begin memory_ops b = Inr ?t" "bo_TxGet memory_ops k ?t b = Inr v" "bo_TxDelete memory_ops k ?t = (None, ?t')"
    "bo_TxCommit memory_ops ?t' b = (None, b')"
    using opn assms(2) del b' by (simp_all add: memory_ops_def Memory_Begin_def tx_Get_def Memory_Get_def mem_abs_def)
  from mem_kv.txdelete_ok [OF assms(1) t(1) ops(3)] mem_kv.commit_ok [OF assms(1) _ ops(4)] t(2)
  have "mem_ok b' \<and> mem_abs b' = (mem_abs b)(k := None)" by simp
  moreover have "purgeOneTombstone memory_ops k grace now b = (None, b')"
    using assms(3) by (auto simp: purgeOneTombstone_def ops expired_value_def split: sum.splits)
  ultimately show ?thesis by blast
qed

lemma purge_keys_mem:
  assumes "\<And>i. \<not> closed i" and "\<And>i. now i = t"
  shows "mem_ok b \<Longrightarrow> distinct keys \<Longrightarrow> (\<forall>k\<in>set keys. \<exists>v. mem_abs b k = Some v \<and> expired_value grace t v) \<Longrightarrow>
    \<exists>b'. purge_keys memory_ops grace now closed (\<lambda>_ b. b) scanned i purged skipped keys b = (PurgeDone scanned (purged + length keys) skipped, b') \<and>
      mem_abs b' = mem_abs b |` (- set keys)"
proof (induction keys arbitrary: i purged b)
  case Nil
  then show ?case by simp
next
  case (Cons key keys)
  from Cons.prems(3) obtain v where "mem_abs b key = Some v" "expired_value grace t v" by auto
  from purgeOne_mem [OF Cons.prems(1) this] obtain b1
    where one: "purgeOneTombstone memory_ops key grace t b = (None, b1)" and b1: "mem_ok b1" "mem_abs b1 = (mem_abs b)(key := None)" by blast
  have "\<forall>k\<in>set keys. \<exists>v. mem_abs b1 k = Some v \<and> expired_value grace t v"
    using Cons.prems(2,3) by (auto simp: b1(2))
  from Cons.IH [OF b1(1) _ this, of "Suc i" "purged + 1"] Cons.prems(2) obtain b'
    where rest: "purge_keys memory_ops grace now closed (\<lambda>_ b. b) scanned (Suc i) (purged + 1) skipped keys b1 =
        (PurgeDone scanned (purged + 1 + length keys) skipped, b')" and b': "mem_abs b' = mem_abs b1 |` (- set keys)" by auto
  have "mem_abs b' = mem_abs b |` (- set (key # keys))" by (auto simp: b' b1(2) restrict_map_def fun_eq_iff)
  moreover have "\<not> closed i" "now i = t" by (rule assms)+
  ultimately show ?case using one rest by auto
qed

text \<open>C11: A purge pass removes nothing but expired tombstones. On any backend of the storage contract, with any other writers between
  any two keys, and wherever errors or a shutdown end the pass: every change of the store is a step of somebody else or the removal of a
  tombstone stamped more than the grace period before. A pass only starts when a write waits for all of several copies; and when
  nobody else writes, no reader sees a difference.\<close>

theorem purge_removes_only_expired:
  assumes "kv_backend ops kv view ok tok" "ok b" "\<forall>i b. ok b \<longrightarrow> ok (env i b)"
    and "fst (startTombstonePurge grace r wc once) = PurgeStarted"
    and "runTombstonePurge ops grace turn mounted scanNow stop now closed env b = (out, b')"
  shows "r > 1 \<and> requiredWriteAcks wc r \<ge> r \<and> (purge_link kv ok env grace now)\<^sup>*\<^sup>* (kv b) (kv b') \<and>
    ((\<forall>i b. env i b = b) \<longrightarrow> seen_map True (kv b') = seen_map True (kv b))"
proof -
  from assms(4) have start: "grace > 0" "r > 1" "requiredWriteAcks wc r \<ge> r"
    by (auto simp: startTombstonePurge_def TombstonePurge_def split: if_splits)
  have links: "(purge_link kv ok env grace now)\<^sup>*\<^sup>* (kv b) (kv b')"
    using assms(5) kv_backend.purge_keys_links [OF assms(1), of grace env b now closed] start(1) assms(2,3)
    by (auto simp: runTombstonePurge_def split: if_splits sum.splits prod.splits)
  have "seen_map True m' = seen_map True m" if "\<forall>i b. env i b = b" "(purge_link kv ok env grace now)\<^sup>*\<^sup>* m m'" for m m'
    using that(2)
  proof (induction rule: rtranclp_induct)
    case (step m1 m2)
    from step(2) have "seen_map True m2 = seen_map True m1"
      by (cases rule: purge_link.cases) (use that(1) removal_invisible in auto)
    with step(3) show ?case by simp
  qed simp
  with start links show ?thesis by blast
qed

text \<open>A store with a dead key, a live one and a young tombstone.\<close>

definition purge_demo_value :: "u64 \<Rightarrow> bytes \<Rightarrow> bytes" where
  "purge_demo_value ts payload = Encode (Envelope (Stamp ts ''a'') payload)"

definition purge_demo :: Memory where
  "purge_demo = \<lparr>me_data = [(''dead'', purge_demo_value 5 []), (''live'', purge_demo_value 6 ''v''), (''young'', purge_demo_value 95 [])], me_closed = False\<rparr>"

lemma purge_demo_ok: "mem_ok purge_demo"
  by (simp add: mem_ok_def purge_demo_def)

text \<open>C12: A pass over a memory backend that is not disturbed removes every expired tombstone and nothing else, and its log line has the
  right counts.\<close>

theorem purge_pass_exact:
  assumes "mem_ok b" "\<forall>i. \<not> stop i" "\<forall>i. \<not> closed i" "\<forall>i. now i = t"
  shows "let dead = expired_keys grace t (mem_abs b) in \<exists>b'. runTombstonePurge memory_ops grace True True t stop now closed (\<lambda>_ b. b) b =
      (if dead = {} then PurgeNothing else PurgeDone (length (me_data b)) (card dead) 0, b') \<and> mem_abs b' = mem_abs b |` (- dead)"
proof -
  let ?dead = "expired_keys grace t (mem_abs b)"
  let ?pairs = "sort_key fst (me_data b)"
  let ?keys = "map fst (filter (\<lambda>(k, v). expired_value grace t v) ?pairs)"
  from assms(1) have dist: "distinct (map fst (me_data b))" and "\<not> me_closed b" by (auto simp: mem_ok_def)
  then have scan: "collectExpiredTombstones memory_ops grace t stop b = (Inr ?keys, length (me_data b))"
    using assms(2) by (simp add: collectExpiredTombstones_def memory_ops_def Memory_ScanPrefix_def HasPrefix_def collect_expired_eq)
  have keys: "set ?keys = ?dead"
    using dist by (force simp: expired_keys_def mem_abs_def)
  have "distinct (map fst ?pairs)" using dist by (metis distinct_map distinct_sort set_sort)
  then have dkeys: "distinct ?keys" by (rule distinct_map_filter)
  have "\<forall>k\<in>set ?keys. \<exists>v. mem_abs b k = Some v \<and> expired_value grace t v" unfolding keys expired_keys_def by blast
  from purge_keys_mem [OF _ _ assms(1) dkeys this, of closed now "length (me_data b)" 0 0 0] assms(3,4) obtain b'
    where "purge_keys memory_ops grace now closed (\<lambda>_ b. b) (length (me_data b)) 0 0 0 ?keys b = (PurgeDone (length (me_data b)) (length ?keys) 0, b')"
      "mem_abs b' = mem_abs b |` (- ?dead)" using keys by auto
  moreover have "length ?keys = card ?dead" using distinct_card [OF dkeys] keys by simp
  moreover have "?dead = {} \<longleftrightarrow> length ?keys = 0" using keys by (metis length_0_conv set_empty)
  ultimately show ?thesis by (auto simp: runTombstonePurge_def scan restrict_map_def Let_def)
qed

lemma purge_demo_dead: "expired_keys 50 100 (mem_abs purge_demo) = {''dead''}"
  by (auto simp: expired_keys_def mem_abs_def purge_demo_def purge_demo_value_def expired_value_def Decode_Encode_envelope TombstoneExpired_def MaxNodeIDLen_def
      split: if_splits)

theorem purge_pass_exact_witness:
  "\<exists>b'. runTombstonePurge memory_ops 50 True True 100 (\<lambda>_. False) (\<lambda>_. 100) (\<lambda>_. False) (\<lambda>_ b. b) purge_demo = (PurgeDone 3 1 0, b') \<and>
     mem_abs b' ''dead'' = None \<and> mem_abs b' ''young'' = mem_abs purge_demo ''young''"
proof -
  have "length (me_data purge_demo) = 3" by (simp add: purge_demo_def)
  with purge_pass_exact [of purge_demo "\<lambda>_. False" "\<lambda>_. False" "\<lambda>_. 100" 100 50] purge_demo_ok show ?thesis
    by (auto simp: purge_demo_dead)
qed

theorem purge_removes_only_expired_witness:
  "(1 :: int) < 3 \<and> 3 \<le> requiredWriteAcks WriteAll 3 \<and>
   seen_map True (mem_abs (snd (runTombstonePurge memory_ops 50 True True 100 (\<lambda>_. False) (\<lambda>_. 100) (\<lambda>_. False) (\<lambda>_ b. b) purge_demo))) =
     seen_map True (mem_abs purge_demo)"
proof -
  let ?run = "runTombstonePurge memory_ops 50 True True 100 (\<lambda>_. False) (\<lambda>_. 100) (\<lambda>_. False) (\<lambda>_ b. b) purge_demo"
  have start: "fst (startTombstonePurge 50 3 WriteAll False) = PurgeStarted"
    by (simp add: startTombstonePurge_def TombstonePurge_def requiredWriteAcks_def)
  have "kv_backend memory_ops mem_abs tx_view mem_ok tx_ok" by unfold_locales
  from purge_removes_only_expired [OF this purge_demo_ok _ start, of "\<lambda>_ b. b" True True 100 "\<lambda>_. False" "\<lambda>_. 100" "\<lambda>_. False" "fst ?run" "snd ?run"]
  show ?thesis by simp
qed

end
