(* ===== verification/Spec2Isabelle.thy ===== *)
theory Spec2Isabelle
  imports Handoff_Fleet Settle Ring Redrive Split_R1 Coord_View Cas_Cluster Cas_Fanout Flush_Group Tombstone_Purge
begin

text \<open>
  A verification of shale, a sharded and replicated key-value layer over embedded storage engines.

  \<^bold>\<open>The program.\<close> A key's shard key (its hash tag) is hashed; the hash selects one of a power of two of \<^emph>\<open>units\<close>. A consistent-hash
  ring over the members places each unit on \<open>R\<close> nodes; position \<open>r\<close> of a unit is a durable store of its own, a \<^emph>\<open>replica unit\<close>.
  Nodes agree on membership and on the unit count through small objects in a shared conditional store. A node mounts
  the positions it should hold from a shared storage that fences an older opener by an epoch. Three things move data: the hand-off
  of a position when the membership changes, the online reshard when the unit count doubles or halves, and the replicated writes
  themselves, which carry last-writer-wins stamps so that replicas may apply them in any order.

  \<^bold>\<open>Layers and theories.\<close>

  \<^item> \<open>Prelude\<close>: machine words, byte strings, the encoders of Go's standard library that the sources call. \<open>Json\<close>: the part of
    \<^verbatim>\<open>encoding/json\<close> used for durable documents, with the print/parse inverse.

  \<^item> \<^verbatim>\<open>src/pkg/storageunit\<close>: \<open>Units\<close> (unit counts, hash to unit, split and merge, identities), \<open>Handoff\<close> (the phase machine of a position),
    \<open>Cond_Store\<close> (the conditional store: dictionary \<open>cond_ops\<close>, locale \<open>cond_store\<close>, the in-process store as its interpretation).

  \<^item> \<^verbatim>\<open>src/pkg/reshard\<close>: \<open>Reshard\<close> (the durable reshard state and the arbiter). Its operations are not atomic; they take what the other nodes
    do between two store operations as an argument, and the theorems hold for every such interference.

  \<^item> \<^verbatim>\<open>src/internal/decide\<close>, \<^verbatim>\<open>src/pkg/ring\<close>, \<^verbatim>\<open>src/pkg/coord\<close>: \<open>Decide\<close> (expiry, routing union, settle rule, purge rule, warm-up), \<open>Ring\<close> (placement;
    the hash and the consistent-hash library are parameters), \<open>Coord\<close> (members, roles, views), \<open>Coord_Cas\<close> (the coordinator of
    \<^verbatim>\<open>coord/cas/cas.go\<close>: the membership document, bootstrap, the read-modify-write cycle under interference, renewal, displacement, observation,
    close) and \<open>Coord_View\<close> (its snapshots and placement queries on every run).

  \<^item> \<^verbatim>\<open>src/pkg/backend\<close>, \<^verbatim>\<open>src/internal/sharedfactory\<close>: \<open>Memory_Backend\<close> (the storage port: dictionary \<open>backend_ops\<close>, locale \<open>kv_backend\<close>, the memory backend),
    \<open>Shared_Factory\<close> (the factory port: \<open>factory_ops\<close>, locale \<open>backend_factory\<close>, the shared storage with its epochs, fences and markers),
    \<open>Unit_Stores\<close> (many units in one world: locale \<open>unit_stores\<close>, interpreted on the fenced backends of both layouts).

  \<^item> \<^verbatim>\<open>src/pkg/cluster\<close>, values: \<open>Envelope\<close> (stamp, codec, stamp clock), \<open>Apply_Newer\<close> (the replica-side write rule, a refinement of an abstract
    last-writer-wins store).

  \<^item> \<^verbatim>\<open>src/pkg/cluster\<close>, mounts and hand-off: \<open>Mount_Table\<close> (every method of the table), \<open>Overlap\<close> (open, serve, drain, release, reconcile, leave),
    \<open>Handoff_Fleet\<close> (many nodes interleaved at lock and I/O granularity, with crashes), \<open>Retry_Wait\<close> and \<open>Redrive\<close> (retry schedules, the acquire
    goroutine), \<open>Settle\<close> (the debounced reconcile timer).

  \<^item> \<^verbatim>\<open>src/pkg/cluster\<close>, requests: \<open>Pending_Route\<close> (current and pending replica sets), \<open>Refusals\<close> (error values, refusal reasons over the wire;
    the gRPC status package is the locale \<open>grpc_status\<close>), \<open>Replicated\<close> (fan-out, write attempt, budgeted retry, union read, guarded read).

  \<^item> \<^verbatim>\<open>src/pkg/cluster\<close>, reshard: \<open>Gen_State\<close> (the two-generation routing state and its steps, the legs of a write, the positions a node should
    mount), \<open>Split_R1\<close> (markers, copy, cut-over of a unit stored once, with writers, crashes and restarts).

  \<^item> \<^verbatim>\<open>src/pkg/cluster\<close>, transactions: \<open>Cas_Commit\<close> (\<^verbatim>\<open>CommitCASApply\<close> of \<^verbatim>\<open>cas.go\<close> on any backend of the storage contract: read checks, commit stamp,
    write-set, outcomes), \<open>Cas_Tx\<close> (the buffered transaction and the dispatch of \<^verbatim>\<open>castx.go\<close>, the handler of \<^verbatim>\<open>src/pkg/rpc/cas_server.go\<close>,
    the retry loop \<^verbatim>\<open>Transact\<close>; a closure is a tree of calls, the locale \<open>cas_world\<close> is what a client relies on), \<open>Cas_Cluster\<close> (clients of
    one owner, the interpretation of \<open>cas_world\<close>), \<open>Cas_Fanout\<close> (the designated owner of \<^verbatim>\<open>cas_transition.go\<close>, the apply-only batch and its
    fan-out of \<^verbatim>\<open>apply_batch.go\<close>), \<open>Flush_Group\<close> (the group commit of the owner's flush, \<^verbatim>\<open>cas_flushgroup.go\<close>, as a step relation).
    \<open>Tombstone_Purge\<close>: the removal of expired tombstones when a position is mounted (\<^verbatim>\<open>tombstone_purge.go\<close>).

  \<^bold>\<open>How state and operations correspond.\<close> A Go struct with methods is a record and one definition per method; a method that holds a mutex for
  its whole body is one step. A value object is a datatype with the Go field names as selectors. A Go map that is ranged over is an
  association list with distinct keys and an arbitrary iteration order \<open>iter\<close>; one that is only looked up is a HOL map. A Go error
  is a value of a sum or option type. An interface is a record of functions passed to its clients, and a locale of the laws they rely
  on; every locale is interpreted on the model's own implementation. A point where the code gives up a lock or does I/O is a
  point where other steps may interleave: either a step relation (\<open>Handoff_Fleet\<close>, \<open>Settle\<close>, \<open>Split_R1\<close>, \<open>Flush_Group\<close>) or an
  \<open>env\<close> argument (\<open>Reshard\<close>, \<open>Redrive\<close>, \<open>Coord_Cas\<close>, \<open>Cas_Tx\<close>). A conditional commit holds its node's lock from the begin of its local transaction to
  its commit and is one step; plain writes do not take that lock, and one that lands inside the section is outside what optimistic
  validation promises, so they interfere between sections only.

  \<^bold>\<open>What the theorems show.\<close> One writer per mount whatever nodes open and close; a drained position is released once, only when a
  successor serves it; what serves has published its marker; agreement steps are atomic and converge to the declared count; a split
  loses no applied write, with the exception of a restart window that is shown as well; replicas converge whatever the order of
  deliveries; a quorum read sees an acked write; a guarded read can mistake a stale tombstone for absence; retries end within their
  budgets and keep the reason of a refusal; placement and routing agree with what nodes mount. An edit of the membership document touches
  no other member's row, and a coordinator's view and placement have one basis. A conditional commit has exactly the outcomes its callers
  tell apart and wins on the replicas; one node per view accepts the commits of a key; a commit that counts as replicated has its
  copies; a transaction that returns took effect as if alone, within bounded retries, unless a reply is lost, in which case it can take
  effect twice; a shared flush makes every answered write durable and answers every waiter; the purge removes
  nothing but expired tombstones.

  \<^bold>\<open>Bounds and fuel.\<close> Words keep their width; where a counter could wrap the theorems name the room they need (\<open>mem_room\<close>, epochs below
  the maximum). Loops that always end are recursive functions; those that may run forever are partial functions whose \<open>None\<close> is not
  returning, and their termination is proved (\<open>Redrive\<close>, \<open>Replicated\<close>, \<open>Envelope\<close>). \<^verbatim>\<open>Transact\<close> ends by a measure, conflicts plus re-runs left. No fuel is used.

  \<^bold>\<open>Not modelled.\<close> The bindings to slatedb, pebble and object stores (third-party engines; the contracts they implement are the locales), gRPC
  transport and generated protocol code, process set-up, command-line tools, metrics and logging, test harnesses. Real time enters only as
  the readings a definition takes. The merged scans over units (\<^verbatim>\<open>aggregate_snapshot.go\<close>, \<^verbatim>\<open>multibackend_union_scan.go\<close>, \<^verbatim>\<open>scan_all_units.go\<close>) are
  streaming reads that change no state. The driver of a replicated split is left out with its position-to-position copy: the
  routing states it steps through are in \<open>Gen_State\<close>, and the split of a unit stored once is in \<open>Split_R1\<close>.
\<close>

end
